(* ===== verification/Alloc_Prelude.thy ===== *)
theory Alloc_Prelude
  imports Main "HOL-Library.Word"
begin

text \<open>
  Shared vocabulary of the development: machine addresses and sizes of the LP64 C
  platform as 64-bit words, the faults a C access can raise (written into the model
  as the left side of a sum), the error monad that threads them through a
  straight-line sequence of accesses, and the variant of it that is used inside loops
  which may not return (\<open>partial_function (option)\<close>, where \<open>None\<close> is divergence).
\<close>

type_synonym addr = "64 word"
type_synonym size_t = "64 word"

text \<open>
  A fault is an access that C leaves undefined and that on a real machine either
  crashes or reads garbage: a dereference of \<open>NULL\<close>, an access to an address that
  is not inside the mapped heap \<open>[heap_start, break)\<close>, or a read of a header at a
  mapped address where no header was ever written (or where the one written there has
  since been overwritten).
\<close>

datatype fault =
    Null_deref
  | Unmapped addr
  | No_header addr

type_synonym 'a res = "fault + 'a"

definition bindE :: "'a res \<Rightarrow> ('a \<Rightarrow> 'b res) \<Rightarrow> 'b res" where
  "bindE m f = (case m of Inl e \<Rightarrow> Inl e | Inr x \<Rightarrow> f x)"

lemma bindE_simps [simp]:
  "bindE (Inl e) f = Inl e"
  "bindE (Inr x) f = f x"
  by (simp_all add: bindE_def)

lemma bindE_cong [fundef_cong]:
  "m = m' \<Longrightarrow> (\<And>x. m' = Inr x \<Longrightarrow> f x = f' x) \<Longrightarrow> bindE m f = bindE m' f'"
  unfolding bindE_def by (auto split: sum.split)

lemma bindE_eq_Inr:
  "bindE m f = Inr y \<longleftrightarrow> (\<exists>x. m = Inr x \<and> f x = Inr y)"
  by (cases m) simp_all

lemma bindE_eq_Inl:
  "bindE m f = Inl e \<longleftrightarrow> m = Inl e \<or> (\<exists>x. m = Inr x \<and> f x = Inl e)"
  by (cases m) simp_all

text \<open>Inside a loop that may not return: a fault ends the loop with \<open>Some (Inl _)\<close>.\<close>

definition bindO :: "'a res \<Rightarrow> ('a \<Rightarrow> 'b res option) \<Rightarrow> 'b res option" where
  "bindO m f = (case m of Inl e \<Rightarrow> Some (Inl e) | Inr x \<Rightarrow> f x)"

lemma bindO_simps [simp]:
  "bindO (Inl e) f = Some (Inl e)"
  "bindO (Inr x) f = f x"
  by (simp_all add: bindO_def)

lemma bindO_mono [partial_function_mono]:
  assumes "\<And>x. mono_option (\<lambda>g. B g x)"
  shows "mono_option (\<lambda>g. bindO m (\<lambda>x. B g x))"
  using assms unfolding bindO_def
  by (cases m) (simp_all add: monotoneI option.leq_refl)

text \<open>Sequencing a loop that may diverge with the rest of a loop body.\<close>

definition bindL :: "'a res option \<Rightarrow> ('a \<Rightarrow> 'b res option) \<Rightarrow> 'b res option" where
  "bindL m f = Option.bind m (\<lambda>r. bindO r f)"

lemma bindL_simps [simp]:
  "bindL None f = None"
  "bindL (Some r) f = bindO r f"
  by (simp_all add: bindL_def)

lemma bindL_snd_Inr:
  "bindL m (\<lambda>(_, s). Some (Inr s)) = Some (Inr s') \<longleftrightarrow> (\<exists>p. m = Some (Inr (p, s')))"
proof (cases m)
  case (Some r)
  then show ?thesis by (cases r) auto
qed simp

lemma bindL_mono [partial_function_mono]:
  assumes "\<And>x. mono_option (\<lambda>g. B g x)"
  shows "mono_option (\<lambda>g. bindL m (\<lambda>x. B g x))"
  unfolding bindL_def
  by (rule bind_mono [OF option.const_mono]) (rule bindO_mono [OF assms])

named_theorems mem_simps "evaluation of loads and stores on the header store"
named_theorems dir_simps "evaluation of the block-directory abstraction"

subsection \<open>Words as bounded naturals\<close>

text \<open>
  Every address computation of the allocator is a sum of a header address and some
  sizes. Where the sum stays below \<open>2^64\<close> the word sum is the natural sum; these are
  the two forms the proofs use.
\<close>

lemma unat_add_nowrap:
  fixes a b :: "64 word"
  assumes "unat a + unat b < 2 ^ 64"
  shows "unat (a + b) = unat a + unat b"
  using assms by (simp add: unat_add_lem [symmetric])

lemma unat_add3_nowrap:
  fixes a b c :: "64 word"
  assumes "unat a + unat b + unat c < 2 ^ 64"
  shows "unat (a + b + c) = unat a + unat b + unat c"
  using assms by (simp add: unat_add_nowrap)

lemma unat_add_plus32_nowrap:
  fixes a b :: "64 word"
  assumes "unat a + unat b + 32 < 2 ^ 64"
  shows "unat (a + (b + 32)) = unat a + unat b + 32"
proof -
  have "unat (b + 32) = unat b + 32" using assms by (simp add: unat_add_nowrap)
  with assms show ?thesis by (simp add: unat_add_nowrap)
qed

lemma sint_small:
  fixes w :: "64 word"
  assumes "unat w < 2 ^ 63"
  shows "sint w = int (unat w)"
proof -
  have u: "uint w = int (unat w)" by simp
  have "int (unat w) < int (2 ^ 63)" using assms by (simp only: of_nat_less_iff)
  then have "uint w < 2 ^ 63" by (simp only: u of_nat_power of_nat_numeral)
  moreover have "0 \<le> uint w" by simp
  ultimately have "signed_take_bit 63 (uint w) = uint w"
    by (intro signed_take_bit_int_eq_self) linarith+
  then show ?thesis by (simp add: sint_uint)
qed

lemma unat_lt_2p64 [simp]: "unat (a :: 64 word) < 2 ^ 64"
  using unsigned_less [of a] by simp

text \<open>A counter below some word bound can be incremented without wrapping.\<close>

lemma unat_suc_less:
  fixes i j :: "64 word"
  assumes "i < j"
  shows "unat (i + 1) = unat i + 1"
proof -
  have "unat i < unat j" using assms by (simp add: word_less_nat_alt)
  then have "unat i + 1 < 2 ^ 64" using unat_lt_2p64 [of j] by linarith
  then show ?thesis by (simp add: unat_add_nowrap)
qed

lemma unat_suc_measure:
  fixes i j :: "64 word"
  assumes "i < j"
  shows "2 ^ 64 - unat (i + 1) < 2 ^ 64 - unat i"
proof -
  have "unat i < 2 ^ 64" using unsigned_less [of i] by simp
  with unat_suc_less [OF assms] show ?thesis by linarith
qed

lemma sint_diff_small:
  fixes x y :: "64 word"
  assumes "unat x < 2 ^ 63" and "unat y < 2 ^ 63"
  shows "sint (x - y) = int (unat x) - int (unat y)"
proof -
  have "sint (x - y) = signed_take_bit 63 (sint x - sint y)"
    by (simp add: sint_word_ariths)
  also have "sint x - sint y = int (unat x) - int (unat y)"
    using assms by (simp add: sint_small)
  also have "signed_take_bit 63 (int (unat x) - int (unat y)) = int (unat x) - int (unat y)"
  proof (rule signed_take_bit_int_eq_self)
    have "int (unat x) < int (2 ^ 63)" "int (unat y) < int (2 ^ 63)"
      using assms by (simp_all only: of_nat_less_iff)
    then have "int (unat x) < 2 ^ 63" "int (unat y) < 2 ^ 63"
      by (simp_all only: of_nat_power of_nat_numeral)
    then show "- (2 ^ 63) \<le> int (unat x) - int (unat y)" "int (unat x) - int (unat y) < 2 ^ 63"
      by linarith+
  qed
  finally show ?thesis .
qed

lemma uint_add_sint:
  fixes a b :: "64 word"
  assumes "0 \<le> uint a + sint b" and "uint a + sint b < 2 ^ 64"
  shows "uint (a + b) = uint a + sint b"
proof -
  have tb: "take_bit 64 (sint b) = take_bit 64 (uint b)"
    by (simp add: sint_uint take_bit_signed_take_bit)
  have "uint (a + b) = take_bit 64 (uint a + uint b)"
    by (simp add: uint_word_arith_bintrs)
  also have "\<dots> = take_bit 64 (take_bit 64 (uint a) + take_bit 64 (uint b))"
    by (simp add: take_bit_add)
  also have "\<dots> = take_bit 64 (take_bit 64 (uint a) + take_bit 64 (sint b))"
    by (simp only: tb)
  also have "\<dots> = take_bit 64 (uint a + sint b)"
    by (simp only: take_bit_add)
  also have "\<dots> = uint a + sint b"
    using assms by (simp add: take_bit_int_eq_self)
  finally show ?thesis .
qed

text \<open>A signed value that is not negative is its unsigned value, below \<open>2^63\<close>.\<close>

lemma sint_nonneg_small:
  fixes w :: "64 word"
  assumes "0 \<le> sint w"
  shows "unat w < 2 ^ 63"
proof (rule ccontr)
  assume "\<not> unat w < 2 ^ 63"
  then have "int (2 ^ 63) \<le> int (unat w)" by (simp only: of_nat_le_iff not_less)
  then have a: "2 ^ 63 \<le> uint w" by simp
  have b: "uint w < 2 ^ 64" using uint_lt2p [of w] by simp
  have "sint w = take_bit 64 (uint w + 2 ^ 63) - 2 ^ 63"
    by (simp add: sint_uint signed_take_bit_eq_take_bit_shift)
  also have "take_bit 64 (uint w + 2 ^ 63) = uint w + 2 ^ 63 - 2 ^ 64"
  proof -
    have "take_bit 64 (uint w + 2 ^ 63) = ((uint w + 2 ^ 63 - 2 ^ 64) + 2 ^ 64) mod 2 ^ 64"
      by (simp only: take_bit_eq_mod diff_add_cancel)
    also have "\<dots> = (uint w + 2 ^ 63 - 2 ^ 64) mod 2 ^ 64"
      by (simp only: mod_add_self2)
    also have "\<dots> = uint w + 2 ^ 63 - 2 ^ 64" using a b by (intro mod_pos_pos_trivial) simp_all
    finally show ?thesis .
  qed
  finally have "sint w < 0" using b by simp
  with assms show False by simp
qed
text \<open>Adding a header size to a size wraps exactly when the sum lands below the header size.\<close>

lemma unat_plus32_nowrap:
  fixes n :: "64 word"
  assumes "32 \<le> unat (n + 32)"
  shows "unat (n + 32) = unat n + 32"
proof (cases "unat n + 32 < 2 ^ 64")
  case True
  then show ?thesis by (simp add: unat_add_nowrap)
next
  case False
  have "unat (n + 32) = (unat n + 32) mod 2 ^ 64" by (simp add: unat_word_ariths)
  also have "\<dots> = unat n + 32 - 2 ^ 64" using False unat_lt_2p64 [of n] by (simp add: mod_if)
  finally show ?thesis using assms unat_lt_2p64 [of n] by linarith
qed

lemma unat_minus_one_64: "unat (- 1 :: 64 word) = 18446744073709551615"
  by (simp add: unsigned_minus_1_eq_mask mask_eq_exp_minus_1)

end
