(* ===== verification/Heap_Memory.thy ===== *)
theory Heap_Memory
  imports Alloc_Prelude
begin

text \<open>
  The memory the allocator of \<^verbatim>\<open>src/dynalloc.c\<close> works on. The C \<^verbatim>\<open>struct Header\<close>
  is a record; the process state is a record holding the global \<^verbatim>\<open>first\<close>, a typed
  view of the heap (the header stored at each address where one was written), the
  bytes of the data regions, and the program break of the operating system with its
  bounds. Loads and stores of header fields check what C leaves undefined
  (\<open>NULL\<close>, an address outside the mapped heap, an address that holds no header) and
  return it as a \<^typ>\<open>fault\<close>. The Heap Region Manager (\<^verbatim>\<open>sbrk\<close> and \<^verbatim>\<open>brk\<close> of
  \<^verbatim>\<open>unistd.h\<close>) is modelled here from the specification: it moves the break inside
  \<open>[heap_start, heap_max]\<close> and releases what lies above a lowered break.
\<close>

section \<open>Headers and the process state\<close>

record Header =
  hnext :: addr
  hprev :: addr
  hsize :: size_t
  hfree :: bool

text \<open>
  \<^verbatim>\<open>sizeof(Header)\<close> on LP64: two pointers, a \<^verbatim>\<open>size_t\<close> and a \<^verbatim>\<open>char\<close>, padded to
  the 8-byte alignment of the struct.
\<close>

definition HDR_SIZE :: size_t where
  "HDR_SIZE = 32"

definition MIN_BLOCK_SIZE :: size_t where
  "MIN_BLOCK_SIZE = 32"

text \<open>\<^verbatim>\<open>sizeof(Header * )\<close>: the size of a pointer.\<close>

definition PTR_SIZE :: size_t where
  "PTR_SIZE = 8"

declare HDR_SIZE_def [simp] MIN_BLOCK_SIZE_def [simp] PTR_SIZE_def [simp]

record mstate =
  first :: addr
  hdrs :: "addr \<rightharpoonup> Header"
  dat :: "addr \<Rightarrow> 8 word"
  heap_start :: addr
  heap_brk :: addr
  heap_max :: addr

text \<open>The state before the first call: no block, the break at the start of the heap.\<close>

definition init_state :: "addr \<Rightarrow> addr \<Rightarrow> mstate" where
  "init_state lo hi =
     \<lparr>first = 0, hdrs = Map.empty, dat = (\<lambda>_. 0), heap_start = lo, heap_brk = lo, heap_max = hi\<rparr>"

section \<open>Accessing headers\<close>

text \<open>A header at \<open>p\<close> is accessible when its 32 bytes lie in \<open>[heap_start, break)\<close>.\<close>

definition in_heap :: "mstate \<Rightarrow> addr \<Rightarrow> bool" where
  "in_heap s p \<longleftrightarrow> unat (heap_start s) \<le> unat p \<and> unat p + unat HDR_SIZE \<le> unat (heap_brk s)"

definition load :: "mstate \<Rightarrow> addr \<Rightarrow> Header res" where
  "load s p =
     (if p = 0 then Inl Null_deref
      else if \<not> in_heap s p then Inl (Unmapped p)
      else case hdrs s p of None \<Rightarrow> Inl (No_header p) | Some h \<Rightarrow> Inr h)"

text \<open>A store to a field of the header at \<open>p\<close>, e.g. \<^verbatim>\<open>p->size = v\<close>.\<close>

definition upd_hdr :: "addr \<Rightarrow> (Header \<Rightarrow> Header) \<Rightarrow> mstate \<Rightarrow> mstate res" where
  "upd_hdr p f s = bindE (load s p) (\<lambda>h. Inr (s\<lparr>hdrs := (hdrs s)(p \<mapsto> f h)\<rparr>))"

text \<open>
  The bytes \<open>[a, a + n)\<close> meet the header at \<open>q\<close>. Writing them destroys that
  header: what is read there afterwards is no longer a header.
\<close>

definition overlaps :: "addr \<Rightarrow> nat \<Rightarrow> addr \<Rightarrow> bool" where
  "overlaps a n q \<longleftrightarrow> unat q < unat a + n \<and> unat a < unat q + unat HDR_SIZE"

definition clobber :: "addr \<Rightarrow> nat \<Rightarrow> (addr \<rightharpoonup> Header) \<Rightarrow> (addr \<rightharpoonup> Header)" where
  "clobber a n m = (\<lambda>q. if overlaps a n q then None else m q)"

text \<open>
  Writing a complete new header at \<open>p\<close> (the four field stores that build
  \<^verbatim>\<open>new_header\<close> in \<^verbatim>\<open>split_block\<close> and \<^verbatim>\<open>new_block\<close> in \<^verbatim>\<open>malloc\<close>).
\<close>

definition new_hdr :: "addr \<Rightarrow> Header \<Rightarrow> mstate \<Rightarrow> mstate res" where
  "new_hdr p h s =
     (if p = 0 then Inl Null_deref
      else if \<not> in_heap s p then Inl (Unmapped p)
      else Inr (s\<lparr>hdrs := (clobber p (unat HDR_SIZE) (hdrs s))(p \<mapsto> h)\<rparr>))"

section \<open>Accessing data bytes\<close>

text \<open>
  A byte of a data region (\<^verbatim>\<open>char *\<close> in \<^verbatim>\<open>copy_data\<close>) is accessible when it lies in
  \<open>[heap_start, break)\<close>. Writing a byte destroys a header it falls into.
\<close>

definition in_data :: "mstate \<Rightarrow> addr \<Rightarrow> bool" where
  "in_data s p \<longleftrightarrow> unat (heap_start s) \<le> unat p \<and> unat p < unat (heap_brk s)"

definition load_byte :: "mstate \<Rightarrow> addr \<Rightarrow> 8 word res" where
  "load_byte s p =
     (if p = 0 then Inl Null_deref
      else if \<not> in_data s p then Inl (Unmapped p)
      else Inr (dat s p))"

definition store_byte :: "addr \<Rightarrow> 8 word \<Rightarrow> mstate \<Rightarrow> mstate res" where
  "store_byte p v s =
     (if p = 0 then Inl Null_deref
      else if \<not> in_data s p then Inl (Unmapped p)
      else Inr (s\<lparr>dat := (dat s)(p := v), hdrs := clobber p 1 (hdrs s)\<rparr>))"

section \<open>The Heap Region Manager: sbrk and brk\<close>

text \<open>
  Moving the break to \<open>a\<close> unmaps everything above it: a header that does not lie
  wholly below the new break is gone.
\<close>

definition set_break :: "addr \<Rightarrow> mstate \<Rightarrow> mstate" where
  "set_break a s =
     s\<lparr>heap_brk := a, hdrs := (\<lambda>q. if unat a < unat q + unat HDR_SIZE then None else hdrs s q)\<rparr>"

text \<open>
  \<^verbatim>\<open>void *sbrk(intptr_t increment)\<close>: the increment is read as a signed value; on
  success the old break is returned, on failure \<^verbatim>\<open>(void * ) -1\<close> and nothing changes.
\<close>

definition sbrk :: "64 word \<Rightarrow> mstate \<Rightarrow> addr \<times> mstate" where
  "sbrk incr s =
     (let nb = uint (heap_brk s) + sint incr in
      if uint (heap_start s) \<le> nb \<and> nb \<le> uint (heap_max s)
      then (heap_brk s, set_break (heap_brk s + incr) s)
      else (- 1, s))"

text \<open>\<^verbatim>\<open>int brk(void *addr)\<close>; the allocator ignores its result.\<close>

definition brk :: "addr \<Rightarrow> mstate \<Rightarrow> mstate" where
  "brk a s = (if heap_start s \<le> a \<and> a \<le> heap_max s then set_break a s else s)"

section \<open>Evaluation rules\<close>

lemma load_Inr [mem_simps]:
  "load s p = Inr h \<longleftrightarrow> p \<noteq> 0 \<and> in_heap s p \<and> hdrs s p = Some h"
  by (auto simp: load_def split: option.splits)

lemma load_present [mem_simps]:
  "p \<noteq> 0 \<Longrightarrow> in_heap s p \<Longrightarrow> hdrs s p = Some h \<Longrightarrow> load s p = Inr h"
  by (simp add: load_def)

lemma upd_hdr_present [mem_simps]:
  "p \<noteq> 0 \<Longrightarrow> in_heap s p \<Longrightarrow> hdrs s p = Some h \<Longrightarrow>
   upd_hdr p f s = Inr (s\<lparr>hdrs := (hdrs s)(p \<mapsto> f h)\<rparr>)"
  by (simp add: upd_hdr_def load_def)

lemma new_hdr_ok [mem_simps]:
  "r \<noteq> 0 \<Longrightarrow> in_heap s r \<Longrightarrow>
   new_hdr r h s = Inr (s\<lparr>hdrs := (clobber r (unat HDR_SIZE) (hdrs s))(r \<mapsto> h)\<rparr>)"
  by (simp add: new_hdr_def)

lemma load_null [mem_simps]: "load s 0 = Inl Null_deref"
  by (simp add: load_def)

lemma upd_hdr_null [mem_simps]: "upd_hdr 0 f s = Inl Null_deref"
  by (simp add: upd_hdr_def load_def)

lemma upd_hdr_Inr:
  "upd_hdr p f s = Inr s' \<longleftrightarrow>
   (\<exists>h. p \<noteq> 0 \<and> in_heap s p \<and> hdrs s p = Some h \<and> s' = s\<lparr>hdrs := (hdrs s)(p \<mapsto> f h)\<rparr>)"
  by (auto simp: upd_hdr_def bindE_eq_Inr load_Inr)

lemma in_heap_hdrs_update [simp]:
  "in_heap (s\<lparr>hdrs := m\<rparr>) p = in_heap s p"
  by (simp add: in_heap_def)

lemma in_heap_first_update [simp]:
  "in_heap (s\<lparr>first := a\<rparr>) p = in_heap s p"
  by (simp add: in_heap_def)

lemma load_fault_cases:
  "load s p = Inl e \<Longrightarrow>
   (p = 0 \<and> e = Null_deref) \<or> (p \<noteq> 0 \<and> \<not> in_heap s p \<and> e = Unmapped p) \<or>
   (p \<noteq> 0 \<and> in_heap s p \<and> hdrs s p = None \<and> e = No_header p)"
  by (auto simp: load_def split: if_splits option.splits)

lemma sbrk_ok:
  assumes "uint (heap_start s) \<le> uint (heap_brk s) + sint incr"
    and "uint (heap_brk s) + sint incr \<le> uint (heap_max s)"
  shows "sbrk incr s = (heap_brk s, set_break (heap_brk s + incr) s)"
  using assms by (simp add: sbrk_def Let_def)

lemma sbrk_fail:
  assumes "\<not> (uint (heap_start s) \<le> uint (heap_brk s) + sint incr \<and>
              uint (heap_brk s) + sint incr \<le> uint (heap_max s))"
  shows "sbrk incr s = (- 1, s)"
  unfolding sbrk_def Let_def by (rule if_not_P) (rule assms)
lemma sbrk_cases:
  assumes "sbrk incr s = (r, s')"
  shows "(r = heap_brk s \<and> s' = set_break (heap_brk s + incr) s \<and>
          heap_start s \<le> heap_brk s' \<and> heap_brk s' \<le> heap_max s) \<or> (r = - 1 \<and> s' = s)"
proof (cases "uint (heap_start s) \<le> uint (heap_brk s) + sint incr \<and>
              uint (heap_brk s) + sint incr \<le> uint (heap_max s)")
  case True
  have "uint (heap_max s) < 2 ^ 64" using uint_lt2p [of "heap_max s"] by simp
  then have "uint (heap_brk s + incr) = uint (heap_brk s) + sint incr"
    using True uint_ge_0 [of "heap_start s"] by (intro uint_add_sint) linarith+
  then have bnd: "heap_start s \<le> heap_brk s + incr \<and> heap_brk s + incr \<le> heap_max s"
    using True by (simp add: word_le_def)
  have "sbrk incr s = (heap_brk s, set_break (heap_brk s + incr) s)"
    using True by (intro sbrk_ok) simp_all
  with assms have "r = heap_brk s \<and> s' = set_break (heap_brk s + incr) s"
    by (metis prod.inject)
  then show ?thesis using bnd by (simp add: set_break_def)
next
  case False
  then show ?thesis using assms by (simp add: sbrk_fail)
qed

text \<open>
  A header written at what \<^verbatim>\<open>sbrk\<close> returned is in the heap only if the break really
  moved up by at least a header: then the increment is the natural one, with no wrap.
\<close>

lemma sbrk_in_heap:
  assumes sb: "sbrk incr s = (nb, s1)" and ih: "in_heap s1 nb"
  shows "nb = heap_brk s" and "s1 = set_break (heap_brk s + incr) s"
    and "heap_brk s + incr \<le> heap_max s"
    and "unat (heap_brk s + incr) = unat (heap_brk s) + unat incr"
    and "unat (heap_brk s) + 32 \<le> unat (heap_brk s + incr)"
proof -
  let ?c = "uint (heap_start s) \<le> uint (heap_brk s) + sint incr \<and>
            uint (heap_brk s) + sint incr \<le> uint (heap_max s)"
  have c: ?c
  proof (rule ccontr)
    assume "\<not> ?c"
    then have "nb = - 1 \<and> s1 = s" using sb sbrk_fail by (metis prod.inject)
    then show False using ih unat_lt_2p64 [of "heap_brk s"] by (simp add: in_heap_def unat_minus_one_64)
  qed
  have e: "nb = heap_brk s \<and> s1 = set_break (heap_brk s + incr) s"
    using sb sbrk_ok [of s incr] c by (metis prod.inject)
  then show "nb = heap_brk s" "s1 = set_break (heap_brk s + incr) s" by simp_all
  have "uint (heap_max s) < 2 ^ 64" using uint_lt2p [of "heap_max s"] by simp
  then have u: "uint (heap_brk s + incr) = uint (heap_brk s) + sint incr"
    using c uint_ge_0 [of "heap_start s"] by (intro uint_add_sint) linarith+
  then show "heap_brk s + incr \<le> heap_max s" using c by (simp add: word_le_def)
  have "unat (heap_brk s) + 32 \<le> unat (heap_brk s + incr)"
    using ih e by (simp add: in_heap_def set_break_def)
  then show "unat (heap_brk s) + 32 \<le> unat (heap_brk s + incr)" .
  then have "int (unat (heap_brk s) + 32) \<le> int (unat (heap_brk s + incr))"
    by (simp only: of_nat_le_iff)
  then have "32 \<le> sint incr" using u by simp
  then have "unat incr < 2 ^ 63" by (intro sint_nonneg_small) simp
  then have "sint incr = int (unat incr)" by (rule sint_small)
  then have "int (unat (heap_brk s + incr)) = int (unat (heap_brk s) + unat incr)"
    using u by simp
  then show "unat (heap_brk s + incr) = unat (heap_brk s) + unat incr" by (simp only: of_nat_eq_iff)
qed
lemma hdrs_frame:
  "s' = s\<lparr>hdrs := hdrs s'\<rparr> \<Longrightarrow>
   first s' = first s \<and> heap_start s' = heap_start s \<and> heap_brk s' = heap_brk s \<and>
   heap_max s' = heap_max s \<and> dat s' = dat s"
  by (cases s; cases s') simp

end
