(* ===== verification/Block_Directory.thy ===== *)
theory Block_Directory
  imports Heap_Memory
begin

text \<open>
  The Block Directory: the doubly linked chain of headers that starts at the global
  \<^verbatim>\<open>first\<close>, and its two primitives \<^verbatim>\<open>merge_blocks\<close> and \<^verbatim>\<open>split_block\<close>
  (\<^verbatim>\<open>src/dynalloc.c\<close>, lines 35--64). The chain is abstracted to a list of blocks
  (address, size, free flag); \<open>heap_ok\<close> is the well-formedness the specification asks
  of the directory (its invariants 1--4): the chain is a doubly linked list ending in
  \<open>NULL\<close>, and the blocks tile the heap from its start to the break without gaps.
\<close>

section \<open>The primitives\<close>

text \<open>
  The macros \<^verbatim>\<open>min(x,y)\<close> and \<^verbatim>\<open>max(x,y)\<close> (lines 6--7), applied by
  \<^verbatim>\<open>merge_blocks\<close> to header pointers, which C compares as unsigned addresses.
\<close>

definition min_macro :: "addr \<Rightarrow> addr \<Rightarrow> addr" where
  "min_macro x y = (if x > y then y else x)"

definition max_macro :: "addr \<Rightarrow> addr \<Rightarrow> addr" where
  "max_macro x y = (if x > y then x else y)"

text \<open>
  \<^verbatim>\<open>merge_blocks(head1, head2)\<close>: the lower header absorbs the higher one. Every field
  access of the source is one load or store, in the source's order.
\<close>

definition merge_blocks :: "addr \<Rightarrow> addr \<Rightarrow> mstate \<Rightarrow> (addr \<times> mstate) res" where
  "merge_blocks head1 head2 s =
     (let first_header = min_macro head1 head2; second_header = max_macro head1 head2 in
      bindE (load s head1) (\<lambda>h1.
      bindE (load s head2) (\<lambda>h2.
      bindE (upd_hdr first_header (\<lambda>h. h\<lparr>hsize := HDR_SIZE + hsize h1 + hsize h2\<rparr>) s) (\<lambda>s.
      bindE (load s second_header) (\<lambda>h2.
      bindE (upd_hdr first_header (\<lambda>h. h\<lparr>hnext := hnext h2\<rparr>) s) (\<lambda>s.
      bindE (load s second_header) (\<lambda>h2.
      if hnext h2 \<noteq> 0
      then bindE (upd_hdr (hnext h2) (\<lambda>h. h\<lparr>hprev := first_header\<rparr>) s)
             (\<lambda>s. Inr (first_header, s))
      else Inr (first_header, s))))))))"

text \<open>
  \<^verbatim>\<open>split_block(header, new_size)\<close>. The remainder's size is computed in \<^verbatim>\<open>size_t\<close>
  with \<^verbatim>\<open>sizeof(header)\<close>, the size of a pointer; the result is the new header or
  \<open>NULL\<close>. \<^verbatim>\<open>header->size\<close> is not written.
\<close>

definition split_block :: "addr \<Rightarrow> size_t \<Rightarrow> mstate \<Rightarrow> (addr \<times> mstate) res" where
  "split_block header new_size s =
     bindE (load s header) (\<lambda>h.
     let new_block_size = hsize h - new_size - PTR_SIZE in
     if new_block_size < MIN_BLOCK_SIZE then Inr (0, s)
     else
       let new_header = header + HDR_SIZE + new_size in
       bindE (new_hdr new_header
                \<lparr>hnext = hnext h, hprev = header, hsize = new_block_size, hfree = True\<rparr> s) (\<lambda>s.
       bindE (load s header) (\<lambda>h.
       bindE (upd_hdr (hnext h) (\<lambda>n. n\<lparr>hprev := new_header\<rparr>) s) (\<lambda>s.
       bindE (upd_hdr header (\<lambda>h. h\<lparr>hnext := new_header\<rparr>) s) (\<lambda>s.
       Inr (new_header, s))))))"

section \<open>The directory as a list of blocks\<close>

datatype blk = Blk (b_addr: addr) (b_size: size_t) (b_free: bool)

text \<open>
  \<open>seg m pv p bs q\<close>: following \<^verbatim>\<open>next\<close> from \<open>p\<close> visits the headers of \<open>bs\<close> and
  then reaches \<open>q\<close>; each header's \<^verbatim>\<open>prev\<close> is the one visited before it (\<open>pv\<close> for
  the first), and its size and flag are those of the block.
\<close>

fun seg :: "(addr \<rightharpoonup> Header) \<Rightarrow> addr \<Rightarrow> addr \<Rightarrow> blk list \<Rightarrow> addr \<Rightarrow> bool" where
  "seg m pv p [] q \<longleftrightarrow> p = q"
| "seg m pv p (b # bs) q \<longleftrightarrow>
     p \<noteq> 0 \<and> p = b_addr b \<and>
     (case m p of
        None \<Rightarrow> False
      | Some h \<Rightarrow> hprev h = pv \<and> hsize h = b_size b \<and> hfree h = b_free b \<and> seg m p (hnext h) bs q)"

text \<open>The blocks lie one after the other from \<open>lo\<close> to \<open>hi\<close>, each header followed by its data.\<close>

fun tiled :: "nat \<Rightarrow> blk list \<Rightarrow> nat \<Rightarrow> bool" where
  "tiled lo [] hi \<longleftrightarrow> lo = hi"
| "tiled lo (b # bs) hi \<longleftrightarrow> unat (b_addr b) = lo \<and> tiled (lo + unat HDR_SIZE + unat (b_size b)) bs hi"

definition heap_ok :: "mstate \<Rightarrow> blk list \<Rightarrow> bool" where
  "heap_ok s bs \<longleftrightarrow>
     seg (hdrs s) 0 (first s) bs 0 \<and> tiled (unat (heap_start s)) bs (unat (heap_brk s)) \<and>
     list_all (\<lambda>b. MIN_BLOCK_SIZE \<le> b_size b) bs \<and> heap_start s \<noteq> 0 \<and> heap_brk s \<le> heap_max s"

text \<open>The address of the last block of a list (\<open>pv\<close> for none), and of the first (\<open>NULL\<close> for none).\<close>

fun last_addr :: "addr \<Rightarrow> blk list \<Rightarrow> addr" where
  "last_addr pv [] = pv"
| "last_addr pv (b # bs) = last_addr (b_addr b) bs"

definition next_addr :: "blk list \<Rightarrow> addr" where
  "next_addr bs = (case bs of [] \<Rightarrow> 0 | b # _ \<Rightarrow> b_addr b)"

text \<open>What the specification's \<^verbatim>\<open>merge\<close> does to two list-adjacent blocks.\<close>

definition absorb :: "blk \<Rightarrow> blk \<Rightarrow> blk" where
  "absorb a b = Blk (b_addr a) (HDR_SIZE + b_size a + b_size b) (b_free a)"

section \<open>Concrete directories for the witnesses\<close>

text \<open>
  A heap starting at address 4096 with two free blocks of 40 and 32 data bytes, linked,
  and the break right after the second.
\<close>

definition demo_two :: mstate where
  "demo_two =
     \<lparr>first = 4096,
      hdrs = Map.empty(4096 \<mapsto> \<lparr>hnext = 4168, hprev = 0, hsize = 40, hfree = True\<rparr>,
                       4168 \<mapsto> \<lparr>hnext = 0, hprev = 4096, hsize = 32, hfree = True\<rparr>),
      dat = (\<lambda>_. 0), heap_start = 4096, heap_brk = 4232, heap_max = 65536\<rparr>"

text \<open>
  A free block of 100 data bytes followed by an allocated one of 32; and a heap whose
  only block is a free one of 100 bytes.
\<close>

definition demo_split :: mstate where
  "demo_split =
     \<lparr>first = 4096,
      hdrs = Map.empty(4096 \<mapsto> \<lparr>hnext = 4228, hprev = 0, hsize = 100, hfree = True\<rparr>,
                       4228 \<mapsto> \<lparr>hnext = 0, hprev = 4096, hsize = 32, hfree = False\<rparr>),
      dat = (\<lambda>_. 0), heap_start = 4096, heap_brk = 4292, heap_max = 65536\<rparr>"

definition demo_one :: mstate where
  "demo_one =
     \<lparr>first = 4096,
      hdrs = Map.empty(4096 \<mapsto> \<lparr>hnext = 0, hprev = 0, hsize = 100, hfree = True\<rparr>),
      dat = (\<lambda>_. 0), heap_start = 4096, heap_brk = 4228, heap_max = 65536\<rparr>"

section \<open>Lemmas on the directory abstraction\<close>

lemma macros_min_max [simp]: "min_macro x y = min x y" "max_macro x y = max x y"
  by (auto simp: min_macro_def max_macro_def min_def max_def)

lemma next_addr_simps [simp]: "next_addr [] = 0" "next_addr (b # bs) = b_addr b"
  by (simp_all add: next_addr_def)

lemma seg_head: "seg m pv p bs q \<Longrightarrow> p = (case bs of [] \<Rightarrow> q | b # _ \<Rightarrow> b_addr b)"
  by (cases bs) auto

lemma seg_append:
  "seg m pv p (xs @ ys) q \<longleftrightarrow> (\<exists>r. seg m pv p xs r \<and> seg m (last_addr pv xs) r ys q)"
  by (induction xs arbitrary: pv p) (auto split: option.splits)

lemma seg_cong:
  "\<forall>x \<in> b_addr ` set bs. m' x = m x \<Longrightarrow> seg m' pv p bs q = seg m pv p bs q"
  by (induction bs arbitrary: pv p) (auto split: option.splits)

lemma tiled_end_unique: "tiled lo bs hi \<Longrightarrow> tiled lo bs hi' \<Longrightarrow> hi = hi'"
  by (induction bs arbitrary: lo) auto

lemma seg_upd_other:
  "x \<notin> b_addr ` set bs \<Longrightarrow> seg (m(x \<mapsto> h)) pv p bs q = seg m pv p bs q"
  by (induction bs arbitrary: pv p) (auto split: option.splits)

lemma tiled_append:
  "tiled lo (xs @ ys) hi \<longleftrightarrow> (\<exists>mid. tiled lo xs mid \<and> tiled mid ys hi)"
  by (induction xs arbitrary: lo) auto

lemma tiled_le: "tiled lo bs hi \<Longrightarrow> lo \<le> hi"
  by (induction bs arbitrary: lo) fastforce+

lemma tiled_mem:
  "tiled lo bs hi \<Longrightarrow> b \<in> set bs \<Longrightarrow>
   lo \<le> unat (b_addr b) \<and> unat (b_addr b) + unat HDR_SIZE + unat (b_size b) \<le> hi"
proof (induction bs arbitrary: lo)
  case Nil
  then show ?case by simp
next
  case (Cons c bs)
  show ?case
  proof (cases "b = c")
    case True
    with Cons.prems show ?thesis by (auto dest: tiled_le)
  next
    case False
    with Cons.prems have "lo + unat HDR_SIZE + unat (b_size c) \<le> unat (b_addr b) \<and>
        unat (b_addr b) + unat HDR_SIZE + unat (b_size b) \<le> hi"
      using Cons.IH by auto
    then show ?thesis by simp
  qed
qed

lemma heap_ok_extent:
  assumes "heap_ok s (pre @ b # post)"
  shows "unat (heap_start s) \<le> unat (b_addr b) \<and>
         unat (b_addr b) + unat HDR_SIZE + unat (b_size b) \<le> unat (heap_brk s)"
proof -
  from assms have "tiled (unat (heap_start s)) (pre @ b # post) (unat (heap_brk s))"
    by (simp add: heap_ok_def)
  then show ?thesis by (rule tiled_mem) simp
qed

lemma last_addr_append [simp]: "last_addr pv (xs @ ys) = last_addr (last_addr pv xs) ys"
  by (induction xs arbitrary: pv) auto

lemma Header_eqI:
  "hnext h = n \<Longrightarrow> hprev h = p \<Longrightarrow> hsize h = z \<Longrightarrow> hfree h = f \<Longrightarrow>
   h = \<lparr>hnext = n, hprev = p, hsize = z, hfree = f\<rparr>"
  by (cases h) simp

lemma heap_ok_block:
  assumes "heap_ok s (pre @ b # post)"
  shows "hdrs s (b_addr b) =
           Some \<lparr>hnext = next_addr post, hprev = last_addr 0 pre, hsize = b_size b, hfree = b_free b\<rparr>
         \<and> b_addr b \<noteq> 0 \<and> in_heap s (b_addr b)"
proof -
  from assms obtain r where "seg (hdrs s) (last_addr 0 pre) r (b # post) 0"
    by (auto simp: heap_ok_def seg_append)
  then obtain h where r: "r = b_addr b" "b_addr b \<noteq> 0" and h: "hdrs s (b_addr b) = Some h"
    and f: "hprev h = last_addr 0 pre" "hsize h = b_size b" "hfree h = b_free b"
    and sg: "seg (hdrs s) (b_addr b) (hnext h) post 0"
    by (auto split: option.splits)
  from sg have "hnext h = next_addr post"
    by (cases post) (auto simp: next_addr_def dest: seg_head)
  with f have hh: "h = \<lparr>hnext = next_addr post, hprev = last_addr 0 pre, hsize = b_size b, hfree = b_free b\<rparr>"
    by (simp add: Header_eqI)
  from assms have "tiled (unat (heap_start s)) (pre @ b # post) (unat (heap_brk s))"
    by (simp add: heap_ok_def)
  then have "unat (heap_start s) \<le> unat (b_addr b) \<and>
      unat (b_addr b) + unat HDR_SIZE + unat (b_size b) \<le> unat (heap_brk s)"
    by (rule tiled_mem) simp
  then have "in_heap s (b_addr b)"
    by (simp add: in_heap_def)
  with h hh r show ?thesis by simp
qed

lemma tiled_addr_notin_after:
  "tiled lo bs hi \<Longrightarrow> unat x < lo \<Longrightarrow> x \<notin> b_addr ` set bs"
  by (auto dest: tiled_mem)

lemma tiled_addr_notin_before:
  "tiled lo bs hi \<Longrightarrow> hi \<le> unat x \<Longrightarrow> x \<notin> b_addr ` set bs"
  by (fastforce dest: tiled_mem)

lemma heap_ok_split:
  assumes "heap_ok s (pre @ b # post)"
  shows "seg (hdrs s) 0 (first s) pre (b_addr b)"
    and "seg (hdrs s) (last_addr 0 pre) (b_addr b) (b # post) 0"
  using assms by (auto simp: heap_ok_def seg_append dest: seg_head)

lemma heap_ok_tiled:
  assumes "heap_ok s (pre @ b # post)"
  obtains mid where "tiled (unat (heap_start s)) pre mid" and "unat (b_addr b) = mid"
    and "tiled (mid + unat HDR_SIZE + unat (b_size b)) post (unat (heap_brk s))"
  using assms by (auto simp: heap_ok_def tiled_append)

lemma merge_blocks_absorb:
  assumes ok: "heap_ok s (pre @ A # B # post)"
  shows "\<exists>s'. merge_blocks (b_addr A) (b_addr B) s = Inr (b_addr A, s') \<and>
              heap_ok s' (pre @ absorb A B # post) \<and> s' = s\<lparr>hdrs := hdrs s'\<rparr>"
proof -
  from heap_ok_block [of s pre A "B # post"] ok
  have hA: "hdrs s (b_addr A) =
      Some \<lparr>hnext = b_addr B, hprev = last_addr 0 pre, hsize = b_size A, hfree = b_free A\<rparr>"
    and nzA: "b_addr A \<noteq> 0" and inA: "in_heap s (b_addr A)" by simp_all
  from heap_ok_block [of s "pre @ [A]" B post] ok
  have hB: "hdrs s (b_addr B) =
      Some \<lparr>hnext = next_addr post, hprev = b_addr A, hsize = b_size B, hfree = b_free B\<rparr>"
    and nzB: "b_addr B \<noteq> 0" and inB: "in_heap s (b_addr B)" by simp_all
  from ok obtain mid where tp: "tiled (unat (heap_start s)) pre mid" and ua: "unat (b_addr A) = mid"
    and ta: "tiled (mid + 32 + unat (b_size A)) (B # post) (unat (heap_brk s))"
    by (rule heap_ok_tiled) simp
  from ta have ub: "unat (b_addr B) = mid + 32 + unat (b_size A)"
    and tq: "tiled (mid + 32 + unat (b_size A) + 32 + unat (b_size B)) post (unat (heap_brk s))"
    by simp_all
  have ltAB: "b_addr A < b_addr B" and neAB: "b_addr B \<noteq> b_addr A"
    using ua ub by (simp_all add: word_less_nat_alt unat_arith_simps)
  have "mid + 32 + unat (b_size A) + 32 + unat (b_size B) < 2 ^ 64"
    using tiled_le [OF tq] unat_lt_2p64 [of "heap_brk s"] by linarith
  then have usz: "unat (HDR_SIZE + b_size A + b_size B) = 32 + unat (b_size A) + unat (b_size B)"
    by (simp add: unat_add3_nowrap)
  have notpre: "b_addr A \<notin> b_addr ` set pre"
    using tiled_addr_notin_before [OF tp] ua by simp
  have segpre: "seg (hdrs s) 0 (first s) pre (b_addr A)"
    using heap_ok_split(1) [of s pre A "B # post"] ok by simp
  have minmax: "min (b_addr A) (b_addr B) = b_addr A" "max (b_addr A) (b_addr B) = b_addr B"
    using ltAB by simp_all
  have big: "MIN_BLOCK_SIZE \<le> HDR_SIZE + b_size A + b_size B"
    using usz by (simp add: word_le_nat_alt)
  let ?hA' = "\<lparr>hnext = next_addr post, hprev = last_addr 0 pre,
               hsize = HDR_SIZE + b_size A + b_size B, hfree = b_free A\<rparr>"
  show ?thesis
  proof (cases post)
    case Nil
    let ?s' = "s\<lparr>hdrs := (hdrs s)(b_addr A \<mapsto> ?hA')\<rparr>"
    have "merge_blocks (b_addr A) (b_addr B) s = Inr (b_addr A, ?s')"
      using hA hB nzA nzB inA inB neAB Nil
      by (simp add: merge_blocks_def Let_def minmax mem_simps)
    moreover have "heap_ok ?s' (pre @ [absorb A B])"
      using ok segpre tp ua usz big Nil nzA
      by (auto simp: heap_ok_def seg_append seg_upd_other notpre tiled_append absorb_def)
    ultimately show ?thesis using Nil by auto
  next
    case (Cons C post')
    from heap_ok_block [of s "pre @ [A, B]" C post'] ok Cons
    have hC: "hdrs s (b_addr C) =
        Some \<lparr>hnext = next_addr post', hprev = b_addr B, hsize = b_size C, hfree = b_free C\<rparr>"
      and nzC: "b_addr C \<noteq> 0" and inC: "in_heap s (b_addr C)" by simp_all
    from tq Cons have uc: "unat (b_addr C) = mid + 32 + unat (b_size A) + 32 + unat (b_size B)"
      and tq': "tiled (unat (b_addr C) + 32 + unat (b_size C)) post' (unat (heap_brk s))"
      by simp_all
    have neCA: "b_addr C \<noteq> b_addr A" and neCB: "b_addr C \<noteq> b_addr B"
      using ua ub uc by (auto simp: unat_arith_simps)
    have notpreC: "b_addr C \<notin> b_addr ` set pre"
      using tiled_addr_notin_before [OF tp] uc by simp
    have notpost: "b_addr A \<notin> b_addr ` set post'" "b_addr C \<notin> b_addr ` set post'"
      using tiled_addr_notin_after [OF tq'] ua uc by simp_all
    have segpost: "seg (hdrs s) (b_addr C) (next_addr post') post' 0"
      using heap_ok_split(2) [of s "pre @ [A, B]" C post'] ok Cons hC by simp
    let ?hC' = "\<lparr>hnext = next_addr post', hprev = b_addr A, hsize = b_size C, hfree = b_free C\<rparr>"
    let ?s' = "s\<lparr>hdrs := (hdrs s)(b_addr A \<mapsto> ?hA', b_addr C \<mapsto> ?hC')\<rparr>"
    have "merge_blocks (b_addr A) (b_addr B) s = Inr (b_addr A, ?s')"
      using hA hB hC nzA nzB nzC inA inB inC neAB neCA neCB Cons
      by (simp add: merge_blocks_def Let_def minmax mem_simps)
    moreover have "heap_ok ?s' (pre @ absorb A B # post)"
      using ok segpre segpost tp ua uc usz big Cons nzA nzC neCA notpre notpreC notpost tq'
      by (auto simp: heap_ok_def seg_append seg_upd_other tiled_append absorb_def)
    ultimately show ?thesis by auto
  qed
qed

text \<open>With both headers readable, the order of the arguments does not matter.\<close>

lemma merge_blocks_comm:
  assumes "load s x = Inr hx" and "load s y = Inr hy"
  shows "merge_blocks x y s = merge_blocks y x s"
  using assms by (simp add: merge_blocks_def Let_def min.commute max.commute add_ac)

lemma seg_clobber_other:
  "\<forall>x \<in> b_addr ` set bs. \<not> overlaps r n x \<Longrightarrow> seg (clobber r n m) pv p bs q = seg m pv p bs q"
  by (induction bs arbitrary: pv p) (auto simp: clobber_def split: option.splits)

lemma seg_unique:
  "seg m pv p xs 0 \<Longrightarrow> seg m pv p ys 0 \<Longrightarrow> xs = ys"
proof (induction xs arbitrary: pv p ys)
  case Nil
  then show ?case by (cases ys) auto
next
  case (Cons x xs)
  then show ?case
    by (cases ys) (auto split: option.splits intro: blk.expand)
qed

lemma split_block_run:
  assumes ok: "heap_ok s (pre @ A # C # post)"
    and fits: "unat n + 40 \<le> unat (b_size A)"
  defines "r \<equiv> b_addr A + HDR_SIZE + n"
  shows "split_block (b_addr A) n s =
           Inr (r, s\<lparr>hdrs := (clobber r (unat HDR_SIZE) (hdrs s))
                   (r \<mapsto> \<lparr>hnext = b_addr C, hprev = b_addr A, hsize = b_size A - n - PTR_SIZE, hfree = True\<rparr>,
                    b_addr C \<mapsto> \<lparr>hnext = next_addr post, hprev = r, hsize = b_size C, hfree = b_free C\<rparr>,
                    b_addr A \<mapsto> \<lparr>hnext = r, hprev = last_addr 0 pre, hsize = b_size A, hfree = b_free A\<rparr>)\<rparr>)"
    and "seg ((clobber r (unat HDR_SIZE) (hdrs s))
                   (r \<mapsto> \<lparr>hnext = b_addr C, hprev = b_addr A, hsize = b_size A - n - PTR_SIZE, hfree = True\<rparr>,
                    b_addr C \<mapsto> \<lparr>hnext = next_addr post, hprev = r, hsize = b_size C, hfree = b_free C\<rparr>,
                    b_addr A \<mapsto> \<lparr>hnext = r, hprev = last_addr 0 pre, hsize = b_size A, hfree = b_free A\<rparr>))
             0 (first s) (pre @ A # Blk r (b_size A - n - PTR_SIZE) True # C # post) 0"
proof -
  from heap_ok_block [of s pre A "C # post"] ok
  have hA: "hdrs s (b_addr A) =
      Some \<lparr>hnext = b_addr C, hprev = last_addr 0 pre, hsize = b_size A, hfree = b_free A\<rparr>"
    and nzA: "b_addr A \<noteq> 0" and inA: "in_heap s (b_addr A)" by simp_all
  from heap_ok_block [of s "pre @ [A]" C post] ok
  have hC: "hdrs s (b_addr C) =
      Some \<lparr>hnext = next_addr post, hprev = b_addr A, hsize = b_size C, hfree = b_free C\<rparr>"
    and nzC: "b_addr C \<noteq> 0" and inC: "in_heap s (b_addr C)" by simp_all
  from ok obtain mid where tp: "tiled (unat (heap_start s)) pre mid" and ua: "unat (b_addr A) = mid"
    and ta: "tiled (mid + 32 + unat (b_size A)) (C # post) (unat (heap_brk s))"
    by (rule heap_ok_tiled) simp
  from ta have uc: "unat (b_addr C) = mid + 32 + unat (b_size A)"
    and tq: "tiled (mid + 32 + unat (b_size A) + 32 + unat (b_size C)) post (unat (heap_brk s))"
    by simp_all
  have bnd: "mid + 32 + unat (b_size A) + 32 + unat (b_size C) < 2 ^ 64"
    using tiled_le [OF tq] unat_lt_2p64 [of "heap_brk s"] by linarith
  have ur: "unat r = mid + 32 + unat n"
    unfolding r_def using ua fits bnd by (simp add: unat_add3_nowrap)
  have usz: "unat (b_size A - n - PTR_SIZE) = unat (b_size A) - unat n - 8"
    using fits by (simp add: unat_sub word_le_nat_alt)
  have nz: "r \<noteq> 0" using ur by (auto simp: unat_arith_simps)
  have start: "unat (heap_start s) \<le> mid" using tiled_le [OF tp] .
  have inR: "in_heap s r" using ur fits start tiled_le [OF tq]
    by (simp add: in_heap_def)
  have neq: "r \<noteq> b_addr A" "r \<noteq> b_addr C" "b_addr C \<noteq> b_addr A"
    using ur ua uc fits by (auto simp: unat_arith_simps)
  have novl: "\<not> overlaps r (unat HDR_SIZE) (b_addr A)" "\<not> overlaps r (unat HDR_SIZE) (b_addr C)"
    using ur ua uc fits by (simp_all add: overlaps_def)
  have rr: "b_addr A + 32 + n = r" by (simp add: r_def)
  have big: "\<not> b_size A - n - PTR_SIZE < MIN_BLOCK_SIZE"
    using usz fits by (simp add: word_less_nat_alt)
  show "split_block (b_addr A) n s = Inr (r, s\<lparr>hdrs := (clobber r (unat HDR_SIZE) (hdrs s))
                   (r \<mapsto> \<lparr>hnext = b_addr C, hprev = b_addr A, hsize = b_size A - n - PTR_SIZE, hfree = True\<rparr>,
                    b_addr C \<mapsto> \<lparr>hnext = next_addr post, hprev = r, hsize = b_size C, hfree = b_free C\<rparr>,
                    b_addr A \<mapsto> \<lparr>hnext = r, hprev = last_addr 0 pre, hsize = b_size A, hfree = b_free A\<rparr>)\<rparr>)"
    using hA hC nzA nzC inA inC nz inR neq novl big
    by (simp add: split_block_def Let_def mem_simps clobber_def rr del: PTR_SIZE_def MIN_BLOCK_SIZE_def)
  have segpre: "seg (hdrs s) 0 (first s) pre (b_addr A)"
    using heap_ok_split(1) [of s pre A "C # post"] ok by simp
  have segpost: "seg (hdrs s) (b_addr C) (next_addr post) post 0"
    using heap_ok_split(2) [of s "pre @ [A]" C post] ok hC by simp
  have notpre: "x \<notin> b_addr ` set pre" if "mid \<le> unat x" for x
    using tiled_addr_notin_before [OF tp] that by simp
  have novlpre: "\<forall>x \<in> b_addr ` set pre. \<not> overlaps r (unat HDR_SIZE) x"
    using tp ur by (fastforce simp: overlaps_def dest: tiled_mem)
  have notpost: "x \<notin> b_addr ` set post" if "unat x < mid + 32 + unat (b_size A) + 32 + unat (b_size C)" for x
    using tiled_addr_notin_after [OF tq] that by simp
  have novlpost: "\<forall>x \<in> b_addr ` set post. \<not> overlaps r (unat HDR_SIZE) x"
    using tq ur fits by (fastforce simp: overlaps_def dest: tiled_mem)
  show "seg ((clobber r (unat HDR_SIZE) (hdrs s))
                   (r \<mapsto> \<lparr>hnext = b_addr C, hprev = b_addr A, hsize = b_size A - n - PTR_SIZE, hfree = True\<rparr>,
                    b_addr C \<mapsto> \<lparr>hnext = next_addr post, hprev = r, hsize = b_size C, hfree = b_free C\<rparr>,
                    b_addr A \<mapsto> \<lparr>hnext = r, hprev = last_addr 0 pre, hsize = b_size A, hfree = b_free A\<rparr>))
             0 (first s) (pre @ A # Blk r (b_size A - n - PTR_SIZE) True # C # post) 0"
    using segpre segpost neq nzA nzC nz ua ur uc fits
      notpre [of r] notpre [of "b_addr A"] notpre [of "b_addr C"]
      notpost [of r] notpost [of "b_addr A"] notpost [of "b_addr C"] novlpre novlpost
    by (simp add: seg_append seg_upd_other seg_clobber_other del: PTR_SIZE_def)
qed

section \<open>Properties of merge_blocks and split_block\<close>

text \<open>
  C1. \<^verbatim>\<open>merge_blocks\<close> on two list-adjacent blocks of a well-formed directory returns
  the lower header, which now spans both blocks (its size is the two sizes plus one
  header, its free flag is its own), and the directory stays well-formed; the order in
  which the two headers are passed does not matter.
\<close>

theorem merge_blocks_refines:
  assumes "heap_ok s (pre @ A # B # post)"
  shows "\<exists>s'. merge_blocks (b_addr A) (b_addr B) s = Inr (b_addr A, s') \<and>
              merge_blocks (b_addr B) (b_addr A) s = Inr (b_addr A, s') \<and>
              heap_ok s' (pre @ absorb A B # post)"
proof -
  from merge_blocks_absorb [OF assms] obtain s' where
    run: "merge_blocks (b_addr A) (b_addr B) s = Inr (b_addr A, s')" and
    ok: "heap_ok s' (pre @ absorb A B # post)" by blast
  from heap_ok_block [of s pre A "B # post"] assms
  have "load s (b_addr A) = Inr \<lparr>hnext = b_addr B, hprev = last_addr 0 pre, hsize = b_size A, hfree = b_free A\<rparr>"
    by (simp add: mem_simps)
  moreover from heap_ok_block [of s "pre @ [A]" B post] assms
  have "load s (b_addr B) = Inr \<lparr>hnext = next_addr post, hprev = b_addr A, hsize = b_size B, hfree = b_free B\<rparr>"
    by (simp add: mem_simps)
  ultimately have "merge_blocks (b_addr B) (b_addr A) s = merge_blocks (b_addr A) (b_addr B) s"
    by (rule merge_blocks_comm [symmetric])
  with run ok show ?thesis by auto
qed

theorem merge_blocks_refines_witness:
  "heap_ok demo_two [Blk 4096 40 True, Blk 4168 32 True] \<and>
   (\<exists>s'. merge_blocks 4096 4168 demo_two = Inr (4096, s') \<and>
         merge_blocks 4168 4096 demo_two = Inr (4096, s') \<and>
         heap_ok s' [Blk 4096 104 True])"
proof -
  have ok: "heap_ok demo_two ([] @ Blk 4096 40 True # Blk 4168 32 True # [])"
    by (simp add: demo_two_def heap_ok_def)
  from merge_blocks_refines [OF ok] ok show ?thesis
    by (simp add: absorb_def)
qed

text \<open>
  C2. \<^verbatim>\<open>split_block\<close> on a block of a well-formed directory that has a successor and
  room for the cut returns the new header \<open>new_size\<close> bytes into the block's data and
  links it between the block and its successor, but it never writes the block's own
  size and sizes the remainder with the size of a pointer instead of a header: the
  split block still spans the new header, the remainder's data runs 24 bytes into the
  successor's header, and no well-formed directory describes the result.
\<close>

theorem split_block_overlaps:
  assumes ok: "heap_ok s (pre @ A # C # post)"
    and fits: "unat n + 40 \<le> unat (b_size A)"
  shows "\<exists>s'. split_block (b_addr A) n s = Inr (b_addr A + HDR_SIZE + n, s') \<and>
              seg (hdrs s') 0 (first s')
                (pre @ A # Blk (b_addr A + HDR_SIZE + n) (b_size A - n - PTR_SIZE) True # C # post) 0 \<and>
              unat (b_addr A + HDR_SIZE + n) + unat HDR_SIZE + unat (b_size A - n - PTR_SIZE) =
                unat (b_addr C) + 24 \<and>
              (\<forall>bs. \<not> heap_ok s' bs)"
proof -
  let ?r = "b_addr A + HDR_SIZE + n"
  let ?L = "pre @ A # Blk ?r (b_size A - n - PTR_SIZE) True # C # post"
  from split_block_run [OF ok fits] obtain s' where
    run: "split_block (b_addr A) n s = Inr (?r, s')" and
    sg: "seg (hdrs s') 0 (first s') ?L 0" and
    fst: "first s' = first s" and brk: "heap_brk s' = heap_brk s" and st: "heap_start s' = heap_start s"
    by fastforce
  from heap_ok_extent [of s "pre @ [A]" C post] ok
  have ext: "unat (b_addr C) + 32 + unat (b_size C) \<le> unat (heap_brk s)" by simp
  from ok obtain mid where tp: "tiled (unat (heap_start s)) pre mid" and ua: "unat (b_addr A) = mid"
    and ta: "tiled (mid + 32 + unat (b_size A)) (C # post) (unat (heap_brk s))"
    by (rule heap_ok_tiled) simp
  then have uc: "unat (b_addr C) = unat (b_addr A) + 32 + unat (b_size A)" by simp
  have ur: "unat ?r = unat (b_addr A) + 32 + unat n"
    using uc fits ext unat_lt_2p64 [of "heap_brk s"] by (simp add: unat_add3_nowrap)
  have usz: "unat (b_size A - n - PTR_SIZE) = unat (b_size A) - unat n - 8"
    using fits by (simp add: unat_sub word_le_nat_alt)
  have ovl: "unat ?r + unat HDR_SIZE + unat (b_size A - n - PTR_SIZE) = unat (b_addr C) + 24"
    using ur usz uc fits by simp
  have "\<not> heap_ok s' bs" for bs
  proof
    assume "heap_ok s' bs"
    with sg have "bs = ?L" and "tiled (unat (heap_start s')) bs (unat (heap_brk s'))"
      by (auto simp: heap_ok_def intro: seg_unique)
    then have "tiled (unat (b_addr A) + 32 + unat (b_size A)) (Blk ?r (b_size A - n - PTR_SIZE) True # C # post) (unat (heap_brk s'))"
      by (auto simp: tiled_append)
    with ur fits show False by simp
  qed
  with run sg ovl show ?thesis by blast
qed


theorem split_block_overlaps_witness:
  "heap_ok demo_split [Blk 4096 100 True, Blk 4228 32 False] \<and>
   (\<exists>s'. split_block 4096 40 demo_split = Inr (4168, s') \<and>
         seg (hdrs s') 0 (first s') [Blk 4096 100 True, Blk 4168 52 True, Blk 4228 32 False] 0 \<and>
         (\<forall>bs. \<not> heap_ok s' bs))"
proof -
  have ok: "heap_ok demo_split ([] @ Blk 4096 100 True # Blk 4228 32 False # [])"
    by (simp add: demo_split_def heap_ok_def)
  have fits: "unat (40 :: 64 word) + 40 \<le> unat (b_size (Blk 4096 100 True))"
    by simp
  from split_block_overlaps [OF ok fits] ok show ?thesis
    by simp
qed

text \<open>
  C3. \<^verbatim>\<open>split_block\<close> on the last block of a well-formed directory, with room for the
  cut, dereferences \<open>NULL\<close>: it writes the new header and then stores into
  \<^verbatim>\<open>(header->next)->prev\<close>, and the last block has no successor.
\<close>

theorem split_block_tail_null:
  assumes ok: "heap_ok s (pre @ [A])"
    and fits: "unat n + 40 \<le> unat (b_size A)"
  shows "split_block (b_addr A) n s = Inl Null_deref"
proof -
  let ?r = "b_addr A + 32 + n"
  from heap_ok_block [of s pre A "[]"] ok
  have hA: "hdrs s (b_addr A) = Some \<lparr>hnext = 0, hprev = last_addr 0 pre, hsize = b_size A, hfree = b_free A\<rparr>"
    and nzA: "b_addr A \<noteq> 0" and inA: "in_heap s (b_addr A)" by simp_all
  from heap_ok_extent [of s pre A "[]"] ok
  have ext: "unat (heap_start s) \<le> unat (b_addr A)" "unat (b_addr A) + 32 + unat (b_size A) \<le> unat (heap_brk s)"
    by simp_all
  have ur: "unat ?r = unat (b_addr A) + 32 + unat n"
    using ext fits unat_lt_2p64 [of "heap_brk s"] by (simp add: unat_add3_nowrap)
  have nz: "?r \<noteq> 0" using ur by (auto simp: unat_arith_simps)
  have inR: "in_heap s ?r" using ur ext fits by (simp add: in_heap_def)
  have ne: "b_addr A \<noteq> ?r" and novl: "\<not> overlaps ?r 32 (b_addr A)"
    using ur by (auto simp: overlaps_def unat_arith_simps)
  have big: "\<not> b_size A - n - PTR_SIZE < MIN_BLOCK_SIZE"
    using fits by (simp add: word_less_nat_alt unat_sub word_le_nat_alt)
  show ?thesis
    using hA nzA inA nz inR ne novl big
    by (simp add: split_block_def Let_def mem_simps clobber_def del: PTR_SIZE_def MIN_BLOCK_SIZE_def)
qed

theorem split_block_tail_null_witness:
  "heap_ok demo_one [Blk 4096 100 True] \<and> split_block 4096 40 demo_one = Inl Null_deref"
proof -
  have ok: "heap_ok demo_one ([] @ [Blk 4096 100 True])"
    by (simp add: demo_one_def heap_ok_def)
  have fits: "unat (40 :: 64 word) + 40 \<le> unat (b_size (Blk 4096 100 True))"
    by simp
  from split_block_tail_null [OF ok fits] ok show ?thesis
    by simp
qed

text \<open>
  C4. Reusing a free block for a request of exactly its size is fatal for its successor:
  the remainder size \<open>size - size - sizeof(header)\<close> wraps around to \<open>2^64 - 8\<close>, which
  passes the \<^verbatim>\<open>MIN_BLOCK_SIZE\<close> check, so \<^verbatim>\<open>split_block\<close> writes a new header exactly
  over the successor's header: a free block of size \<open>2^64 - 8\<close> whose \<^verbatim>\<open>next\<close> and
  \<^verbatim>\<open>prev\<close> both point to itself.
\<close>

theorem split_block_exact_fit_self_loop:
  assumes ok: "heap_ok s (pre @ A # C # post)"
  shows "\<exists>s'. split_block (b_addr A) (b_size A) s = Inr (b_addr C, s') \<and>
              hdrs s' (b_addr C) = Some \<lparr>hnext = b_addr C, hprev = b_addr C, hsize = - 8, hfree = True\<rparr>"
proof -
  from heap_ok_block [of s pre A "C # post"] ok
  have hA: "hdrs s (b_addr A) = Some \<lparr>hnext = b_addr C, hprev = last_addr 0 pre, hsize = b_size A, hfree = b_free A\<rparr>"
    and nzA: "b_addr A \<noteq> 0" and inA: "in_heap s (b_addr A)" by simp_all
  from heap_ok_block [of s "pre @ [A]" C post] ok
  have nzC: "b_addr C \<noteq> 0" and inC: "in_heap s (b_addr C)" by simp_all
  from ok obtain mid where "unat (b_addr A) = mid"
    and "tiled (mid + 32 + unat (b_size A)) (C # post) (unat (heap_brk s))"
    by (rule heap_ok_tiled) simp
  then have uc: "unat (b_addr C) = unat (b_addr A) + 32 + unat (b_size A)" by simp
  have rc: "b_addr A + 32 + b_size A = b_addr C"
    using uc unat_lt_2p64 [of "b_addr C"] by (simp add: unat_arith_simps unat_add3_nowrap)
  have ne: "b_addr A \<noteq> b_addr C" and novl: "\<not> overlaps (b_addr C) 32 (b_addr A)"
    using uc by (auto simp: overlaps_def unat_arith_simps)
  show ?thesis
    using hA nzA inA nzC inC ne novl rc
    by (simp add: split_block_def Let_def mem_simps clobber_def)
qed

theorem split_block_exact_fit_self_loop_witness:
  "heap_ok demo_split [Blk 4096 100 True, Blk 4228 32 False] \<and>
   (\<exists>s'. split_block 4096 100 demo_split = Inr (4228, s') \<and>
         hdrs s' 4228 = Some \<lparr>hnext = 4228, hprev = 4228, hsize = - 8, hfree = True\<rparr>)"
proof -
  have ok: "heap_ok demo_split ([] @ Blk 4096 100 True # Blk 4228 32 False # [])"
    by (simp add: demo_split_def heap_ok_def)
  from split_block_exact_fit_self_loop [OF ok] ok show ?thesis
    by simp
qed

end
