(* ===== verification/Allocator.thy ===== *)
theory Allocator
  imports Block_Directory
begin

text \<open>
  The Allocator: \<^verbatim>\<open>malloc\<close> of \<^verbatim>\<open>src/dynalloc.c\<close> (lines 79--113). Its two loops
  may run forever on a corrupted directory, so each is a \<open>partial_function (option)\<close>:
  \<open>coalesce\<close> is the inner \<^verbatim>\<open>while(1)\<close> that merges the current block with free
  successors, \<open>malloc_scan\<close> the outer first-fit walk, and \<open>malloc_extend\<close> the growth
  of the heap by \<^verbatim>\<open>sbrk\<close> when the walk finds nothing.
\<close>

section \<open>The operations\<close>

text \<open>Lines 89--94: merge while the current block and its successor are both free.\<close>

partial_function (option) coalesce :: "addr \<Rightarrow> mstate \<Rightarrow> (addr \<times> mstate) res option" where
  "coalesce cur s =
     bindO (load s cur) (\<lambda>h.
     if hfree h \<and> hnext h \<noteq> 0 then
       bindO (load s (hnext h)) (\<lambda>hn.
       if hfree hn then bindO (merge_blocks cur (hnext h) s) (\<lambda>(cur, s). coalesce cur s)
       else Some (Inr (cur, s)))
     else Some (Inr (cur, s)))"

text \<open>
  Lines 105--112: no block fits. The new header is written at the old break, its
  \<^verbatim>\<open>prev\<close> is the last block visited; \<^verbatim>\<open>first\<close> is set if the directory was empty.
  The result of \<^verbatim>\<open>sbrk\<close> is not checked.
\<close>

definition malloc_extend :: "size_t \<Rightarrow> addr \<Rightarrow> mstate \<Rightarrow> (addr \<times> mstate) res" where
  "malloc_extend sz last_blk s =
     (let (new_block, s) = sbrk (sz + HDR_SIZE) s in
      bindE (new_hdr new_block \<lparr>hnext = 0, hprev = last_blk, hsize = sz, hfree = False\<rparr> s) (\<lambda>s.
      let s = (if first s = 0 then s\<lparr>first := new_block\<rparr> else s) in
      Inr (new_block + HDR_SIZE, s)))"

text \<open>The fit branch of the walk (lines 95--99), once the block \<open>a\<close> is chosen.\<close>

definition fit_then_split :: "size_t \<Rightarrow> addr \<Rightarrow> mstate \<Rightarrow> (addr \<times> mstate) res" where
  "fit_then_split n a s =
     bindE (split_block a n s) (\<lambda>(_, s). bindE (upd_hdr a (\<lambda>h. h\<lparr>hfree := False\<rparr>) s) (\<lambda>s. Inr (a + HDR_SIZE, s)))"

text \<open>
  Lines 86--102: the first-fit walk. After coalescing, a free block that is large
  enough is split and marked in use, and its data pointer \<^verbatim>\<open>curr + 1\<close> is returned;
  otherwise the walk moves on, remembering the block as \<^verbatim>\<open>last\<close>.
\<close>

partial_function (option) malloc_scan ::
  "size_t \<Rightarrow> addr \<Rightarrow> addr \<Rightarrow> mstate \<Rightarrow> (addr \<times> mstate) res option" where
  "malloc_scan sz cur last_blk s =
     (if cur = 0 then Some (malloc_extend sz last_blk s)
      else bindL (coalesce cur s) (\<lambda>(cur, s).
        bindO (load s cur) (\<lambda>h.
        if hfree h \<and> sz \<le> hsize h then Some (fit_then_split sz cur s)
        else malloc_scan sz (hnext h) cur s)))"

text \<open>Lines 79--84: a request \<open>sz\<close> (the source's \<^verbatim>\<open>size\<close>) below the floor is raised to it; the walk starts at \<^verbatim>\<open>first\<close>.\<close>

definition malloc :: "size_t \<Rightarrow> mstate \<Rightarrow> (addr \<times> mstate) res option" where
  "malloc sz s =
     (let sz = (if sz < MIN_BLOCK_SIZE then MIN_BLOCK_SIZE else sz) in
      malloc_scan sz (first s) 0 s)"

section \<open>The abstract view\<close>

text \<open>
  What the coalescing loop does to the block list: the block absorbs its successors
  while it and the next one are free.
\<close>

fun merge_run :: "blk \<Rightarrow> blk list \<Rightarrow> blk \<times> blk list" where
  "merge_run a [] = (a, [])"
| "merge_run a (b # bs) = (if b_free a \<and> b_free b then merge_run (absorb a b) bs else (a, b # bs))"

text \<open>
  The specification's first-fit search with lazy coalescing (section 4.3) over the
  block list: \<open>first_fit n pre bs\<close> walks \<open>bs\<close> (\<open>pre\<close> is what was walked past),
  merging each visited free block with free successors. It returns the coalesced list
  split at the first free block of at least \<open>n\<close> bytes, or the whole coalesced list.
\<close>

fun first_fit :: "size_t \<Rightarrow> blk list \<Rightarrow> blk list \<Rightarrow> blk list \<times> (blk \<times> blk list) option" where
  "first_fit n pre [] = (pre, None)"
| "first_fit n pre [a] = (if b_free a \<and> n \<le> b_size a then (pre, Some (a, [])) else (pre @ [a], None))"
| "first_fit n pre (a # b # bs) =
     (if b_free a \<and> b_free b then first_fit n pre (absorb a b # bs)
      else if b_free a \<and> n \<le> b_size a then (pre, Some (a, b # bs))
      else first_fit n (pre @ [a]) (b # bs))"

section \<open>A concrete state for the witnesses\<close>

definition demo_empty :: mstate where
  "demo_empty = init_state 4096 65536"

section \<open>Lemmas\<close>

lemma b_addr_absorb [simp]: "b_addr (absorb a b) = b_addr a"
  by (simp add: absorb_def)

lemma b_free_absorb [simp]: "b_free (absorb a b) = b_free a"
  by (simp add: absorb_def)

lemma coalesce_run:
  assumes "heap_ok s (pre @ A # post)"
  shows "\<exists>s'. coalesce (b_addr A) s = Some (Inr (b_addr A, s')) \<and>
              heap_ok s' (pre @ fst (merge_run A post) # snd (merge_run A post)) \<and>
              s' = s\<lparr>hdrs := hdrs s'\<rparr>"
  using assms
proof (induction post arbitrary: A s)
  case Nil
  from heap_ok_block [of s pre A "[]"] Nil.prems
  have "load s (b_addr A) = Inr \<lparr>hnext = 0, hprev = last_addr 0 pre, hsize = b_size A, hfree = b_free A\<rparr>"
    by (simp add: mem_simps)
  with Nil.prems show ?case by (simp add: coalesce.simps [of "b_addr A"])
next
  case (Cons B post)
  from heap_ok_block [of s pre A "B # post"] Cons.prems
  have lA: "load s (b_addr A) = Inr \<lparr>hnext = b_addr B, hprev = last_addr 0 pre, hsize = b_size A, hfree = b_free A\<rparr>"
    and nzB: "b_addr B \<noteq> 0"
    using heap_ok_block [of s "pre @ [A]" B post] by (simp_all add: mem_simps)
  from heap_ok_block [of s "pre @ [A]" B post] Cons.prems
  have lB: "load s (b_addr B) = Inr \<lparr>hnext = next_addr post, hprev = b_addr A, hsize = b_size B, hfree = b_free B\<rparr>"
    by (simp add: mem_simps)
  show ?case
  proof (cases "b_free A \<and> b_free B")
    case True
    from merge_blocks_absorb [of s pre A B post] Cons.prems obtain s1 where
      m: "merge_blocks (b_addr A) (b_addr B) s = Inr (b_addr A, s1)" and
      ok1: "heap_ok s1 (pre @ absorb A B # post)" and fr1: "s1 = s\<lparr>hdrs := hdrs s1\<rparr>" by blast
    from Cons.IH [OF ok1] obtain s' where
      c: "coalesce (b_addr A) s1 = Some (Inr (b_addr A, s'))" and
      ok': "heap_ok s' (pre @ fst (merge_run (absorb A B) post) # snd (merge_run (absorb A B) post))"
      and fr': "s' = s1\<lparr>hdrs := hdrs s'\<rparr>"
      by auto
    have "coalesce (b_addr A) s = coalesce (b_addr A) s1"
      using lA lB nzB True m by (simp add: coalesce.simps [of "b_addr A" s])
    moreover have "s' = s\<lparr>hdrs := hdrs s'\<rparr>"
      using fr' fr1 by (metis mstate.update_convs(2) mstate.surjective)
    ultimately show ?thesis using c ok' True by simp
  next
    case False
    then have "coalesce (b_addr A) s = Some (Inr (b_addr A, s))"
      using lA lB nzB by (auto simp: coalesce.simps [of "b_addr A" s])
    with False Cons.prems show ?thesis by auto
  qed
qed

lemma merge_run_addr [simp]: "b_addr (fst (merge_run a bs)) = b_addr a"
  by (induction bs arbitrary: a) auto

lemma merge_run_length: "length (snd (merge_run a bs)) \<le> length bs"
  by (induction bs arbitrary: a) (auto intro: le_SucI)

lemma first_fit_merge_run:
  "first_fit n pre (a # bs) =
     (case merge_run a bs of (a', rest) \<Rightarrow>
        if b_free a' \<and> n \<le> b_size a' then (pre, Some (a', rest)) else first_fit n (pre @ [a']) rest)"
proof (induction bs arbitrary: a)
  case Nil
  then show ?case by simp
next
  case (Cons b bs)
  then show ?case by simp
qed

lemma malloc_scan_run:
  assumes "heap_ok s (pre @ rest)"
  shows "case first_fit n pre rest of
           (pre', Some (A, post)) \<Rightarrow>
             \<exists>s1. heap_ok s1 (pre' @ A # post) \<and> s1 = s\<lparr>hdrs := hdrs s1\<rparr> \<and>
                 malloc_scan n (next_addr rest) (last_addr 0 pre) s = Some (fit_then_split n (b_addr A) s1)
         | (bs', None) \<Rightarrow>
             \<exists>s1. heap_ok s1 bs' \<and> s1 = s\<lparr>hdrs := hdrs s1\<rparr> \<and>
                 malloc_scan n (next_addr rest) (last_addr 0 pre) s = Some (malloc_extend n (last_addr 0 bs') s1)"
  using assms
proof (induction "length rest" arbitrary: pre rest s rule: less_induct)
  case less
  show ?case
  proof (cases rest)
    case Nil
    with less.prems show ?thesis by (auto simp: malloc_scan.simps)
  next
    case (Cons A post)
    obtain A' rest' where mr: "merge_run A post = (A', rest')" by fastforce
    from mr merge_run_addr [of A post] merge_run_length [of A post] Cons
    have aA: "b_addr A' = b_addr A" and len: "length rest' < length rest"
      by auto
    from coalesce_run [of s pre A post] less.prems Cons mr obtain s1 where
      c: "coalesce (b_addr A) s = Some (Inr (b_addr A, s1))" and ok1: "heap_ok s1 (pre @ A' # rest')"
      and fr1: "s1 = s\<lparr>hdrs := hdrs s1\<rparr>"
      by auto
    from heap_ok_block [OF ok1] aA have
      lA: "load s1 (b_addr A) = Inr \<lparr>hnext = next_addr rest', hprev = last_addr 0 pre, hsize = b_size A', hfree = b_free A'\<rparr>"
      and nz: "b_addr A \<noteq> 0"
      by (simp_all add: mem_simps)
    show ?thesis
    proof (cases "b_free A' \<and> n \<le> b_size A'")
      case True
      have "malloc_scan n (next_addr rest) (last_addr 0 pre) s = Some (fit_then_split n (b_addr A') s1)"
        using c lA nz Cons True aA by (simp add: malloc_scan.simps [of n "b_addr A"])
      with ok1 fr1 Cons mr True show ?thesis
        by (auto simp: first_fit_merge_run)
    next
      case False
      have ok1': "heap_ok s1 ((pre @ [A']) @ rest')" using ok1 by simp
      have step: "malloc_scan n (next_addr rest) (last_addr 0 pre) s =
                  malloc_scan n (next_addr rest') (last_addr 0 (pre @ [A'])) s1"
        using c lA nz Cons False aA by (auto simp: malloc_scan.simps [of n "b_addr A"])
      have ff: "first_fit n pre rest = first_fit n (pre @ [A']) rest'"
        using Cons mr False by (auto simp: first_fit_merge_run)
      have fr: "s2 = s\<lparr>hdrs := hdrs s2\<rparr>" if "s2 = s1\<lparr>hdrs := hdrs s2\<rparr>" for s2
        using that fr1 by (metis mstate.update_convs(2) mstate.surjective)
      from less.hyps [OF len ok1'] step ff fr show ?thesis
        by (auto split: prod.splits option.splits)
    qed
  qed
qed

lemma malloc_floor: "malloc n s = malloc_scan (max n MIN_BLOCK_SIZE) (first s) 0 s"
  by (auto simp: malloc_def max_def)

lemma first_fit_found:
  "first_fit n pre bs = (pre', Some (A, post)) \<Longrightarrow> b_free A \<and> n \<le> b_size A"
  by (induction n pre bs rule: first_fit.induct) (auto split: if_splits)

lemma first_fit_nofit_prefix:
  "first_fit n pre bs = (pre', r) \<Longrightarrow> list_all (\<lambda>b. \<not> (b_free b \<and> n \<le> b_size b)) pre \<Longrightarrow>
   list_all (\<lambda>b. \<not> (b_free b \<and> n \<le> b_size b)) pre'"
  by (induction n pre bs rule: first_fit.induct) (auto split: if_splits)

lemma merge_run_maximal:
  "merge_run a bs = (a', rest) \<Longrightarrow>
   (case rest of [] \<Rightarrow> True | b # _ \<Rightarrow> \<not> (b_free a' \<and> b_free b))"
  by (induction bs arbitrary: a) (auto split: if_splits)

lemma heap_ok_brk_pos:
  "heap_ok s bs \<Longrightarrow> unat (heap_start s) \<le> unat (heap_brk s) \<and> 0 < unat (heap_start s)"
  by (auto simp: heap_ok_def unat_gt_0 dest: tiled_le)

lemma heap_ok_below_brk:
  "heap_ok s bs \<Longrightarrow> b \<in> set bs \<Longrightarrow> unat (b_addr b) + 32 \<le> unat (heap_brk s)"
  unfolding heap_ok_def by (fastforce dest: tiled_mem)

text \<open>
  The growth path when the break can move by the whole block: the new header is written
  at the old break.
\<close>

lemma malloc_extend_ok:
  assumes lo: "unat (heap_start s) \<le> unat (heap_brk s)" and pos: "0 < unat (heap_start s)"
    and room: "unat (heap_brk s) + unat n + 32 \<le> unat (heap_max s)"
    and small: "unat n + 32 < 2 ^ 63"
  shows "malloc_extend n l s =
           Inr (heap_brk s + 32,
                s\<lparr>first := (if first s = 0 then heap_brk s else first s),
                  hdrs := (clobber (heap_brk s) 32
                     (\<lambda>q. if unat (heap_brk s + (n + 32)) < unat q + 32 then None else hdrs s q))
                     (heap_brk s \<mapsto> \<lparr>hnext = 0, hprev = l, hsize = n, hfree = False\<rparr>),
                  heap_brk := heap_brk s + (n + 32)\<rparr>)"
proof -
  have bmax: "unat (heap_brk s) + unat n + 32 < 2 ^ 64"
    using room unat_lt_2p64 [of "heap_max s"] by linarith
  have un: "unat (n + 32) = unat n + 32" using bmax by (simp add: unat_add_nowrap)
  have si: "sint (n + 32) = int (unat n) + 32" using un small by (simp add: sint_small)
  have ub: "unat (heap_brk s + (n + 32)) = unat (heap_brk s) + unat n + 32"
    using un bmax by (simp add: unat_add_nowrap)
  have "int (unat (heap_start s)) \<le> int (unat (heap_brk s))"
    using lo by (simp only: of_nat_le_iff)
  then have c1: "uint (heap_start s) \<le> uint (heap_brk s) + sint (n + HDR_SIZE)"
    using si uint_ge_0 [of n] by (simp only: HDR_SIZE_def uint_nat)
  have "int (unat (heap_brk s) + unat n + 32) \<le> int (unat (heap_max s))"
    using room by (simp only: of_nat_le_iff)
  then have c2: "uint (heap_brk s) + sint (n + HDR_SIZE) \<le> uint (heap_max s)"
    using si by simp
  have sb: "sbrk (n + HDR_SIZE) s = (heap_brk s, set_break (heap_brk s + (n + 32)) s)"
    using sbrk_ok [OF c1 c2] by simp
  have nz: "heap_brk s \<noteq> 0" using lo pos by (auto simp: unat_arith_simps)
  have inb: "in_heap (set_break (heap_brk s + (n + 32)) s) (heap_brk s)"
    using lo ub by (simp add: in_heap_def set_break_def)
  show ?thesis using sb nz inb by (simp add: malloc_extend_def new_hdr_def set_break_def)
qed

lemma malloc_extend_run:
  assumes ok: "heap_ok s bs"
    and room: "unat (heap_brk s) + unat n + 32 \<le> unat (heap_max s)"
    and small: "unat n + 32 < 2 ^ 63"
  defines "NB \<equiv> \<lparr>hnext = 0, hprev = last_addr 0 bs, hsize = n, hfree = False\<rparr>"
  defines "m' \<equiv> (clobber (heap_brk s) 32
                   (\<lambda>q. if unat (heap_brk s + (n + 32)) < unat q + 32 then None else hdrs s q))
                  (heap_brk s \<mapsto> NB)"
  shows "malloc_extend n (last_addr 0 bs) s =
           Inr (heap_brk s + 32,
                s\<lparr>first := (if first s = 0 then heap_brk s else first s),
                  hdrs := m', heap_brk := heap_brk s + (n + 32)\<rparr>)"
    and "\<forall>x \<in> b_addr ` set bs. m' x = hdrs s x"
proof -
  have lo: "unat (heap_start s) \<le> unat (heap_brk s)" and pos: "0 < unat (heap_start s)"
    using heap_ok_brk_pos [OF ok] by simp_all
  have "unat (heap_brk s) + unat n + 32 < 2 ^ 64"
    using room unat_lt_2p64 [of "heap_max s"] by linarith
  then have ub: "unat (heap_brk s + (n + 32)) = unat (heap_brk s) + unat n + 32"
    by (rule unat_add_plus32_nowrap)
  show "malloc_extend n (last_addr 0 bs) s =
           Inr (heap_brk s + 32,
                s\<lparr>first := (if first s = 0 then heap_brk s else first s),
                  hdrs := m', heap_brk := heap_brk s + (n + 32)\<rparr>)"
    using malloc_extend_ok [OF lo pos room small] by (simp add: m'_def NB_def)
  show "\<forall>x \<in> b_addr ` set bs. m' x = hdrs s x"
  proof
    fix x assume "x \<in> b_addr ` set bs"
    with heap_ok_below_brk [OF ok] have "unat x + 32 \<le> unat (heap_brk s)" by auto
    with ub show "m' x = hdrs s x"
      by (auto simp: m'_def clobber_def overlaps_def)
  qed
qed

lemma heap_ok_first: "heap_ok s bs \<Longrightarrow> first s = next_addr bs"
  unfolding heap_ok_def by (cases bs) (auto dest: seg_head)

lemma heap_ok_nonempty_first: "heap_ok s bs \<Longrightarrow> bs \<noteq> [] \<Longrightarrow> first s \<noteq> 0"
  unfolding heap_ok_def by (cases bs) auto

lemma malloc_grow_run:
  assumes ok: "heap_ok s bs"
    and nf: "first_fit (max n MIN_BLOCK_SIZE) [] bs = (bs', None)"
    and room: "unat (heap_brk s) + unat (max n MIN_BLOCK_SIZE) + 32 \<le> unat (heap_max s)"
    and small: "unat (max n MIN_BLOCK_SIZE) + 32 < 2 ^ 63"
  obtains s1 where "heap_ok s1 bs'" and "s1 = s\<lparr>hdrs := hdrs s1\<rparr>"
    and "malloc n s = Some (Inr (heap_brk s + HDR_SIZE,
           s1\<lparr>first := (if first s1 = 0 then heap_brk s else first s1),
              hdrs := (clobber (heap_brk s) 32
                   (\<lambda>q. if unat (heap_brk s + (max n MIN_BLOCK_SIZE + 32)) < unat q + 32 then None else hdrs s1 q))
                  (heap_brk s \<mapsto> \<lparr>hnext = 0, hprev = last_addr 0 bs', hsize = max n MIN_BLOCK_SIZE, hfree = False\<rparr>),
              heap_brk := heap_brk s + (max n MIN_BLOCK_SIZE + 32)\<rparr>))"
    and "\<forall>x \<in> b_addr ` set bs'. ((clobber (heap_brk s) 32
                   (\<lambda>q. if unat (heap_brk s + (max n MIN_BLOCK_SIZE + 32)) < unat q + 32 then None else hdrs s1 q))
                  (heap_brk s \<mapsto> \<lparr>hnext = 0, hprev = last_addr 0 bs', hsize = max n MIN_BLOCK_SIZE, hfree = False\<rparr>)) x
               = hdrs s1 x"
proof -
  let ?n = "max n MIN_BLOCK_SIZE"
  from malloc_scan_run [of s "[]" bs ?n] ok nf obtain s1 where
    ok1: "heap_ok s1 bs'" and fr: "s1 = s\<lparr>hdrs := hdrs s1\<rparr>" and
    run: "malloc_scan ?n (next_addr bs) 0 s = Some (malloc_extend ?n (last_addr 0 bs') s1)"
    by auto
  have m: "malloc n s = Some (malloc_extend ?n (last_addr 0 bs') s1)"
    using heap_ok_first [OF ok] run by (simp add: malloc_floor)
  note same = hdrs_frame [OF fr]
  have room1: "unat (heap_brk s1) + unat ?n + 32 \<le> unat (heap_max s1)" using room same by simp
  note ext = malloc_extend_run [OF ok1 room1 small]
  show ?thesis
  proof (rule that [OF ok1 fr])
    show "malloc n s = Some (Inr (heap_brk s + HDR_SIZE,
           s1\<lparr>first := (if first s1 = 0 then heap_brk s else first s1),
              hdrs := (clobber (heap_brk s) 32
                   (\<lambda>q. if unat (heap_brk s + (?n + 32)) < unat q + 32 then None else hdrs s1 q))
                  (heap_brk s \<mapsto> \<lparr>hnext = 0, hprev = last_addr 0 bs', hsize = ?n, hfree = False\<rparr>),
              heap_brk := heap_brk s + (?n + 32)\<rparr>))"
      using m ext(1) same by simp
    show "\<forall>x \<in> b_addr ` set bs'. ((clobber (heap_brk s) 32
                   (\<lambda>q. if unat (heap_brk s + (?n + 32)) < unat q + 32 then None else hdrs s1 q))
                  (heap_brk s \<mapsto> \<lparr>hnext = 0, hprev = last_addr 0 bs', hsize = ?n, hfree = False\<rparr>)) x
               = hdrs s1 x"
      using ext(2) same by simp
  qed
qed

lemma first_fit_keeps_used:
  "first_fit n pre bs = (bs', None) \<Longrightarrow> \<not> b_free b \<Longrightarrow> b \<in> set pre \<or> b \<in> set bs \<Longrightarrow> b \<in> set bs'"
  by (induction n pre bs rule: first_fit.induct) (auto split: if_splits simp: absorb_def)

lemma malloc_extend_sbrk_fail:
  assumes "\<not> (uint (heap_start s) \<le> uint (heap_brk s) + sint (n + HDR_SIZE) \<and>
              uint (heap_brk s) + sint (n + HDR_SIZE) \<le> uint (heap_max s))"
  shows "malloc_extend n l s = Inl (Unmapped (- 1))"
proof -
  have "\<not> in_heap s (- 1)"
    using unat_lt_2p64 [of "heap_brk s"] by (simp add: in_heap_def unat_minus_one_64)
  moreover have "sbrk (n + 32) s = (- 1, s)" using sbrk_fail [OF assms] by simp
  ultimately show ?thesis by (simp add: malloc_extend_def new_hdr_def)
qed

lemma malloc_nofit_run:
  assumes ok: "heap_ok s bs" and nf: "first_fit (max n MIN_BLOCK_SIZE) [] bs = (bs', None)"
  obtains s1 where "heap_ok s1 bs'" and "s1 = s\<lparr>hdrs := hdrs s1\<rparr>"
    and "malloc n s = Some (malloc_extend (max n MIN_BLOCK_SIZE) (last_addr 0 bs') s1)"
proof -
  from malloc_scan_run [of s "[]" bs "max n MIN_BLOCK_SIZE"] ok nf obtain s1 where
    ok1: "heap_ok s1 bs'" and fr: "s1 = s\<lparr>hdrs := hdrs s1\<rparr>" and
    run: "malloc_scan (max n MIN_BLOCK_SIZE) (next_addr bs) 0 s =
            Some (malloc_extend (max n MIN_BLOCK_SIZE) (last_addr 0 bs') s1)"
    by auto
  show ?thesis using that [OF ok1 fr] heap_ok_first [OF ok] run by (simp add: malloc_floor)
qed

section \<open>Properties of malloc\<close>

text \<open>
  C5. The coalescing loop of \<^verbatim>\<open>malloc\<close>, started at a block of a well-formed directory,
  returns; it merges the block with the run of free blocks that follows it when it is
  free (the specification's lazy coalescing at the visited position), keeps the
  directory well-formed and the break where it was, and leaves no free block right
  after a free result.
\<close>

theorem coalesce_maximal:
  assumes "heap_ok s (pre @ A # post)"
  shows "\<exists>s'. coalesce (b_addr A) s = Some (Inr (b_addr A, s')) \<and>
              heap_ok s' (pre @ fst (merge_run A post) # snd (merge_run A post)) \<and>
              heap_brk s' = heap_brk s \<and>
              (case snd (merge_run A post) of
                 [] \<Rightarrow> True
               | B # _ \<Rightarrow> \<not> (b_free (fst (merge_run A post)) \<and> b_free B))"
proof -
  from coalesce_run [OF assms] obtain s' where
    c: "coalesce (b_addr A) s = Some (Inr (b_addr A, s'))" and
    ok: "heap_ok s' (pre @ fst (merge_run A post) # snd (merge_run A post))" and
    fr: "s' = s\<lparr>hdrs := hdrs s'\<rparr>" by blast
  from hdrs_frame [OF fr] have "heap_brk s' = heap_brk s" by simp
  moreover have "case snd (merge_run A post) of [] \<Rightarrow> True
                   | B # _ \<Rightarrow> \<not> (b_free (fst (merge_run A post)) \<and> b_free B)"
    using merge_run_maximal [of A post "fst (merge_run A post)" "snd (merge_run A post)"] by simp
  ultimately show ?thesis using c ok by blast
qed


theorem coalesce_maximal_witness:
  "heap_ok demo_two [Blk 4096 40 True, Blk 4168 32 True] \<and>
   (\<exists>s'. coalesce 4096 demo_two = Some (Inr (4096, s')) \<and>
         heap_ok s' [Blk 4096 104 True] \<and> heap_brk s' = 4232)"
proof -
  have ok: "heap_ok demo_two ([] @ Blk 4096 40 True # [Blk 4168 32 True])"
    by (simp add: demo_two_def heap_ok_def)
  from coalesce_maximal [OF ok] ok show ?thesis
    by (simp add: absorb_def demo_two_def)
qed

text \<open>
  C6. First fit: on a well-formed directory, when the specification's first-fit search
  (with lazy coalescing) stops at block \<open>A\<close>, \<^verbatim>\<open>malloc\<close> reaches the well-formed
  coalesced directory \<open>pre @ A # post\<close> and then splits \<open>A\<close> and marks it in use;
  \<open>A\<close> is free and holds the request raised to the floor, and no block before it does.
\<close>

theorem malloc_first_fit:
  assumes ok: "heap_ok s bs"
    and ff: "first_fit (max n MIN_BLOCK_SIZE) [] bs = (pre, Some (A, post))"
  shows "\<exists>s1. malloc n s = Some (fit_then_split (max n MIN_BLOCK_SIZE) (b_addr A) s1) \<and>
               heap_ok s1 (pre @ A # post) \<and> heap_brk s1 = heap_brk s \<and>
               b_free A \<and> max n MIN_BLOCK_SIZE \<le> b_size A \<and>
               list_all (\<lambda>b. \<not> (b_free b \<and> max n MIN_BLOCK_SIZE \<le> b_size b)) pre"
proof -
  from malloc_scan_run [of s "[]" bs "max n MIN_BLOCK_SIZE"] ok ff obtain s1 where
    ok1: "heap_ok s1 (pre @ A # post)" and fr: "s1 = s\<lparr>hdrs := hdrs s1\<rparr>" and
    run: "malloc_scan (max n MIN_BLOCK_SIZE) (next_addr bs) 0 s =
            Some (fit_then_split (max n MIN_BLOCK_SIZE) (b_addr A) s1)"
    by auto
  have "malloc n s = malloc_scan (max n MIN_BLOCK_SIZE) (next_addr bs) 0 s"
    using heap_ok_first [OF ok] by (simp add: malloc_floor)
  moreover have "b_free A \<and> max n MIN_BLOCK_SIZE \<le> b_size A"
    using first_fit_found [OF ff] .
  moreover have "list_all (\<lambda>b. \<not> (b_free b \<and> max n MIN_BLOCK_SIZE \<le> b_size b)) pre"
    using first_fit_nofit_prefix [OF ff] by simp
  ultimately show ?thesis using run ok1 hdrs_frame [OF fr] by auto
qed


theorem malloc_first_fit_witness:
  "heap_ok demo_split [Blk 4096 100 True, Blk 4228 32 False] \<and>
   first_fit (max 40 MIN_BLOCK_SIZE) [] [Blk 4096 100 True, Blk 4228 32 False] =
     ([], Some (Blk 4096 100 True, [Blk 4228 32 False])) \<and>
   (\<exists>s1. malloc 40 demo_split = Some (fit_then_split 40 4096 s1) \<and>
         heap_ok s1 [Blk 4096 100 True, Blk 4228 32 False])"
proof -
  have ok: "heap_ok demo_split [Blk 4096 100 True, Blk 4228 32 False]"
    by (simp add: demo_split_def heap_ok_def)
  have ff: "first_fit (max 40 MIN_BLOCK_SIZE) [] [Blk 4096 100 True, Blk 4228 32 False] =
     ([], Some (Blk 4096 100 True, [Blk 4228 32 False]))"
    by (simp add: max_def)
  from malloc_first_fit [OF ok ff] ok ff show ?thesis
    by (auto simp: max_def)
qed

text \<open>
  C7. \<^verbatim>\<open>malloc\<close> returns on every well-formed directory: neither the coalescing loop
  nor the first-fit walk runs forever.
\<close>

theorem malloc_terminates:
  assumes ok: "heap_ok s bs"
  shows "malloc n s \<noteq> None"
proof -
  have eq: "malloc n s = malloc_scan (max n MIN_BLOCK_SIZE) (next_addr ([] @ bs)) (last_addr 0 []) s"
    using heap_ok_first [OF ok] by (simp add: malloc_floor)
  from ok have ok': "heap_ok s ([] @ bs)" by simp
  from malloc_scan_run [OF ok', of "max n MIN_BLOCK_SIZE"] show ?thesis
    unfolding eq by (auto split: prod.splits option.splits)
qed

theorem malloc_terminates_witness:
  "heap_ok demo_two [Blk 4096 40 True, Blk 4168 32 True] \<and> malloc 1000 demo_two \<noteq> None"
proof -
  have ok: "heap_ok demo_two [Blk 4096 40 True, Blk 4168 32 True]"
    by (simp add: demo_two_def heap_ok_def)
  from malloc_terminates [OF ok] ok show ?thesis by simp
qed

text \<open>
  C8. When nothing fits in a non-empty well-formed directory and the break can move,
  \<^verbatim>\<open>malloc\<close> returns the data pointer of a new block at the old break, but never
  links it: the new header's \<^verbatim>\<open>prev\<close> names the last block, while the last block's
  \<^verbatim>\<open>next\<close> stays \<open>NULL\<close>. The directory reachable from \<^verbatim>\<open>first\<close> is the
  coalesced old one, and no well-formed directory describes the new heap.
\<close>

theorem malloc_new_block_unlinked:
  assumes ok: "heap_ok s bs" and ne: "bs \<noteq> []"
    and nf: "first_fit (max n MIN_BLOCK_SIZE) [] bs = (bs', None)"
    and room: "unat (heap_brk s) + unat (max n MIN_BLOCK_SIZE) + 32 \<le> unat (heap_max s)"
    and small: "unat (max n MIN_BLOCK_SIZE) + 32 < 2 ^ 63"
  shows "\<exists>s'. malloc n s = Some (Inr (heap_brk s + HDR_SIZE, s')) \<and>
              first s' = first s \<and> seg (hdrs s') 0 (first s') bs' 0 \<and>
              hdrs s' (heap_brk s) =
                Some \<lparr>hnext = 0, hprev = last_addr 0 bs', hsize = max n MIN_BLOCK_SIZE, hfree = False\<rparr> \<and>
              (\<forall>cs. \<not> heap_ok s' cs)"
proof -
  let ?n = "max n MIN_BLOCK_SIZE"
  let ?NB = "\<lparr>hnext = 0, hprev = last_addr 0 bs', hsize = ?n, hfree = False\<rparr>"
  obtain s1 where ok1: "heap_ok s1 bs'" and fr: "s1 = s\<lparr>hdrs := hdrs s1\<rparr>"
    and m: "malloc n s = Some (Inr (heap_brk s + HDR_SIZE,
           s1\<lparr>first := (if first s1 = 0 then heap_brk s else first s1),
              hdrs := (clobber (heap_brk s) 32
                   (\<lambda>q. if unat (heap_brk s + (?n + 32)) < unat q + 32 then None else hdrs s1 q))
                  (heap_brk s \<mapsto> ?NB), heap_brk := heap_brk s + (?n + 32)\<rparr>))"
    and frm: "\<forall>x \<in> b_addr ` set bs'. ((clobber (heap_brk s) 32
                   (\<lambda>q. if unat (heap_brk s + (?n + 32)) < unat q + 32 then None else hdrs s1 q))
                  (heap_brk s \<mapsto> ?NB)) x = hdrs s1 x"
    by (rule malloc_grow_run [OF ok nf room small])
  let ?m' = "(clobber (heap_brk s) 32
               (\<lambda>q. if unat (heap_brk s + (?n + 32)) < unat q + 32 then None else hdrs s1 q))
              (heap_brk s \<mapsto> ?NB)"
  note same = hdrs_frame [OF fr]
  have f1: "first s1 \<noteq> 0" using heap_ok_nonempty_first [OF ok ne] same by simp
  define s' where "s' = s1\<lparr>first := (if first s1 = 0 then heap_brk s else first s1),
                   hdrs := ?m', heap_brk := heap_brk s + (?n + 32)\<rparr>"
  have sg1: "seg (hdrs s1) 0 (first s1) bs' 0" using ok1 by (simp add: heap_ok_def)
  have sg: "seg ?m' 0 (first s1) bs' 0" by (subst seg_cong [OF frm]) (rule sg1)
  have t1: "tiled (unat (heap_start s1)) bs' (unat (heap_brk s1))" using ok1 by (simp add: heap_ok_def)
  have bmax: "unat (heap_brk s) + unat ?n + 32 < 2 ^ 64"
    using room unat_lt_2p64 [of "heap_max s"] by linarith
  have ub: "unat (heap_brk s + (?n + 32)) = unat (heap_brk s) + unat ?n + 32"
    using bmax by (rule unat_add_plus32_nowrap)
  have notok: "\<not> heap_ok s' cs" for cs
  proof
    assume "heap_ok s' cs"
    then have "seg ?m' 0 (first s1) cs 0" and t: "tiled (unat (heap_start s1)) cs (unat (heap_brk s + (?n + 32)))"
      using f1 same by (simp_all add: heap_ok_def s'_def)
    with sg have "cs = bs'" by (blast intro: seg_unique)
    with t t1 same have "unat (heap_brk s + (?n + 32)) = unat (heap_brk s)" by (metis tiled_end_unique)
    with ub show False by simp
  qed
  have run': "malloc n s = Some (Inr (heap_brk s + HDR_SIZE, s'))" using m by (simp add: s'_def)
  have fs: "first s' = first s" using f1 same by (simp add: s'_def)
  have sg': "seg (hdrs s') 0 (first s') bs' 0" using sg f1 by (simp add: s'_def)
  have hb: "hdrs s' (heap_brk s) = Some ?NB" by (simp add: s'_def)
  show ?thesis using run' fs sg' hb notok by blast
qed


theorem malloc_new_block_unlinked_witness:
  "heap_ok demo_split [Blk 4096 100 True, Blk 4228 32 False] \<and>
   (\<exists>s'. malloc 200 demo_split = Some (Inr (4324, s')) \<and> first s' = 4096 \<and>
         seg (hdrs s') 0 (first s') [Blk 4096 100 True, Blk 4228 32 False] 0 \<and>
         hdrs s' 4292 = Some \<lparr>hnext = 0, hprev = 4228, hsize = 200, hfree = False\<rparr> \<and>
         (\<forall>cs. \<not> heap_ok s' cs))"
proof -
  have ok: "heap_ok demo_split [Blk 4096 100 True, Blk 4228 32 False]"
    by (simp add: demo_split_def heap_ok_def)
  have ne: "[Blk 4096 100 True, Blk 4228 32 False] \<noteq> []" by simp
  have nf: "first_fit (max 200 MIN_BLOCK_SIZE) [] [Blk 4096 100 True, Blk 4228 32 False] =
     ([Blk 4096 100 True, Blk 4228 32 False], None)"
    by (simp add: max_def)
  have room: "unat (heap_brk demo_split) + unat (max (200::64 word) MIN_BLOCK_SIZE) + 32 \<le> unat (heap_max demo_split)"
    by (simp add: demo_split_def max_def)
  have small: "unat (max (200::64 word) MIN_BLOCK_SIZE) + 32 < 2 ^ 63"
    by (simp add: max_def)
  from malloc_new_block_unlinked [OF ok ne nf room small] ok show ?thesis
    by (simp add: demo_split_def max_def)
qed

text \<open>
  C9. The first allocation: on an empty well-formed heap whose break can move, \<^verbatim>\<open>malloc\<close>
  places an in-use block of the request raised to the floor at the start of the heap,
  returns its data pointer, and the directory is that one block.
\<close>

theorem malloc_first_block:
  assumes ok: "heap_ok s []"
    and room: "unat (heap_brk s) + unat (max n MIN_BLOCK_SIZE) + 32 \<le> unat (heap_max s)"
    and small: "unat (max n MIN_BLOCK_SIZE) + 32 < 2 ^ 63"
  shows "\<exists>s'. malloc n s = Some (Inr (heap_start s + HDR_SIZE, s')) \<and>
              heap_ok s' [Blk (heap_start s) (max n MIN_BLOCK_SIZE) False]"
proof -
  let ?n = "max n MIN_BLOCK_SIZE"
  have f0: "first s = 0" and st: "heap_start s = heap_brk s" and nz: "heap_start s \<noteq> 0"
    and le: "heap_brk s \<le> heap_max s"
    using ok by (simp_all add: heap_ok_def word_unat_eq_iff)
  let ?NB = "\<lparr>hnext = 0, hprev = last_addr 0 [], hsize = ?n, hfree = False\<rparr>"
  let ?m' = "(clobber (heap_brk s) 32
               (\<lambda>q. if unat (heap_brk s + (?n + 32)) < unat q + 32 then None else hdrs s q))
              (heap_brk s \<mapsto> ?NB)"
  from malloc_extend_run [OF ok room small]
  have ext: "malloc_extend ?n 0 s =
               Inr (heap_brk s + 32, s\<lparr>first := heap_brk s, hdrs := ?m', heap_brk := heap_brk s + (?n + 32)\<rparr>)"
    using f0 by simp
  have m: "malloc n s = Some (malloc_extend ?n 0 s)"
    using f0 by (simp add: malloc_floor malloc_scan.simps)
  have bmax: "unat (heap_brk s) + unat ?n + 32 < 2 ^ 64"
    using room unat_lt_2p64 [of "heap_max s"] by linarith
  have ub: "unat (heap_brk s + (?n + 32)) = unat (heap_brk s) + unat ?n + 32"
    using bmax by (rule unat_add_plus32_nowrap)
  have mx: "heap_brk s + (?n + 32) \<le> heap_max s"
    using ub room by (simp add: word_le_nat_alt)
  have "heap_ok (s\<lparr>first := heap_brk s, hdrs := ?m', heap_brk := heap_brk s + (?n + 32)\<rparr>)
          [Blk (heap_start s) ?n False]"
    using st nz ub mx by (simp add: heap_ok_def)
  with m ext st show ?thesis by auto
qed

theorem malloc_first_block_witness:
  "heap_ok demo_empty [] \<and>
   (\<exists>s'. malloc 10 demo_empty = Some (Inr (4128, s')) \<and> heap_ok s' [Blk 4096 32 False])"
proof -
  have ok: "heap_ok demo_empty []"
    by (simp add: demo_empty_def init_state_def heap_ok_def)
  have room: "unat (heap_brk demo_empty) + unat (max (10::64 word) MIN_BLOCK_SIZE) + 32 \<le> unat (heap_max demo_empty)"
    by (simp add: demo_empty_def init_state_def max_def)
  have small: "unat (max (10::64 word) MIN_BLOCK_SIZE) + 32 < 2 ^ 63"
    by (simp add: max_def)
  from malloc_first_block [OF ok room small] ok show ?thesis
    by (simp add: demo_empty_def init_state_def max_def)
qed

text \<open>
  C26. When nothing fits and the break cannot move, \<^verbatim>\<open>malloc\<close> does not return
  \<open>NULL\<close> as the specification's OutOfMemory requires: it never compares the result of
  \<^verbatim>\<open>sbrk\<close> with \<^verbatim>\<open>(void * ) -1\<close> and writes the new header there.
\<close>

theorem malloc_out_of_memory:
  assumes ok: "heap_ok s bs" and nf: "first_fit (max n MIN_BLOCK_SIZE) [] bs = (bs', None)"
    and full: "unat (heap_max s) < unat (heap_brk s) + unat (max n MIN_BLOCK_SIZE) + 32"
    and small: "unat (max n MIN_BLOCK_SIZE) + 32 < 2 ^ 63"
  shows "malloc n s = Some (Inl (Unmapped (- 1)))"
proof -
  let ?n = "max n MIN_BLOCK_SIZE"
  obtain s1 where "heap_ok s1 bs'" and fr: "s1 = s\<lparr>hdrs := hdrs s1\<rparr>"
    and m: "malloc n s = Some (malloc_extend ?n (last_addr 0 bs') s1)"
    by (rule malloc_nofit_run [OF ok nf])
  note same = hdrs_frame [OF fr]
  have un: "unat (?n + 32) = unat ?n + 32" using small by (simp add: unat_add_nowrap)
  have si: "sint (?n + HDR_SIZE) = int (unat ?n) + 32" using un small by (simp add: sint_small)
  have "int (unat (heap_max s)) < int (unat (heap_brk s) + unat ?n + 32)"
    using full by (simp only: of_nat_less_iff)
  then have "\<not> (uint (heap_brk s1) + sint (?n + HDR_SIZE) \<le> uint (heap_max s1))"
    using si same by simp
  then show ?thesis using m by (simp add: malloc_extend_sbrk_fail)
qed

theorem malloc_out_of_memory_witness:
  "heap_ok demo_two [Blk 4096 40 True, Blk 4168 32 True] \<and>
   malloc 65536 demo_two = Some (Inl (Unmapped (- 1)))"
proof -
  have ok: "heap_ok demo_two [Blk 4096 40 True, Blk 4168 32 True]"
    by (simp add: demo_two_def heap_ok_def)
  have "first_fit (max 65536 MIN_BLOCK_SIZE) [] [Blk 4096 40 True, Blk 4168 32 True] =
          ([Blk 4096 104 True], None)" by (simp add: absorb_def)
  from malloc_out_of_memory [OF ok this] ok show ?thesis by (simp add: demo_two_def)
qed

text \<open>
  C27. For a request within 32 bytes of \<^verbatim>\<open>SIZE_MAX\<close> the increment
  \<^verbatim>\<open>size + sizeof(Header)\<close> wraps to fewer than 32 bytes: \<^verbatim>\<open>sbrk\<close> moves the break
  by that little (or fails), and the new header is written past the break.
\<close>

theorem malloc_size_wraps:
  assumes ok: "heap_ok s bs" and nf: "first_fit n [] bs = (bs', None)"
    and huge: "2 ^ 64 - 32 \<le> unat n"
  shows "malloc n s = Some (Inl (Unmapped
           (if unat (heap_brk s) + (unat n + 32 - 2 ^ 64) \<le> unat (heap_max s) then heap_brk s else - 1)))"
proof -
  have nn: "max n MIN_BLOCK_SIZE = n" using huge by (simp add: max_def word_le_nat_alt)
  have nf': "first_fit (max n MIN_BLOCK_SIZE) [] bs = (bs', None)" using nf nn by simp
  obtain s1 where "heap_ok s1 bs'" and fr: "s1 = s\<lparr>hdrs := hdrs s1\<rparr>"
    and m0: "malloc n s = Some (malloc_extend (max n MIN_BLOCK_SIZE) (last_addr 0 bs') s1)"
    by (rule malloc_nofit_run [OF ok nf'])
  have m: "malloc n s = Some (malloc_extend n (last_addr 0 bs') s1)" using m0 nn by simp
  note same = hdrs_frame [OF fr]
  define k where "k = unat n + 32 - 2 ^ 64"
  have k32: "k < 32" using unat_lt_2p64 [of n] by (simp add: k_def)
  have uk: "unat (n + 32) = k"
  proof -
    have "unat (n + 32) = (unat n + 32) mod 2 ^ 64" by (simp add: unat_word_ariths)
    also have "\<dots> = k" using huge unat_lt_2p64 [of n] by (simp add: k_def mod_if)
    finally show ?thesis .
  qed
  have si: "sint (n + HDR_SIZE) = int k" using uk k32 by (simp add: sint_small)
  have lo: "unat (heap_start s) \<le> unat (heap_brk s)" and pos: "0 < unat (heap_start s)"
    using heap_ok_brk_pos [OF ok] by simp_all
  show ?thesis
  proof (cases "unat (heap_brk s) + k \<le> unat (heap_max s)")
    case True
    have "int (unat (heap_start s)) \<le> int (unat (heap_brk s) + k)"
      using lo by (simp only: of_nat_le_iff)
    then have c1: "uint (heap_start s1) \<le> uint (heap_brk s1) + sint (n + HDR_SIZE)"
      using si same by simp
    have "int (unat (heap_brk s) + k) \<le> int (unat (heap_max s))"
      using True by (simp only: of_nat_le_iff)
    then have c2: "uint (heap_brk s1) + sint (n + HDR_SIZE) \<le> uint (heap_max s1)"
      using si same by simp
    have ub: "unat (heap_brk s + (n + 32)) = unat (heap_brk s) + k"
      using True uk unat_lt_2p64 [of "heap_max s"] by (simp add: unat_add_nowrap)
    have "\<not> in_heap (set_break (heap_brk s + (n + 32)) s1) (heap_brk s)"
      using ub k32 same by (simp add: in_heap_def set_break_def)
    moreover have "heap_brk s \<noteq> 0" using lo pos by auto
    moreover have "sbrk (n + 32) s1 = (heap_brk s, set_break (heap_brk s + (n + 32)) s1)"
      using sbrk_ok [OF c1 c2] same by simp
    ultimately show ?thesis
      using m True by (simp add: k_def malloc_extend_def new_hdr_def)
  next
    case False
    then have "int (unat (heap_max s)) < int (unat (heap_brk s) + k)"
      by (simp only: of_nat_less_iff not_le)
    then have "\<not> (uint (heap_brk s1) + sint (n + HDR_SIZE) \<le> uint (heap_max s1))"
      using si same by simp
    then show ?thesis using m False by (simp add: k_def malloc_extend_sbrk_fail)
  qed
qed

theorem malloc_size_wraps_witness:
  "heap_ok demo_two [Blk 4096 40 True, Blk 4168 32 True] \<and>
   malloc (- 1) demo_two = Some (Inl (Unmapped 4232))"
proof -
  have ok: "heap_ok demo_two [Blk 4096 40 True, Blk 4168 32 True]"
    by (simp add: demo_two_def heap_ok_def)
  have "\<not> (- 1 :: size_t) \<le> 104" by (simp add: word_le_nat_alt unat_minus_one_64)
  then have "first_fit (- 1) [] [Blk 4096 40 True, Blk 4168 32 True] = ([Blk 4096 104 True], None)"
    by (simp add: absorb_def)
  from malloc_size_wraps [OF ok this] ok show ?thesis by (simp add: demo_two_def unat_minus_one_64)
qed

end
