(* ===== verification/Deallocator.thy ===== *)
theory Deallocator
  imports Allocator
begin

text \<open>
  The Deallocator: \<^verbatim>\<open>free\<close> and \<^verbatim>\<open>free_with_caution\<close> of \<^verbatim>\<open>src/dynalloc.c\<close>
  (lines 120--168). Both set the free flag of the block and, when it is the last of
  the chain, walk back over free predecessors and give the run back with \<^verbatim>\<open>brk\<close>.
  The fast path trusts the pointer; the cautious one first looks for the header in
  the chain. Both walks follow pointers stored in the heap, so they are
  \<open>partial_function (option)\<close> definitions.
\<close>

section \<open>The operations\<close>

text \<open>
  Lines 127--133: from the freed last block, step back while the predecessor is free;
  stop at \<^verbatim>\<open>first\<close>. The walk only reads.
\<close>

partial_function (option) free_walk :: "addr \<Rightarrow> mstate \<Rightarrow> addr res option" where
  "free_walk cur s =
     (if cur \<noteq> first s then
        bindO (load s cur) (\<lambda>h.
        bindO (load s (hprev h)) (\<lambda>hp.
        if hfree hp then free_walk (hprev h) s else Some (Inr cur)))
      else Some (Inr cur))"

text \<open>
  Lines 126--137: the trailing shrink. If the walk reached \<^verbatim>\<open>first\<close>, every block is
  free and the directory is emptied; the break moves to the start of the free run.
\<close>

definition free_tail :: "addr \<Rightarrow> mstate \<Rightarrow> mstate res option" where
  "free_tail header s =
     bindL (free_walk header s) (\<lambda>cur.
     let s = (if cur = first s then s\<lparr>first := 0\<rparr> else s) in
     Some (Inr (brk cur s)))"

text \<open>Lines 120--138: the header sits right before the data pointer.\<close>

definition free :: "addr \<Rightarrow> mstate \<Rightarrow> mstate res option" where
  "free address s =
     (if address = 0 then Some (Inr s)
      else
        let header = address - HDR_SIZE in
        bindO (upd_hdr header (\<lambda>h. h\<lparr>hfree := True\<rparr>) s) (\<lambda>s.
        bindO (load s header) (\<lambda>h.
        if hnext h = 0 then free_tail header s else Some (Inr s))))"

text \<open>
  Lines 145--168: walk the chain from \<^verbatim>\<open>first\<close>; only a header found there is freed,
  with the same trailing shrink as \<^verbatim>\<open>free\<close>.
\<close>

partial_function (option) caution_scan :: "addr \<Rightarrow> addr \<Rightarrow> mstate \<Rightarrow> mstate res option" where
  "caution_scan header cur s =
     (if cur = 0 then Some (Inr s)
      else if cur = header then
        bindO (upd_hdr cur (\<lambda>h. h\<lparr>hfree := True\<rparr>) s) (\<lambda>s.
        bindO (load s cur) (\<lambda>h.
        if hnext h = 0 then free_tail cur s else Some (Inr s)))
      else bindO (load s cur) (\<lambda>h. caution_scan header (hnext h) s))"

definition free_with_caution :: "addr \<Rightarrow> mstate \<Rightarrow> mstate res option" where
  "free_with_caution address s =
     (if address = 0 then Some (Inr s) else caution_scan (address - HDR_SIZE) (first s) s)"

text \<open>
  Three blocks of 32 data bytes: in use, free, in use; the break right after the third.
\<close>

definition demo_three :: mstate where
  "demo_three =
     \<lparr>first = 4096,
      hdrs = Map.empty(4096 \<mapsto> \<lparr>hnext = 4160, hprev = 0, hsize = 32, hfree = False\<rparr>,
                       4160 \<mapsto> \<lparr>hnext = 4224, hprev = 4096, hsize = 32, hfree = True\<rparr>,
                       4224 \<mapsto> \<lparr>hnext = 0, hprev = 4160, hsize = 32, hfree = False\<rparr>),
      dat = (\<lambda>_. 0), heap_start = 4096, heap_brk = 4288, heap_max = 65536\<rparr>"

section \<open>Lemmas\<close>

lemma heap_ok_addr_notin:
  assumes "heap_ok s (pre @ A # post)"
  shows "b_addr A \<notin> b_addr ` set pre" and "b_addr A \<notin> b_addr ` set post"
proof -
  from assms obtain mid where tp: "tiled (unat (heap_start s)) pre mid" and ua: "unat (b_addr A) = mid"
    and tq: "tiled (mid + unat HDR_SIZE + unat (b_size A)) post (unat (heap_brk s))"
    by (rule heap_ok_tiled)
  show "b_addr A \<notin> b_addr ` set pre" using tiled_addr_notin_before [OF tp] ua by simp
  show "b_addr A \<notin> b_addr ` set post" using tiled_addr_notin_after [OF tq] ua by simp
qed

lemma heap_ok_set_flag:
  fixes f :: bool
  assumes ok: "heap_ok s (pre @ A # post)"
  defines "s' \<equiv> s\<lparr>hdrs := (hdrs s)(b_addr A \<mapsto>
                 \<lparr>hnext = next_addr post, hprev = last_addr 0 pre, hsize = b_size A, hfree = f\<rparr>)\<rparr>"
  shows "upd_hdr (b_addr A) (\<lambda>h. h\<lparr>hfree := f\<rparr>) s = Inr s'"
    and "heap_ok s' (pre @ Blk (b_addr A) (b_size A) f # post)"
proof -
  from heap_ok_block [OF ok] have hA: "hdrs s (b_addr A) =
      Some \<lparr>hnext = next_addr post, hprev = last_addr 0 pre, hsize = b_size A, hfree = b_free A\<rparr>"
    and nz: "b_addr A \<noteq> 0" and inA: "in_heap s (b_addr A)" by simp_all
  show "upd_hdr (b_addr A) (\<lambda>h. h\<lparr>hfree := f\<rparr>) s = Inr s'"
    using hA nz inA by (simp add: mem_simps s'_def)
  have segpre: "seg (hdrs s) 0 (first s) pre (b_addr A)"
    and segA: "seg (hdrs s) (last_addr 0 pre) (b_addr A) (A # post) 0"
    using heap_ok_split [OF ok] by simp_all
  from segA hA have segpost: "seg (hdrs s) (b_addr A) (next_addr post) post 0" by simp
  note notin = heap_ok_addr_notin [OF ok]
  show "heap_ok s' (pre @ Blk (b_addr A) (b_size A) f # post)"
    using ok segpre segpost notin nz
    by (auto simp: s'_def heap_ok_def seg_append seg_upd_other tiled_append)
qed

lemma caution_scan_absent:
  assumes "heap_ok s (pre @ rest)" and "header \<notin> b_addr ` set rest"
  shows "caution_scan header (next_addr rest) s = Some (Inr s)"
  using assms
proof (induction rest arbitrary: pre)
  case Nil
  then show ?case by (simp add: caution_scan.simps)
next
  case (Cons A post)
  from heap_ok_block [OF Cons.prems(1)] have
    lA: "load s (b_addr A) = Inr \<lparr>hnext = next_addr post, hprev = last_addr 0 pre, hsize = b_size A, hfree = b_free A\<rparr>"
    and nz: "b_addr A \<noteq> 0" by (simp_all add: mem_simps)
  have ok': "heap_ok s ((pre @ [A]) @ post)" using Cons.prems(1) by simp
  have ne: "b_addr A \<noteq> header" using Cons.prems(2) by auto
  from Cons.IH [OF ok'] Cons.prems(2) lA nz ne show ?case
    by (simp add: caution_scan.simps [of header "b_addr A"])
qed

lemma caution_scan_found:
  assumes "heap_ok s (pre @ mid @ A # post)"
  shows "caution_scan (b_addr A) (next_addr (mid @ A # post)) s = caution_scan (b_addr A) (b_addr A) s"
  using assms
proof (induction mid arbitrary: pre)
  case Nil
  then show ?case by simp
next
  case (Cons B mid)
  from heap_ok_block [of s pre B "mid @ A # post"] Cons.prems have
    lB: "load s (b_addr B) = Inr \<lparr>hnext = next_addr (mid @ A # post), hprev = last_addr 0 pre, hsize = b_size B, hfree = b_free B\<rparr>"
    and nz: "b_addr B \<noteq> 0" by (simp_all add: mem_simps)
  from heap_ok_addr_notin(2) [of s pre B "mid @ A # post"] Cons.prems
  have ne: "b_addr B \<noteq> b_addr A" by auto
  have ok': "heap_ok s ((pre @ [B]) @ mid @ A # post)" using Cons.prems by simp
  from Cons.IH [OF ok'] lB nz ne show ?case
    by (simp add: caution_scan.simps [of "b_addr A" "b_addr B"])
qed

lemma heap_ok_not_first:
  assumes "heap_ok s (pre @ X # rest)" and "pre \<noteq> []"
  shows "b_addr X \<noteq> first s"
proof -
  from assms(2) obtain P pre' where pre: "pre = P # pre'" by (cases pre) auto
  from heap_ok_first [OF assms(1)] pre have "first s = b_addr P" by simp
  moreover from heap_ok_addr_notin(2) [of s "[]" P "pre' @ X # rest"] assms(1) pre
  have "b_addr P \<noteq> b_addr X" by auto
  ultimately show ?thesis by simp
qed

lemma last_addr_last: "pre \<noteq> [] \<Longrightarrow> last_addr pv pre = b_addr (last pre)"
  by (cases pre rule: rev_cases) auto

lemma free_walk_run:
  assumes "heap_ok s (pre @ F @ X # rest)" and "list_all b_free F"
    and "pre = [] \<or> \<not> b_free (last pre)"
  shows "free_walk (b_addr X) s = Some (Inr (b_addr (hd (F @ [X]))))"
  using assms
proof (induction F arbitrary: X rest rule: rev_induct)
  case Nil
  show ?case
  proof (cases "pre = []")
    case True
    with heap_ok_first [OF Nil.prems(1)] show ?thesis by (simp add: free_walk.simps)
  next
    case False
    then obtain P pre' where pp: "pre = pre' @ [P]" by (cases pre rule: rev_cases) auto
    from Nil.prems(3) False pp have nf: "\<not> b_free P" by simp
    from heap_ok_block [of s pre X rest] Nil.prems(1) pp have
      lX: "load s (b_addr X) = Inr \<lparr>hnext = next_addr rest, hprev = b_addr P, hsize = b_size X, hfree = b_free X\<rparr>"
      by (simp add: mem_simps)
    from heap_ok_block [of s pre' P "X # rest"] Nil.prems(1) pp have
      lP: "load s (b_addr P) = Inr \<lparr>hnext = b_addr X, hprev = last_addr 0 pre', hsize = b_size P, hfree = b_free P\<rparr>"
      by (simp add: mem_simps)
    have "b_addr X \<noteq> first s" using heap_ok_not_first [of s pre X rest] Nil.prems(1) False by simp
    with lX lP nf show ?thesis by (simp add: free_walk.simps [of "b_addr X"])
  qed
next
  case (snoc f F)
  from heap_ok_block [of s "pre @ F @ [f]" X rest] snoc.prems(1) have
    lX: "load s (b_addr X) = Inr \<lparr>hnext = next_addr rest, hprev = b_addr f, hsize = b_size X, hfree = b_free X\<rparr>"
    by (simp add: mem_simps)
  from heap_ok_block [of s "pre @ F" f "X # rest"] snoc.prems(1) have
    lf: "load s (b_addr f) = Inr \<lparr>hnext = b_addr X, hprev = last_addr 0 (pre @ F), hsize = b_size f, hfree = b_free f\<rparr>"
    by (simp add: mem_simps)
  have nf: "b_addr X \<noteq> first s"
    using heap_ok_not_first [of s "pre @ F @ [f]" X rest] snoc.prems(1) by simp
  have ok': "heap_ok s (pre @ F @ f # X # rest)" using snoc.prems(1) by simp
  from snoc.IH [OF ok'] snoc.prems(2,3) have "free_walk (b_addr f) s = Some (Inr (b_addr (hd (F @ [f]))))"
    by simp
  moreover have "hd (F @ [f, X]) = hd (F @ [f])" by (cases F) simp_all
  ultimately show ?case using lX lf nf snoc.prems(2)
    by (simp add: free_walk.simps [of "b_addr X"])
qed

lemma heap_ok_data_addr:
  assumes "heap_ok s (pre @ A # post)"
  shows "b_addr A + HDR_SIZE \<noteq> 0"
proof -
  from heap_ok_extent [OF assms] have "unat (b_addr A) + 32 < 2 ^ 64"
    using unat_lt_2p64 [of "heap_brk s"] by simp
  then have "unat (b_addr A + 32) = unat (b_addr A) + 32" by (simp add: unat_add_nowrap)
  then show ?thesis by (auto simp: unat_eq_zero [symmetric] simp del: unat_eq_zero)
qed

lemma brk_in_range:
  "unat (heap_start s) \<le> unat a \<Longrightarrow> unat a \<le> unat (heap_max s) \<Longrightarrow> brk a s = set_break a s"
  by (simp add: brk_def word_le_nat_alt)

lemma heap_ok_brk_block:
  assumes "heap_ok s (pre @ X # rest)"
  shows "unat (heap_start s) \<le> unat (b_addr X) \<and> unat (b_addr X) \<le> unat (heap_max s)"
proof -
  from assms have "unat (heap_brk s) \<le> unat (heap_max s)" by (simp add: heap_ok_def word_le_nat_alt)
  with heap_ok_extent [OF assms] show ?thesis by simp
qed

lemma seg_set_break_below:
  assumes "heap_ok s (pre @ X # rest)"
  shows "seg (hdrs (set_break (b_addr X) s)) 0 (first s) pre (b_addr X)"
proof -
  from assms obtain mid where tp: "tiled (unat (heap_start s)) pre mid" and ua: "unat (b_addr X) = mid"
    by (rule heap_ok_tiled)
  have eqs: "\<forall>q \<in> b_addr ` set pre. hdrs (set_break (b_addr X) s) q = hdrs s q"
    using tp ua by (fastforce simp: set_break_def dest: tiled_mem)
  show ?thesis by (subst seg_cong [OF eqs]) (rule heap_ok_split(1) [OF assms])
qed

lemma free_last_run:
  assumes ok: "heap_ok s (pre @ F @ [A])" and fr: "list_all b_free F"
    and stop: "pre = [] \<or> \<not> b_free (last pre)"
  defines "s1 \<equiv> s\<lparr>hdrs := (hdrs s)(b_addr A \<mapsto>
                 \<lparr>hnext = 0, hprev = last_addr 0 (pre @ F), hsize = b_size A, hfree = True\<rparr>)\<rparr>"
    and "r \<equiv> b_addr (hd (F @ [A]))"
  shows "free (b_addr A + HDR_SIZE) s = Some (Inr (brk r (if pre = [] then s1\<lparr>first := 0\<rparr> else s1)))"
    and "heap_ok s1 (pre @ F @ [Blk (b_addr A) (b_size A) True])"
proof -
  let ?A = "Blk (b_addr A) (b_size A) True"
  have ok': "heap_ok s ((pre @ F) @ A # [])" using ok by simp
  from heap_ok_set_flag [OF ok', of True] have
    up: "upd_hdr (b_addr A) (\<lambda>h. h\<lparr>hfree := True\<rparr>) s = Inr s1"
    and ok1: "heap_ok s1 ((pre @ F) @ [?A])" by (simp_all add: s1_def)
  show "heap_ok s1 (pre @ F @ [?A])" using ok1 by simp
  have nz: "b_addr A + HDR_SIZE \<noteq> 0" by (rule heap_ok_data_addr [OF ok'])
  from heap_ok_block [OF ok1] have lA: "load s1 (b_addr A) =
      Inr \<lparr>hnext = 0, hprev = last_addr 0 (pre @ F), hsize = b_size A, hfree = True\<rparr>"
    by (simp add: mem_simps)
  have hdr: "hd (F @ [?A]) = (if F = [] then ?A else hd F)" "hd (F @ [A]) = (if F = [] then A else hd F)"
    by simp_all
  from free_walk_run [of s1 pre F ?A "[]"] ok1 fr stop
  have fw: "free_walk (b_addr A) s1 = Some (Inr r)" by (simp add: r_def hdr)
  obtain X rest where xr: "F @ [?A] = X # rest" and rX: "r = b_addr X"
  proof (cases F)
    case Nil
    then show ?thesis using that [of ?A "[]"] by (simp add: r_def)
  next
    case (Cons f F')
    then show ?thesis using that [of f "F' @ [?A]"] by (simp add: r_def)
  qed
  have ok1': "heap_ok s1 (pre @ X # rest)" using ok1 xr by simp
  have "r = first s1 \<longleftrightarrow> pre = []"
  proof
    assume "r = first s1"
    then show "pre = []" using heap_ok_not_first [OF ok1'] rX by auto
  next
    assume "pre = []"
    then show "r = first s1" using heap_ok_first [OF ok1'] rX by simp
  qed
  then show "free (b_addr A + HDR_SIZE) s = Some (Inr (brk r (if pre = [] then s1\<lparr>first := 0\<rparr> else s1)))"
    using nz up lA fw by (simp add: free_def free_tail_def)
qed

lemma hd_snoc_addr: "b_addr (hd (F @ [Blk (b_addr A) z f])) = b_addr (hd (F @ [A]))"
  by (cases F) simp_all

lemma heap_ok_hd_tl: "heap_ok s (pre @ F @ [B]) \<Longrightarrow> heap_ok s (pre @ hd (F @ [B]) # tl (F @ [B]))"
  by (cases F) simp_all

lemma demo_three_ok: "heap_ok demo_three [Blk 4096 32 False, Blk 4160 32 True, Blk 4224 32 False]"
  by (simp add: demo_three_def heap_ok_def)

section \<open>Properties of free and free_with_caution\<close>

text \<open>C10. free_with_caution of an address whose header is no block of the directory changes nothing.\<close>

theorem free_with_caution_untracked:
  assumes ok: "heap_ok s bs" and nt: "address - HDR_SIZE \<notin> b_addr ` set bs"
  shows "free_with_caution address s = Some (Inr s)"
proof (cases "address = 0")
  case True
  then show ?thesis by (simp add: free_with_caution_def)
next
  case False
  have "caution_scan (address - HDR_SIZE) (next_addr ([] @ bs)) s = Some (Inr s)"
    using caution_scan_absent [of s "[]" bs] ok nt by simp
  with False heap_ok_first [OF ok] show ?thesis by (simp add: free_with_caution_def)
qed

theorem free_with_caution_untracked_witness:
  "heap_ok demo_two [Blk 4096 40 True, Blk 4168 32 True] \<and>
   free_with_caution 5000 demo_two = Some (Inr demo_two)"
proof -
  have ok: "heap_ok demo_two [Blk 4096 40 True, Blk 4168 32 True]"
    by (simp add: demo_two_def heap_ok_def)
  show ?thesis using free_with_caution_untracked [OF ok, of 5000] ok by simp
qed

text \<open>C11. On the data address of a block of the directory, free_with_caution does what free does.\<close>

theorem free_with_caution_eq_free:
  assumes ok: "heap_ok s (pre @ A # post)"
  shows "free_with_caution (b_addr A + HDR_SIZE) s = free (b_addr A + HDR_SIZE) s"
proof -
  have nz: "b_addr A + HDR_SIZE \<noteq> 0" by (rule heap_ok_data_addr [OF ok])
  have na: "b_addr A \<noteq> 0" using heap_ok_block [OF ok] by simp
  have "caution_scan (b_addr A) (next_addr (pre @ A # post)) s = caution_scan (b_addr A) (b_addr A) s"
    using caution_scan_found [of s "[]" pre A post] ok by simp
  with heap_ok_first [OF ok] nz na show ?thesis
    by (simp add: free_with_caution_def free_def Let_def caution_scan.simps [of "b_addr A" "b_addr A"])
qed

theorem free_with_caution_eq_free_witness:
  "heap_ok demo_split ([Blk 4096 100 True] @ Blk 4228 32 False # []) \<and>
   free_with_caution 4260 demo_split = free 4260 demo_split"
proof -
  have ok: "heap_ok demo_split ([Blk 4096 100 True] @ Blk 4228 32 False # [])"
    by (simp add: demo_split_def heap_ok_def)
  show ?thesis using free_with_caution_eq_free [OF ok] ok by simp
qed

text \<open>
  C12. free of a block that has a successor only sets its free flag: the directory
  keeps its blocks, the break does not move.
\<close>

theorem free_not_last:
  assumes ok: "heap_ok s (pre @ A # C # post)"
  shows "\<exists>s'. free (b_addr A + HDR_SIZE) s = Some (Inr s') \<and>
              heap_ok s' (pre @ Blk (b_addr A) (b_size A) True # C # post) \<and>
              heap_brk s' = heap_brk s \<and> first s' = first s"
proof -
  define s' where "s' = s\<lparr>hdrs := (hdrs s)(b_addr A \<mapsto>
      \<lparr>hnext = next_addr (C # post), hprev = last_addr 0 pre, hsize = b_size A, hfree = True\<rparr>)\<rparr>"
  from heap_ok_set_flag [OF ok, of True] have
    up: "upd_hdr (b_addr A) (\<lambda>h. h\<lparr>hfree := True\<rparr>) s = Inr s'"
    and ok1: "heap_ok s' (pre @ Blk (b_addr A) (b_size A) True # C # post)"
    by (simp_all add: s'_def)
  have ok1': "heap_ok s' ((pre @ [Blk (b_addr A) (b_size A) True]) @ C # post)" using ok1 by simp
  have lA: "load s' (b_addr A) =
      Inr \<lparr>hnext = b_addr C, hprev = last_addr 0 pre, hsize = b_size A, hfree = True\<rparr>"
    using heap_ok_block [OF ok1] by (simp add: mem_simps)
  have nC: "b_addr C \<noteq> 0" using heap_ok_block [OF ok1'] by simp
  have nz: "b_addr A + HDR_SIZE \<noteq> 0" by (rule heap_ok_data_addr [OF ok])
  have "free (b_addr A + HDR_SIZE) s = Some (Inr s')"
    using nz up lA nC by (simp add: free_def)
  moreover have "heap_brk s' = heap_brk s \<and> first s' = first s" by (simp add: s'_def)
  ultimately show ?thesis using ok1 by blast
qed

theorem free_not_last_witness:
  "heap_ok demo_three ([] @ Blk 4096 32 False # Blk 4160 32 True # [Blk 4224 32 False]) \<and>
   (\<exists>s'. free 4128 demo_three = Some (Inr s') \<and>
         heap_ok s' [Blk 4096 32 True, Blk 4160 32 True, Blk 4224 32 False] \<and> heap_brk s' = 4288)"
proof -
  have ok: "heap_ok demo_three ([] @ Blk 4096 32 False # Blk 4160 32 True # [Blk 4224 32 False])"
    using demo_three_ok by simp
  show ?thesis using free_not_last [OF ok] ok by (auto simp: demo_three_def)
qed

text \<open>
  C13. free of the last block, when every block before it is free, returns the whole
  heap: the break goes back to the start of the heap and the directory is empty.
\<close>

theorem free_all_free_empties:
  assumes ok: "heap_ok s (F @ [A])" and fr: "list_all b_free F"
  shows "\<exists>s'. free (b_addr A + HDR_SIZE) s = Some (Inr s') \<and> heap_ok s' [] \<and>
              heap_brk s' = heap_start s"
proof -
  let ?A = "Blk (b_addr A) (b_size A) True"
  define s1 where "s1 = s\<lparr>hdrs := (hdrs s)(b_addr A \<mapsto>
                 \<lparr>hnext = 0, hprev = last_addr 0 ([] @ F), hsize = b_size A, hfree = True\<rparr>)\<rparr>"
  have ok0: "heap_ok s ([] @ F @ [A])" using ok by simp
  note run = free_last_run [OF ok0 fr disjI1 [OF refl], folded s1_def]
  have okL: "heap_ok s1 ([] @ hd (F @ [?A]) # tl (F @ [?A]))" by (rule heap_ok_hd_tl [OF run(2)])
  let ?r = "b_addr (hd (F @ [A]))"
  from heap_ok_tiled [OF okL] have rs: "unat ?r = unat (heap_start s)"
    by (auto simp: hd_snoc_addr s1_def)
  have "brk ?r (s1\<lparr>first := 0\<rparr>) = set_break ?r (s1\<lparr>first := 0\<rparr>)"
    using heap_ok_brk_block [OF okL] by (intro brk_in_range) (simp_all add: hd_snoc_addr)
  moreover have "heap_ok (set_break ?r (s1\<lparr>first := 0\<rparr>)) []"
    using ok rs heap_ok_brk_pos [OF ok] by (simp add: heap_ok_def set_break_def s1_def word_le_nat_alt)
  moreover have "?r = heap_start s" using rs by (simp add: word_unat_eq_iff)
  ultimately show ?thesis using run(1) by (simp add: set_break_def)
qed

theorem free_all_free_empties_witness:
  "heap_ok demo_two ([Blk 4096 40 True] @ [Blk 4168 32 True]) \<and>
   (\<exists>s'. free 4200 demo_two = Some (Inr s') \<and> heap_ok s' [] \<and> heap_brk s' = 4096)"
proof -
  have ok: "heap_ok demo_two ([Blk 4096 40 True] @ [Blk 4168 32 True])"
    by (simp add: demo_two_def heap_ok_def)
  show ?thesis using free_all_free_empties [OF ok] ok by (auto simp: demo_two_def)
qed

text \<open>
  C14. free of the last block behind a block in use releases the run of free blocks
  before it, but leaves the block in use pointing to the released memory: its \<open>next\<close> is
  the new break, where no header can be read any more.
\<close>

theorem free_last_dangling:
  assumes ok: "heap_ok s (pre @ F @ [A])" and fr: "list_all b_free F"
    and np: "pre \<noteq> []" and used: "\<not> b_free (last pre)"
  shows "\<exists>s'. free (b_addr A + HDR_SIZE) s = Some (Inr s') \<and>
              heap_brk s' = b_addr (hd (F @ [A])) \<and> first s' = first s \<and>
              seg (hdrs s') 0 (first s') pre (heap_brk s') \<and>
              load s' (heap_brk s') = Inl (Unmapped (heap_brk s'))"
proof -
  let ?A = "Blk (b_addr A) (b_size A) True"
  let ?r = "b_addr (hd (F @ [A]))"
  define s1 where "s1 = s\<lparr>hdrs := (hdrs s)(b_addr A \<mapsto>
                 \<lparr>hnext = 0, hprev = last_addr 0 (pre @ F), hsize = b_size A, hfree = True\<rparr>)\<rparr>"
  have stop: "pre = [] \<or> \<not> b_free (last pre)" using used by simp
  note run = free_last_run [OF ok fr stop, folded s1_def]
  have okL: "heap_ok s1 (pre @ hd (F @ [?A]) # tl (F @ [?A]))" by (rule heap_ok_hd_tl [OF run(2)])
  have br: "brk ?r s1 = set_break ?r s1"
    using heap_ok_brk_block [OF okL] by (intro brk_in_range) (simp_all add: hd_snoc_addr)
  have sg: "seg (hdrs (set_break ?r s1)) 0 (first s1) pre ?r"
    using seg_set_break_below [OF okL] by (simp add: hd_snoc_addr)
  have nr: "?r \<noteq> 0" using heap_ok_block [OF okL] by (simp add: hd_snoc_addr)
  have "load (set_break ?r s1) ?r = Inl (Unmapped ?r)"
    using nr by (simp add: load_def in_heap_def set_break_def)
  then show ?thesis using run(1) np br sg by (simp add: set_break_def s1_def)
qed

theorem free_last_dangling_witness:
  "heap_ok demo_three ([Blk 4096 32 False] @ [Blk 4160 32 True] @ [Blk 4224 32 False]) \<and>
   (\<exists>s'. free 4256 demo_three = Some (Inr s') \<and> heap_brk s' = 4160 \<and> first s' = 4096 \<and>
         seg (hdrs s') 0 4096 [Blk 4096 32 False] 4160 \<and> load s' 4160 = Inl (Unmapped 4160))"
proof -
  have ok: "heap_ok demo_three ([Blk 4096 32 False] @ [Blk 4160 32 True] @ [Blk 4224 32 False])"
    using demo_three_ok by simp
  show ?thesis using free_last_dangling [OF ok] ok by (auto simp: demo_three_def simp del: seg.simps)
qed

end
