(* ===== verification/Api_Calls.thy ===== *)
theory Api_Calls
  imports Deallocator
begin

text \<open>
  The allocator as its clients see it: a datatype of the public calls \<^verbatim>\<open>malloc\<close>,
  \<^verbatim>\<open>free\<close> and \<^verbatim>\<open>free_with_caution\<close>, a step function that runs one call on the
  state (a fault ends the run: the process has crashed), the run of a list of calls, and
  the states reachable from the initial one as an inductive predicate. The invariant
  \<open>api_inv\<close> holds in every reachable state (rule induction, \<open>reachable_inv\<close>): every
  header lies in the mapped heap and has no successor, every header but the first has
  the first as its predecessor, and the directory is empty exactly when the break is at
  the start of the heap. \<^verbatim>\<open>realloc\<close> is not among the calls: its tail path resizes
  blocks that are not at the end of the heap, which this invariant does not describe.
\<close>

section \<open>Calls, runs and reachable states\<close>

datatype api_call = Malloc size_t | Free addr | Free_with_caution addr

fun api_step :: "api_call \<Rightarrow> mstate \<Rightarrow> mstate res option" where
  "api_step (Malloc n) s = bindL (malloc n s) (\<lambda>(_, s). Some (Inr s))"
| "api_step (Free a) s = free a s"
| "api_step (Free_with_caution a) s = free_with_caution a s"

fun run_calls :: "api_call list \<Rightarrow> mstate \<Rightarrow> mstate res option" where
  "run_calls [] s = Some (Inr s)"
| "run_calls (c # cs) s = bindL (api_step c s) (\<lambda>s. run_calls cs s)"

inductive reachable :: "addr \<Rightarrow> addr \<Rightarrow> mstate \<Rightarrow> bool" for lo hi where
  reach_init: "reachable lo hi (init_state lo hi)"
| reach_step: "reachable lo hi s \<Longrightarrow> api_step c s = Some (Inr s') \<Longrightarrow> reachable lo hi s'"

definition hdr_ok :: "mstate \<Rightarrow> addr \<Rightarrow> Header \<Rightarrow> bool" where
  "hdr_ok s q h \<longleftrightarrow>
     unat (heap_start s) \<le> unat q \<and> unat q + 32 \<le> unat (heap_brk s) \<and> hnext h = 0 \<and>
     (q \<noteq> first s \<longrightarrow> hprev h = first s \<and> unat (first s) + 32 \<le> unat q)"

definition api_inv :: "mstate \<Rightarrow> bool" where
  "api_inv s \<longleftrightarrow>
     heap_start s \<noteq> 0 \<and> heap_start s \<le> heap_brk s \<and> heap_brk s \<le> heap_max s \<and>
     (\<forall>q h. hdrs s q = Some h \<longrightarrow> hdr_ok s q h) \<and>
     (first s = 0 \<longrightarrow> heap_brk s = heap_start s) \<and>
     (first s \<noteq> 0 \<longrightarrow> first s = heap_start s \<and> (\<exists>h. hdrs s (first s) = Some h \<and> hprev h = 0))"

section \<open>The invariant of reachable states\<close>

lemma api_inv_hdr: "api_inv s \<Longrightarrow> hdrs s q = Some h \<Longrightarrow> hdr_ok s q h"
  by (simp add: api_inv_def)

lemma api_inv_empty_hdrs:
  assumes "api_inv s" and "first s = 0"
  shows "hdrs s q = None"
proof (rule ccontr)
  assume "hdrs s q \<noteq> None"
  then obtain h where "hdrs s q = Some h" by auto
  then have "hdr_ok s q h" by (rule api_inv_hdr [OF assms(1)])
  then have "unat (heap_start s) \<le> unat q" "unat q + 32 \<le> unat (heap_brk s)"
    by (simp_all add: hdr_ok_def)
  moreover have "heap_brk s = heap_start s" using assms by (simp add: api_inv_def)
  ultimately show False by simp
qed

lemma split_block_next0:
  assumes "load s p = Inr h" and "hnext h = 0" and "split_block p n s = Inr (r, s')"
  shows "r = 0 \<and> s' = s"
  using assms
  by (auto simp: split_block_def Let_def bindE_eq_Inr new_hdr_def load_Inr clobber_def
           upd_hdr_null split: if_splits)

lemma api_inv_first:
  assumes "api_inv s" and "first s \<noteq> 0"
  obtains h where "hdrs s (first s) = Some h" and "hprev h = 0" and "hnext h = 0"
    and "first s = heap_start s" and "unat (first s) + 32 \<le> unat (heap_brk s)"
proof -
  from assms obtain h where h: "hdrs s (first s) = Some h" "hprev h = 0" "first s = heap_start s"
    by (auto simp: api_inv_def)
  from api_inv_hdr [OF assms(1) h(1)] have "hnext h = 0" "unat (first s) + 32 \<le> unat (heap_brk s)"
    by (simp_all add: hdr_ok_def)
  with h that show ?thesis by blast
qed

lemma api_inv_keep_below:
  assumes "api_inv s" and "unat (heap_brk s) \<le> b"
  shows "(\<lambda>q. if b < unat q + 32 then None else hdrs s q) = hdrs s"
proof
  fix q
  show "(if b < unat q + 32 then None else hdrs s q) = hdrs s q"
    using assms api_inv_hdr [OF assms(1), of q] by (cases "hdrs s q") (auto simp: hdr_ok_def)
qed

lemma api_inv_clobber_brk:
  assumes "api_inv s"
  shows "clobber (heap_brk s) 32 (hdrs s) = hdrs s"
proof
  fix q
  show "clobber (heap_brk s) 32 (hdrs s) q = hdrs s q"
    using api_inv_hdr [OF assms, of q] by (cases "hdrs s q") (auto simp: hdr_ok_def clobber_def overlaps_def)
qed

text \<open>
  The growth path of \<^verbatim>\<open>malloc\<close> from a state of the invariant: when it does not
  fault, the new header sits at the old break, the break moved up by exactly the block,
  and no other header was touched.
\<close>

lemma malloc_extend_api:
  assumes inv: "api_inv s" and run: "malloc_extend sz (first s) s = Inr (p, s')"
  shows "p = heap_brk s + 32 \<and> heap_brk s + (sz + 32) \<le> heap_max s \<and>
         unat (heap_brk s + (sz + 32)) = unat (heap_brk s) + unat sz + 32 \<and>
         s' = s\<lparr>first := (if first s = 0 then heap_brk s else first s),
                hdrs := (hdrs s)(heap_brk s \<mapsto> \<lparr>hnext = 0, hprev = first s, hsize = sz, hfree = False\<rparr>),
                heap_brk := heap_brk s + (sz + 32)\<rparr>"
proof -
  let ?H = "\<lparr>hnext = 0, hprev = first s, hsize = sz, hfree = False\<rparr>"
  obtain nb s1 where sb: "sbrk (sz + 32) s = (nb, s1)" by (cases "sbrk (sz + 32) s")
  from run sb obtain s2 where nh: "new_hdr nb ?H s1 = Inr s2"
    and s': "s' = (if first s2 = 0 then s2\<lparr>first := nb\<rparr> else s2)" and p: "p = nb + 32"
    by (auto simp: malloc_extend_def Let_def bindE_eq_Inr)
  from nh have inb: "in_heap s1 nb"
    and s2: "s2 = s1\<lparr>hdrs := (clobber nb 32 (hdrs s1))(nb \<mapsto> ?H)\<rparr>"
    by (auto simp: new_hdr_def split: if_splits)
  note sh = sbrk_in_heap [OF sb inb]
  have u32: "unat (sz + 32) = unat sz + 32" using sh(4,5) by (intro unat_plus32_nowrap) linarith
  have ub: "unat (heap_brk s + (sz + 32)) = unat (heap_brk s) + unat sz + 32" using sh(4) u32 by simp
  have "hdrs s1 = hdrs s"
    using api_inv_keep_below [OF inv, of "unat (heap_brk s + (sz + 32))"] ub sh(2)
    by (simp add: set_break_def)
  then have "hdrs s2 = (hdrs s)(heap_brk s \<mapsto> ?H)" using s2 sh(1) api_inv_clobber_brk [OF inv] by simp
  moreover have "s2 = s\<lparr>hdrs := hdrs s2, heap_brk := heap_brk s + (sz + 32)\<rparr>"
    using s2 sh(2) by (simp add: set_break_def)
  ultimately show ?thesis using s' p sh(1,3) ub by simp
qed

lemma malloc_extend_inv:
  assumes inv: "api_inv s" and run: "malloc_extend sz (first s) s = Inr (p, s')"
  shows "api_inv s'"
proof -
  let ?B = "heap_brk s" and ?H = "\<lparr>hnext = 0, hprev = first s, hsize = sz, hfree = False\<rparr>"
  note e = malloc_extend_api [OF inv run]
  have ub: "unat (heap_brk s') = unat ?B + unat sz + 32" and hs: "hdrs s' = (hdrs s)(?B \<mapsto> ?H)"
    and fs: "first s' = (if first s = 0 then ?B else first s)"
    and st: "heap_start s' = heap_start s" "heap_max s' = heap_max s"
    using e by simp_all
  have lo: "unat (heap_start s) \<le> unat ?B" and nz: "heap_start s \<noteq> 0"
    using inv by (simp_all add: api_inv_def word_le_nat_alt)
  have hok: "hdr_ok s' q h" if hq: "hdrs s' q = Some h" for q h
  proof (cases "q = ?B")
    case True
    have "first s \<noteq> 0 \<Longrightarrow> unat (first s) + 32 \<le> unat q" using api_inv_first [OF inv] True by metis
    then show ?thesis using True hq hs fs lo ub st by (auto simp: hdr_ok_def)
  next
    case False
    then have hq0: "hdrs s q = Some h" using hq hs by simp
    have "first s \<noteq> 0" using api_inv_empty_hdrs [OF inv] hq0 by auto
    then show ?thesis using api_inv_hdr [OF inv hq0] fs ub st by (simp add: hdr_ok_def)
  qed
  have ffirst: "first s' \<noteq> 0 \<and> first s' = heap_start s' \<and> (\<exists>h. hdrs s' (first s') = Some h \<and> hprev h = 0)"
  proof (cases "first s = 0")
    case True
    then have "?B = heap_start s" using inv by (simp add: api_inv_def)
    then show ?thesis using True fs hs nz st by simp
  next
    case False
    obtain hf where hf: "hdrs s (first s) = Some hf" "hprev hf = 0" "first s = heap_start s"
      and ff: "unat (first s) + 32 \<le> unat ?B"
      using api_inv_first [OF inv False] by metis
    have "first s \<noteq> ?B" using ff by auto
    then show ?thesis using False fs hs hf st by simp
  qed
  have "heap_start s' \<le> heap_brk s'" using lo ub st by (simp add: word_le_nat_alt)
  moreover have "heap_brk s' \<le> heap_max s'" using e st by simp
  moreover have "heap_start s' \<noteq> 0" using nz st by simp
  ultimately show ?thesis using hok ffirst unfolding api_inv_def by blast
qed

lemma api_inv_set_free:
  assumes inv: "api_inv s" and hq: "hdrs s q = Some h"
  shows "api_inv (s\<lparr>hdrs := (hdrs s)(q \<mapsto> h\<lparr>hfree := f\<rparr>)\<rparr>)"
proof -
  let ?s = "s\<lparr>hdrs := (hdrs s)(q \<mapsto> h\<lparr>hfree := f\<rparr>)\<rparr>"
  have "hdr_ok ?s q' h'" if "hdrs ?s q' = Some h'" for q' h'
  proof (cases "q' = q")
    case True
    then show ?thesis using that api_inv_hdr [OF inv hq] by (auto simp: hdr_ok_def)
  next
    case False
    then show ?thesis using that api_inv_hdr [OF inv, of q' h'] by (simp add: hdr_ok_def)
  qed
  moreover have "first s \<noteq> 0 \<Longrightarrow> \<exists>h'. hdrs ?s (first s) = Some h' \<and> hprev h' = 0"
    using inv hq by (cases "q = first s") (auto simp: api_inv_def)
  ultimately show ?thesis using inv unfolding api_inv_def by simp
qed

lemma api_inv_load_first:
  assumes "api_inv s" and "first s \<noteq> 0" and "hdrs s (first s) = Some h"
  shows "load s (first s) = Inr h"
proof -
  have "hdr_ok s (first s) h" by (rule api_inv_hdr [OF assms(1,3)])
  then show ?thesis using assms(2,3) by (simp add: load_def in_heap_def hdr_ok_def)
qed

text \<open>
  From a state of the invariant the first-fit walk visits the first block only: it either
  takes that block or grows the heap.
\<close>

lemma malloc_api_cases:
  assumes inv: "api_inv s"
  shows "malloc n s = Some (malloc_extend (max n MIN_BLOCK_SIZE) (first s) s) \<or>
         (\<exists>h. first s \<noteq> 0 \<and> hdrs s (first s) = Some h \<and> hfree h \<and> max n MIN_BLOCK_SIZE \<le> hsize h \<and>
              malloc n s = Some (fit_then_split (max n MIN_BLOCK_SIZE) (first s) s))"
proof -
  let ?sz = "max n MIN_BLOCK_SIZE"
  have m: "malloc n s = malloc_scan ?sz (first s) 0 s" by (rule malloc_floor)
  show ?thesis
  proof (cases "first s = 0")
    case True
    then show ?thesis using m by (simp add: malloc_scan.simps)
  next
    case False
    obtain hf where hf: "hdrs s (first s) = Some hf" "hnext hf = 0"
      using api_inv_first [OF inv False] by metis
    have lf: "load s (first s) = Inr hf" by (rule api_inv_load_first [OF inv False hf(1)])
    have co: "coalesce (first s) s = Some (Inr (first s, s))"
      using lf hf(2) by (simp add: coalesce.simps)
    show ?thesis
    proof (cases "hfree hf \<and> ?sz \<le> hsize hf")
      case True
      then show ?thesis using m co lf False hf(1) by (simp add: malloc_scan.simps [of "max n 32" "first s"])
    next
      case nf: False
      have "malloc_scan ?sz (first s) 0 s = malloc_scan ?sz (hnext hf) (first s) s"
        using co lf False nf by (auto simp: malloc_scan.simps [of "max n 32" "first s"])
      also have "\<dots> = Some (malloc_extend ?sz (first s) s)"
        using hf(2) by (simp add: malloc_scan.simps)
      finally show ?thesis using m by simp
    qed
  qed
qed

text \<open>Taking the first block only clears its flag: it is the last block, so it is never split.\<close>

lemma fit_first_api:
  assumes inv: "api_inv s" and nf: "first s \<noteq> 0" and hf: "hdrs s (first s) = Some h"
    and run: "fit_then_split sz (first s) s = Inr (p, s')"
  shows "p = first s + 32 \<and> s' = s\<lparr>hdrs := (hdrs s)(first s \<mapsto> h\<lparr>hfree := False\<rparr>)\<rparr>"
proof -
  have lf: "load s (first s) = Inr h" by (rule api_inv_load_first [OF inv nf hf])
  have n0: "hnext h = 0" using api_inv_hdr [OF inv hf] by (simp add: hdr_ok_def)
  from run obtain r s1 where sp: "split_block (first s) sz s = Inr (r, s1)"
    and up: "upd_hdr (first s) (\<lambda>h. h\<lparr>hfree := False\<rparr>) s1 = Inr s'" and p: "p = first s + 32"
    by (auto simp: fit_then_split_def bindE_eq_Inr)
  have "s1 = s" using split_block_next0 [OF lf n0 sp] by simp
  then show ?thesis using up hf p by (auto simp: upd_hdr_Inr)
qed

lemma malloc_inv:
  assumes inv: "api_inv s" and run: "malloc n s = Some (Inr (p, s'))"
  shows "api_inv s'"
  using malloc_api_cases [OF inv, of n]
proof
  assume "malloc n s = Some (malloc_extend (max n MIN_BLOCK_SIZE) (first s) s)"
  then have "malloc_extend (max n MIN_BLOCK_SIZE) (first s) s = Inr (p, s')" using run by simp
  then show ?thesis by (rule malloc_extend_inv [OF inv])
next
  assume "\<exists>h. first s \<noteq> 0 \<and> hdrs s (first s) = Some h \<and> hfree h \<and> max n MIN_BLOCK_SIZE \<le> hsize h \<and>
              malloc n s = Some (fit_then_split (max n MIN_BLOCK_SIZE) (first s) s)"
  then obtain h where nf: "first s \<noteq> 0" and hf: "hdrs s (first s) = Some h"
    and m: "malloc n s = Some (fit_then_split (max n MIN_BLOCK_SIZE) (first s) s)" by blast
  have "fit_then_split (max n MIN_BLOCK_SIZE) (first s) s = Inr (p, s')" using m run by simp
  then have "s' = s\<lparr>hdrs := (hdrs s)(first s \<mapsto> h\<lparr>hfree := False\<rparr>)\<rparr>"
    using fit_first_api [OF inv nf hf] by blast
  then show ?thesis using api_inv_set_free [OF inv hf] by simp
qed

lemma api_inv_release_all:
  assumes inv: "api_inv s" and nf: "first s \<noteq> 0"
  defines "s' \<equiv> brk (first s) (s\<lparr>first := 0\<rparr>)"
  shows "api_inv s'" and "hdrs s' = Map.empty" and "heap_brk s' = heap_start s" and "first s' = 0"
proof -
  obtain hf where fs: "first s = heap_start s" and fb: "unat (first s) + 32 \<le> unat (heap_brk s)"
    using api_inv_first [OF inv nf] by metis
  have "first s \<le> heap_max s" using fb inv by (simp add: api_inv_def word_le_nat_alt)
  then have b: "s' = set_break (first s) (s\<lparr>first := 0\<rparr>)" using fs by (simp add: s'_def brk_def)
  show e: "hdrs s' = Map.empty"
  proof
    fix q
    show "hdrs s' q = None"
    proof (cases "hdrs s q")
      case (Some h)
      then have "unat (heap_start s) \<le> unat q" using api_inv_hdr [OF inv Some] by (simp add: hdr_ok_def)
      then show ?thesis using fs by (simp add: b set_break_def)
    qed (simp add: b set_break_def)
  qed
  show "heap_brk s' = heap_start s" "first s' = 0" using fs by (simp_all add: b set_break_def)
  moreover have "heap_start s \<le> heap_max s" using inv unfolding api_inv_def by (meson order.trans)
  ultimately show "api_inv s'" using inv e by (simp add: api_inv_def b set_break_def)
qed

lemma api_inv_release_above:
  assumes inv: "api_inv s" and hp: "hdrs s p = Some h" and ne: "p \<noteq> first s"
  shows "api_inv (brk p s)"
proof -
  have hk: "hdr_ok s p h" by (rule api_inv_hdr [OF inv hp])
  have pm: "p \<le> heap_max s" and sp: "heap_start s \<le> p"
    using hk inv by (simp_all add: hdr_ok_def api_inv_def word_le_nat_alt)
  then have b: "brk p s = set_break p s" by (simp add: brk_def)
  have nf: "first s \<noteq> 0" using api_inv_empty_hdrs [OF inv] hp by auto
  have fp: "unat (first s) + 32 \<le> unat p" using hk ne by (simp add: hdr_ok_def)
  have hs: "\<forall>q h'. hdrs (set_break p s) q = Some h' \<longrightarrow> hdr_ok (set_break p s) q h'"
  proof (intro allI impI)
    fix q h' assume "hdrs (set_break p s) q = Some h'"
    then have "hdrs s q = Some h'" "unat q + 32 \<le> unat p" by (simp_all add: set_break_def split: if_splits)
    then show "hdr_ok (set_break p s) q h'" using api_inv_hdr [OF inv] by (simp add: hdr_ok_def set_break_def)
  qed
  obtain hf where hf: "hdrs s (first s) = Some hf" "hprev hf = 0" "first s = heap_start s"
    using api_inv_first [OF inv nf] by metis
  have "hdrs (set_break p s) (first s) = Some hf" using hf(1) fp by (simp add: set_break_def)
  then have fst: "first (set_break p s) \<noteq> 0 \<longrightarrow> first (set_break p s) = heap_start (set_break p s) \<and>
      (\<exists>h. hdrs (set_break p s) (first (set_break p s)) = Some h \<and> hprev h = 0)"
    using hf by (simp add: set_break_def)
  have "heap_start (set_break p s) \<noteq> 0" "heap_start (set_break p s) \<le> heap_brk (set_break p s)"
    "heap_brk (set_break p s) \<le> heap_max (set_break p s)"
    "first (set_break p s) = 0 \<longrightarrow> heap_brk (set_break p s) = heap_start (set_break p s)"
    using inv sp pm nf by (simp_all add: api_inv_def set_break_def)
  then show ?thesis using hs fst unfolding b api_inv_def by blast
qed

text \<open>A header of a state of the invariant is mapped, and so is its data pointer.\<close>

lemma api_inv_hdr_ptr:
  assumes inv: "api_inv s" and hq: "hdrs s q = Some h"
  shows "q \<noteq> 0 \<and> in_heap s q \<and> q + HDR_SIZE \<noteq> 0 \<and> load s q = Inr h"
proof -
  have hk: "hdr_ok s q h" by (rule api_inv_hdr [OF inv hq])
  have "heap_start s \<noteq> 0" using inv by (simp add: api_inv_def)
  then have q0: "q \<noteq> 0" using hk by (auto simp: hdr_ok_def unat_eq_zero [symmetric] simp del: unat_eq_zero)
  have ip: "in_heap s q" using hk by (simp add: hdr_ok_def in_heap_def)
  have "unat q + 32 < 2 ^ 64" using hk unat_lt_2p64 [of "heap_brk s"] by (simp add: hdr_ok_def)
  then have "unat (q + 32) = unat q + 32" by (simp add: unat_add_nowrap)
  then have "q + 32 \<noteq> 0" by (auto simp: unat_eq_zero [symmetric] simp del: unat_eq_zero)
  then show ?thesis using q0 ip hq by (simp add: load_Inr)
qed

text \<open>
  \<^verbatim>\<open>free\<close> of the data pointer of any header of a state of the invariant: the header
  has no successor, so the walk runs; it stops at once unless the first block is free,
  and it releases everything when it reaches the first block.
\<close>

lemma free_api_step:
  assumes inv: "api_inv s" and hp: "hdrs s p = Some h"
  defines "s1 \<equiv> s\<lparr>hdrs := (hdrs s)(p \<mapsto> h\<lparr>hfree := True\<rparr>)\<rparr>"
  shows "free (p + HDR_SIZE) s =
           Some (Inr (if p = first s \<or> (\<exists>hf. hdrs s (first s) = Some hf \<and> hfree hf)
                      then brk (first s) (s1\<lparr>first := 0\<rparr>) else brk p s1))"
proof -
  have hk: "hdr_ok s p h" by (rule api_inv_hdr [OF inv hp])
  have p0: "p \<noteq> 0" and ip: "in_heap s p" and nz: "p + 32 \<noteq> 0"
    using api_inv_hdr_ptr [OF inv hp] by simp_all
  have same: "first s1 = first s" "in_heap s1 = in_heap s" by (simp_all add: s1_def in_heap_def [abs_def])
  have lp1: "load s1 p = Inr (h\<lparr>hfree := True\<rparr>)" using p0 ip same by (simp add: load_Inr s1_def)
  have up: "upd_hdr p (\<lambda>h. h\<lparr>hfree := True\<rparr>) s = Inr s1" using p0 ip hp by (simp add: upd_hdr_def load_def s1_def)
  have n0: "hnext h = 0" using hk by (simp add: hdr_ok_def)
  have fr: "free (p + HDR_SIZE) s = free_tail p s1" using nz up lp1 n0 by (simp add: free_def)
  show ?thesis
  proof (cases "p = first s")
    case True
    then have "free_walk p s1 = Some (Inr p)" using same by (simp add: free_walk.simps)
    then show ?thesis using fr True same by (simp add: free_tail_def)
  next
    case False
    have nf: "first s \<noteq> 0" using api_inv_empty_hdrs [OF inv] hp by auto
    obtain hf where hf: "hdrs s (first s) = Some hf" using api_inv_first [OF inv nf] by metis
    have lf1: "load s1 (first s) = Inr hf"
      using api_inv_load_first [OF inv nf hf] False same by (simp add: load_Inr s1_def)
    have pv: "hprev h = first s" using hk False by (simp add: hdr_ok_def)
    have "free_walk p s1 = Some (Inr (if hfree hf then first s else p))"
      using False lp1 lf1 pv same by (simp add: free_walk.simps [of p] free_walk.simps [of "first s"])
    then show ?thesis using fr False hf same by (simp add: free_tail_def)
  qed
qed

lemma free_api_nohdr: "a \<noteq> 0 \<Longrightarrow> hdrs s (a - HDR_SIZE) = None \<Longrightarrow> \<exists>e. free a s = Some (Inl e)"
  by (auto simp: free_def upd_hdr_def load_def Let_def)

lemma free_api_result:
  assumes inv: "api_inv s" and run: "free a s = Some (Inr s')" and a0: "a \<noteq> 0"
  obtains h where "hdrs s (a - 32) = Some h"
    and "s' = (if a - 32 = first s \<or> (\<exists>hf. hdrs s (first s) = Some hf \<and> hfree hf)
               then brk (first s) (s\<lparr>hdrs := (hdrs s)(a - 32 \<mapsto> h\<lparr>hfree := True\<rparr>), first := 0\<rparr>)
               else brk (a - 32) (s\<lparr>hdrs := (hdrs s)(a - 32 \<mapsto> h\<lparr>hfree := True\<rparr>)\<rparr>))"
proof -
  obtain h where hp: "hdrs s (a - 32) = Some h"
    using free_api_nohdr [of a s] run a0 by (cases "hdrs s (a - 32)") auto
  let ?X = "if a - 32 = first s \<or> (\<exists>hf. hdrs s (first s) = Some hf \<and> hfree hf)
               then brk (first s) (s\<lparr>hdrs := (hdrs s)(a - 32 \<mapsto> h\<lparr>hfree := True\<rparr>), first := 0\<rparr>)
               else brk (a - 32) (s\<lparr>hdrs := (hdrs s)(a - 32 \<mapsto> h\<lparr>hfree := True\<rparr>)\<rparr>)"
  have ea: "a - 32 + HDR_SIZE = a" by simp
  have "free a s = Some (Inr ?X)" using free_api_step [OF inv hp] unfolding ea by (simp split del: if_split)
  then have "s' = ?X" using run by (simp split del: if_split)
  then show ?thesis by (rule that [OF hp])
qed

lemma free_inv:
  assumes inv: "api_inv s" and run: "free a s = Some (Inr s')"
  shows "api_inv s'"
proof (cases "a = 0")
  case True
  then show ?thesis using inv run by (simp add: free_def)
next
  case False
  obtain h where hp: "hdrs s (a - 32) = Some h"
    and e: "s' = (if a - 32 = first s \<or> (\<exists>hf. hdrs s (first s) = Some hf \<and> hfree hf)
               then brk (first s) (s\<lparr>hdrs := (hdrs s)(a - 32 \<mapsto> h\<lparr>hfree := True\<rparr>), first := 0\<rparr>)
               else brk (a - 32) (s\<lparr>hdrs := (hdrs s)(a - 32 \<mapsto> h\<lparr>hfree := True\<rparr>)\<rparr>))"
    by (rule free_api_result [OF inv run False])
  define s1 where "s1 = s\<lparr>hdrs := (hdrs s)(a - 32 \<mapsto> h\<lparr>hfree := True\<rparr>)\<rparr>"
  have inv1: "api_inv s1" using api_inv_set_free [OF inv hp] by (simp add: s1_def)
  have hp1: "hdrs s1 (a - 32) = Some (h\<lparr>hfree := True\<rparr>)" and f1: "first s1 = first s"
    by (simp_all add: s1_def)
  have nf1: "first s1 \<noteq> 0" using api_inv_empty_hdrs [OF inv1] hp1 by auto
  show ?thesis
  proof (cases "a - 32 = first s \<or> (\<exists>hf. hdrs s (first s) = Some hf \<and> hfree hf)")
    case True
    then have "s' = brk (first s1) (s1\<lparr>first := 0\<rparr>)" using e f1 by (simp add: s1_def)
    then show ?thesis using api_inv_release_all(1) [OF inv1 nf1] by simp
  next
    case False
    have "s' = brk (a - 32) s1" using e [unfolded if_not_P [OF False]] by (simp add: s1_def)
    moreover have ne: "a - 32 \<noteq> first s1" using False f1 by simp
    ultimately show ?thesis using api_inv_release_above [OF inv1 hp1 ne] by simp
  qed
qed

text \<open>
  \<^verbatim>\<open>free_with_caution\<close> from a state of the invariant: the chain holds the first block
  only, so it frees exactly the data pointer of the first block and ignores every other.
\<close>

lemma free_with_caution_exact:
  assumes inv: "api_inv s"
  shows "free_with_caution a s =
           (if a \<noteq> 0 \<and> first s \<noteq> 0 \<and> a - 32 = first s then free a s else Some (Inr s))"
proof (cases "a = 0 \<or> first s = 0")
  case True
  then show ?thesis by (auto simp: free_with_caution_def caution_scan.simps [of _ 0])
next
  case False
  then have a0: "a \<noteq> 0" and nf: "first s \<noteq> 0" by simp_all
  obtain hf where hf: "hdrs s (first s) = Some hf" "hnext hf = 0" using api_inv_first [OF inv nf] by metis
  have lf: "load s (first s) = Inr hf" by (rule api_inv_load_first [OF inv nf hf(1)])
  show ?thesis
  proof (cases "first s = a - 32")
    case True
    then show ?thesis
      using a0 nf by (simp add: free_with_caution_def free_def Let_def caution_scan.simps [of "a - 32" "a - 32"])
  next
    case False
    then show ?thesis
      using a0 nf lf hf(2) by (auto simp: free_with_caution_def caution_scan.simps [of "a - 32" "first s"]
                                        caution_scan.simps [of "a - 32" 0])
  qed
qed

lemma free_with_caution_api:
  assumes inv: "api_inv s"
  shows "free_with_caution a s = Some (Inr s) \<or> free_with_caution a s = free a s"
  using free_with_caution_exact [OF inv, of a] by (auto split: if_splits)

lemma api_step_inv: "api_inv s \<Longrightarrow> api_step c s = Some (Inr s') \<Longrightarrow> api_inv s'"
proof (cases c)
  case (Malloc n)
  assume inv: "api_inv s" and st: "api_step c s = Some (Inr s')"
  then obtain p where "malloc n s = Some (Inr (p, s'))" using Malloc
    by (auto simp: bindL_snd_Inr)
  then show ?thesis by (rule malloc_inv [OF inv])
next
  case (Free a)
  then show "api_inv s \<Longrightarrow> api_step c s = Some (Inr s') \<Longrightarrow> api_inv s'" by (simp add: free_inv)
next
  case (Free_with_caution a)
  assume inv: "api_inv s" and st: "api_step c s = Some (Inr s')"
  from free_with_caution_api [OF inv, of a] show ?thesis
  proof
    assume "free_with_caution a s = Some (Inr s)"
    then show ?thesis using st Free_with_caution inv by simp
  next
    assume "free_with_caution a s = free a s"
    then have "free a s = Some (Inr s')" using st Free_with_caution by simp
    then show ?thesis by (rule free_inv [OF inv])
  qed
qed

lemma reachable_inv:
  assumes "reachable lo hi s" and "lo \<noteq> 0" and "lo \<le> hi"
  shows "api_inv s"
  using assms
proof (induction rule: reachable.induct)
  case reach_init
  then show ?case by (simp add: api_inv_def init_state_def)
next
  case (reach_step s c s')
  then show ?case using api_step_inv by blast
qed

lemma reachable_run:
  "reachable lo hi s \<Longrightarrow> run_calls cs s = Some (Inr s') \<Longrightarrow> reachable lo hi s'"
proof (induction cs arbitrary: s)
  case Nil
  then show ?case by simp
next
  case (Cons c cs)
  from Cons.prems(2) obtain s1 where st: "api_step c s = Some (Inr s1)" and rest: "run_calls cs s1 = Some (Inr s')"
    by (cases "api_step c s") (auto simp: bindO_def split: sum.splits)
  show ?case by (rule Cons.IH [OF reachable.reach_step [OF Cons.prems(1) st] rest])
qed

lemma two_blocks_run:
  "\<exists>s. run_calls [Malloc 32, Malloc 32] (init_state 4096 65536) = Some (Inr s) \<and>
       first s = 4096 \<and> heap_start s = 4096 \<and> heap_brk s = 4224 \<and>
       hdrs s 4096 = Some \<lparr>hnext = 0, hprev = 0, hsize = 32, hfree = False\<rparr> \<and>
       hdrs s 4160 = Some \<lparr>hnext = 0, hprev = 4096, hsize = 32, hfree = False\<rparr>"
  by (simp add: malloc_def malloc_scan.simps [of 32 0 0] malloc_scan.simps [of 32 4096 0]
       malloc_scan.simps [of 32 0 4096] coalesce.simps [of 4096] free_walk.simps [of 4096]
       malloc_extend_def sbrk_def init_state_def new_hdr_def in_heap_def set_break_def clobber_def
       overlaps_def load_def upd_hdr_def free_def free_tail_def brk_def)

end
