(* ===== verification/Api_Runs.thy ===== *)
theory Api_Runs
  imports Api_Calls
begin

text \<open>
  What a client of the allocator can rely on across calls, in the states reachable from
  the initial one through \<^verbatim>\<open>malloc\<close>, \<^verbatim>\<open>free\<close> and \<^verbatim>\<open>free_with_caution\<close>
  (\<open>reachable\<close> of \<open>Api_Calls\<close>): every call returns, every header's block lies inside
  the heap and no two blocks overlap (\<open>blocks_ok\<close>), an allocation grants at least the
  requested size, and freeing what \<^verbatim>\<open>malloc\<close> has just returned undoes the allocation.
  No header is ever free (\<open>all_used\<close>): \<^verbatim>\<open>free\<close> of any block lowers the break to it
  and releases every block allocated after it, so \<^verbatim>\<open>malloc\<close> always grows the heap.
\<close>

section \<open>The layout of the blocks\<close>

text \<open>
  Every header's block (header and data) ends at or below the break, and a block ends at
  or below the header of any block above it.
\<close>

definition blocks_ok :: "mstate \<Rightarrow> bool" where
  "blocks_ok s \<longleftrightarrow>
     (\<forall>q h. hdrs s q = Some h \<longrightarrow> unat q + 32 + unat (hsize h) \<le> unat (heap_brk s)) \<and>
     (\<forall>q h q' h'. hdrs s q = Some h \<longrightarrow> hdrs s q' = Some h' \<longrightarrow> unat q < unat q' \<longrightarrow>
        unat q + 32 + unat (hsize h) \<le> unat q')"

text \<open>No header is marked free.\<close>

definition all_used :: "mstate \<Rightarrow> bool" where
  "all_used s \<longleftrightarrow> (\<forall>q h. hdrs s q = Some h \<longrightarrow> \<not> hfree h)"

section \<open>Lemmas\<close>

text \<open>A state whose headers are headers of \<open>s\<close> with the same sizes, under the same break.\<close>

lemma blocks_ok_sizes:
  assumes ok: "blocks_ok s" and b: "unat (heap_brk s') \<le> unat (heap_brk s)"
    and sz: "\<And>q h'. hdrs s' q = Some h' \<Longrightarrow> \<exists>h. hdrs s q = Some h \<and> hsize h = hsize h'"
    and lo: "\<And>q h'. hdrs s' q = Some h' \<Longrightarrow> unat q + 32 + unat (hsize h') \<le> unat (heap_brk s')"
  shows "blocks_ok s'"
  unfolding blocks_ok_def
proof (intro conjI allI impI)
  fix q h' assume "hdrs s' q = Some h'"
  then show "unat q + 32 + unat (hsize h') \<le> unat (heap_brk s')" by (rule lo)
next
  fix q h' q2 h2' assume q: "hdrs s' q = Some h'" and q2: "hdrs s' q2 = Some h2'" and lt: "unat q < unat q2"
  obtain h h2 where "hdrs s q = Some h" "hsize h = hsize h'" "hdrs s q2 = Some h2"
    using sz [OF q] sz [OF q2] by blast
  then show "unat q + 32 + unat (hsize h') \<le> unat q2" using ok lt unfolding blocks_ok_def by metis
qed

lemma blocks_ok_set_flag:
  assumes ok: "blocks_ok s" and hq: "hdrs s q = Some h"
  shows "blocks_ok (s\<lparr>hdrs := (hdrs s)(q \<mapsto> h\<lparr>hfree := f\<rparr>), first := x\<rparr>)"
proof (rule blocks_ok_sizes [OF ok])
  fix p h' assume "hdrs (s\<lparr>hdrs := (hdrs s)(q \<mapsto> h\<lparr>hfree := f\<rparr>), first := x\<rparr>) p = Some h'"
  then obtain g where g: "hdrs s p = Some g" "hsize g = hsize h'" using hq by (auto split: if_splits)
  then show "\<exists>g. hdrs s p = Some g \<and> hsize g = hsize h'" by blast
  have "unat p + 32 + unat (hsize g) \<le> unat (heap_brk s)" using ok g(1) unfolding blocks_ok_def by blast
  then show "unat p + 32 + unat (hsize h') \<le> unat (heap_brk (s\<lparr>hdrs := (hdrs s)(q \<mapsto> h\<lparr>hfree := f\<rparr>), first := x\<rparr>))"
    using g(2) by simp
qed simp

text \<open>Lowering the break to the header of a block keeps every block below it.\<close>

lemma blocks_ok_brk:
  assumes ok: "blocks_ok s" and hp: "hdrs s p = Some hp"
  shows "blocks_ok (brk p s)"
proof (cases "heap_start s \<le> p \<and> p \<le> heap_max s")
  case False
  show ?thesis unfolding brk_def if_not_P [OF False] by (rule ok)
next
  case True
  then have b: "brk p s = set_break p s" by (simp add: brk_def)
  have kept: "hdrs s q = Some h \<and> unat q + 32 \<le> unat p" if "hdrs (set_break p s) q = Some h" for q h
    using that by (simp add: set_break_def split: if_splits)
  have "unat p + 32 + unat (hsize hp) \<le> unat (heap_brk s)" using ok hp unfolding blocks_ok_def by blast
  then have "unat p \<le> unat (heap_brk s)" by linarith
  moreover have "unat q + 32 + unat (hsize h) \<le> unat p" if "hdrs (set_break p s) q = Some h" for q h
  proof -
    have "hdrs s q = Some h" and "unat q < unat p" using kept [OF that] by auto
    then show ?thesis using ok hp unfolding blocks_ok_def by blast
  qed
  ultimately show ?thesis unfolding b
    by (intro blocks_ok_sizes [OF ok]) (auto simp: set_break_def split: if_splits)
qed

text \<open>The two outcomes of \<^verbatim>\<open>malloc\<close> from a state of the invariant, with the state after it.\<close>

lemma malloc_api_run:
  assumes inv: "api_inv s" and run: "malloc n s = Some (Inr (p, s'))"
  shows "(p = heap_brk s + 32 \<and> unat (heap_brk s') = unat (heap_brk s) + unat (max n 32) + 32 \<and>
          s' = s\<lparr>first := (if first s = 0 then heap_brk s else first s),
                 hdrs := (hdrs s)(heap_brk s \<mapsto> \<lparr>hnext = 0, hprev = first s, hsize = max n 32, hfree = False\<rparr>),
                 heap_brk := heap_brk s + (max n 32 + 32)\<rparr>) \<or>
         (\<exists>h. first s \<noteq> 0 \<and> hdrs s (first s) = Some h \<and> hfree h \<and> max n 32 \<le> hsize h \<and>
              p = first s + 32 \<and> s' = s\<lparr>hdrs := (hdrs s)(first s \<mapsto> h\<lparr>hfree := False\<rparr>)\<rparr>)"
  using malloc_api_cases [OF inv, of n]
proof
  assume "malloc n s = Some (malloc_extend (max n MIN_BLOCK_SIZE) (first s) s)"
  then have "malloc_extend (max n 32) (first s) s = Inr (p, s')" using run by simp
  note e = malloc_extend_api [OF inv this]
  have e1: "p = heap_brk s + 32"
    and e2: "unat (heap_brk s + (max n 32 + 32)) = unat (heap_brk s) + unat (max n 32) + 32"
    and e3: "s' = s\<lparr>first := (if first s = 0 then heap_brk s else first s),
                 hdrs := (hdrs s)(heap_brk s \<mapsto> \<lparr>hnext = 0, hprev = first s, hsize = max n 32, hfree = False\<rparr>),
                 heap_brk := heap_brk s + (max n 32 + 32)\<rparr>"
    using e by blast+
  show ?thesis using e1 e2 e3 by simp
next
  assume "\<exists>h. first s \<noteq> 0 \<and> hdrs s (first s) = Some h \<and> hfree h \<and> max n MIN_BLOCK_SIZE \<le> hsize h \<and>
              malloc n s = Some (fit_then_split (max n MIN_BLOCK_SIZE) (first s) s)"
  then obtain h where nf: "first s \<noteq> 0" and hf: "hdrs s (first s) = Some h" and fr: "hfree h"
    and sz: "max n 32 \<le> hsize h" and m: "malloc n s = Some (fit_then_split (max n 32) (first s) s)"
    by auto
  have "fit_then_split (max n 32) (first s) s = Inr (p, s')" using m run by simp
  from fit_first_api [OF inv nf hf this] show ?thesis using nf hf fr sz by blast
qed

lemma malloc_blocks_ok:
  assumes inv: "api_inv s" and ok: "blocks_ok s" and run: "malloc n s = Some (Inr (p, s'))"
  shows "blocks_ok s'"
  using malloc_api_run [OF inv run]
proof
  let ?B = "heap_brk s" and ?H = "\<lparr>hnext = 0, hprev = first s, hsize = max n 32, hfree = False\<rparr>"
  assume e: "p = ?B + 32 \<and> unat (heap_brk s') = unat ?B + unat (max n 32) + 32 \<and>
          s' = s\<lparr>first := (if first s = 0 then ?B else first s), hdrs := (hdrs s)(?B \<mapsto> ?H),
                 heap_brk := ?B + (max n 32 + 32)\<rparr>"
  then have ub: "unat (heap_brk s') = unat ?B + unat (max n 32) + 32"
    and "s' = s\<lparr>first := (if first s = 0 then ?B else first s), hdrs := (hdrs s)(?B \<mapsto> ?H),
                 heap_brk := ?B + (max n 32 + 32)\<rparr>" by blast+
  then have hs: "hdrs s' = (hdrs s)(?B \<mapsto> ?H)" by simp
  have old: "unat q + 32 \<le> unat ?B" if "hdrs s q = Some h" for q h
    using api_inv_hdr [OF inv that] by (simp add: hdr_ok_def)
  have inb: "unat q + 32 + unat (hsize h) \<le> unat ?B" if "hdrs s q = Some h" for q h
    using ok that unfolding blocks_ok_def by blast
  have pw: "unat q + 32 + unat (hsize h) \<le> unat q'"
    if "hdrs s q = Some h" "hdrs s q' = Some h'" "unat q < unat q'" for q h q' h'
    using ok that unfolding blocks_ok_def by blast
  show ?thesis unfolding blocks_ok_def
  proof (intro conjI allI impI)
    fix q h assume "hdrs s' q = Some h"
    then show "unat q + 32 + unat (hsize h) \<le> unat (heap_brk s')"
      using inb ub hs by (fastforce split: if_splits)
  next
    fix q h q' h' assume q: "hdrs s' q = Some h" and q': "hdrs s' q' = Some h'" and lt: "unat q < unat q'"
    show "unat q + 32 + unat (hsize h) \<le> unat q'"
    proof (cases "q' = ?B")
      case True
      then have "q \<noteq> ?B" using lt by auto
      then show ?thesis using q hs inb True by auto
    next
      case False
      then have h0': "hdrs s q' = Some h'" using q' hs by simp
      then have "q \<noteq> ?B" using old lt by fastforce
      then show ?thesis using q hs pw [OF _ h0' lt] by auto
    qed
  qed
next
  assume "\<exists>h. first s \<noteq> 0 \<and> hdrs s (first s) = Some h \<and> hfree h \<and> max n 32 \<le> hsize h \<and>
              p = first s + 32 \<and> s' = s\<lparr>hdrs := (hdrs s)(first s \<mapsto> h\<lparr>hfree := False\<rparr>)\<rparr>"
  then obtain h where hf: "hdrs s (first s) = Some h"
    and s': "s' = s\<lparr>hdrs := (hdrs s)(first s \<mapsto> h\<lparr>hfree := False\<rparr>)\<rparr>" by blast
  show ?thesis using blocks_ok_set_flag [OF ok hf, where f = False and x = "first s"] s' by simp
qed

lemma free_blocks_ok:
  assumes inv: "api_inv s" and ok: "blocks_ok s" and run: "free a s = Some (Inr s')"
  shows "blocks_ok s'"
proof (cases "a = 0")
  case True
  then show ?thesis using ok run by (simp add: free_def)
next
  case False
  obtain h where hp: "hdrs s (a - 32) = Some h"
    and e: "s' = (if a - 32 = first s \<or> (\<exists>hf. hdrs s (first s) = Some hf \<and> hfree hf)
               then brk (first s) (s\<lparr>hdrs := (hdrs s)(a - 32 \<mapsto> h\<lparr>hfree := True\<rparr>), first := 0\<rparr>)
               else brk (a - 32) (s\<lparr>hdrs := (hdrs s)(a - 32 \<mapsto> h\<lparr>hfree := True\<rparr>)\<rparr>))"
    by (rule free_api_result [OF inv run False])
  have nf: "first s \<noteq> 0" using api_inv_empty_hdrs [OF inv] hp by auto
  obtain hf where hf: "hdrs s (first s) = Some hf" using api_inv_first [OF inv nf] by metis
  show ?thesis
  proof (cases "a - 32 = first s \<or> (\<exists>hf. hdrs s (first s) = Some hf \<and> hfree hf)")
    case True
    let ?s1 = "s\<lparr>hdrs := (hdrs s)(a - 32 \<mapsto> h\<lparr>hfree := True\<rparr>), first := 0\<rparr>"
    have "\<exists>g. hdrs ?s1 (first s) = Some g" using hf by simp
    then show ?thesis using e [unfolded if_P [OF True]] blocks_ok_brk blocks_ok_set_flag [OF ok hp, where f = True and x = 0] by blast
  next
    case False
    let ?s1 = "s\<lparr>hdrs := (hdrs s)(a - 32 \<mapsto> h\<lparr>hfree := True\<rparr>), first := first s\<rparr>"
    have "blocks_ok (brk (a - 32) ?s1)" by (rule blocks_ok_brk [OF blocks_ok_set_flag [OF ok hp, where f = True and x = "first s"]]) simp
    then show ?thesis using e [unfolded if_not_P [OF False]] by simp
  qed
qed

lemma api_step_blocks_ok:
  assumes inv: "api_inv s" and ok: "blocks_ok s" and st: "api_step c s = Some (Inr s')"
  shows "blocks_ok s'"
proof (cases c)
  case (Malloc n)
  then obtain p where "malloc n s = Some (Inr (p, s'))" using st by (auto simp: bindL_snd_Inr)
  then show ?thesis by (rule malloc_blocks_ok [OF inv ok])
next
  case (Free a)
  then show ?thesis using free_blocks_ok [OF inv ok] st by simp
next
  case (Free_with_caution a)
  from free_with_caution_api [OF inv, of a] show ?thesis
  proof
    assume "free_with_caution a s = Some (Inr s)"
    then show ?thesis using st Free_with_caution ok by simp
  next
    assume "free_with_caution a s = free a s"
    then show ?thesis using st Free_with_caution free_blocks_ok [OF inv ok] by simp
  qed
qed

lemma reachable_blocks_ok:
  assumes "reachable lo hi s" and "lo \<noteq> 0" and "lo \<le> hi"
  shows "blocks_ok s"
  using assms
proof (induction rule: reachable.induct)
  case reach_init
  then show ?case by (simp add: blocks_ok_def init_state_def)
next
  case (reach_step s c s')
  then show ?case using api_step_blocks_ok reachable_inv by blast
qed

text \<open>
  When no header is free, \<^verbatim>\<open>free\<close> of a header's data pointer always gives back the
  memory from that header up: the walk stops at once, or releases everything at the
  first block.
\<close>

lemma free_api_release:
  assumes inv: "api_inv s" and u: "all_used s" and hq: "hdrs s q = Some h"
  shows "free (q + HDR_SIZE) s =
           Some (Inr (s\<lparr>first := (if q = first s then 0 else first s),
                        hdrs := (\<lambda>x. if unat q < unat x + 32 then None else hdrs s x),
                        heap_brk := q\<rparr>))"
proof -
  let ?s1 = "s\<lparr>hdrs := (hdrs s)(q \<mapsto> h\<lparr>hfree := True\<rparr>)\<rparr>"
  have nf: "\<not> (\<exists>hf. hdrs s (first s) = Some hf \<and> hfree hf)" using u by (auto simp: all_used_def)
  have "unat (heap_start s) \<le> unat q" "unat q + 32 \<le> unat (heap_brk s)"
    using api_inv_hdr [OF inv hq] by (simp_all add: hdr_ok_def)
  moreover have "heap_brk s \<le> heap_max s" using inv by (simp add: api_inv_def)
  ultimately have g: "heap_start s \<le> q \<and> q \<le> heap_max s" by (simp add: word_le_nat_alt)
  have e: "free (q + HDR_SIZE) s = Some (Inr (brk q (?s1\<lparr>first := (if q = first s then 0 else first s)\<rparr>)))"
    using free_api_step [OF inv hq] nf by (cases "q = first s") simp_all
  have "brk q (?s1\<lparr>first := (if q = first s then 0 else first s)\<rparr>) =
        s\<lparr>first := (if q = first s then 0 else first s),
          hdrs := (\<lambda>x. if unat q < unat x + 32 then None else hdrs s x), heap_brk := q\<rparr>" (is "?l = ?r")
  proof (rule mstate.equality)
    show "hdrs ?l = hdrs ?r" using g by (auto simp: brk_def set_break_def)
  qed (use g in \<open>simp_all add: brk_def set_break_def\<close>)
  then show ?thesis using e by simp
qed

text \<open>When no header is free, \<^verbatim>\<open>malloc\<close> never takes a block: it always grows the heap.\<close>

text \<open>
  A \<^verbatim>\<open>free\<close> that returns, from a state of the invariants, is either \<^verbatim>\<open>free(NULL)\<close> or
  the release of a header and every header above it.
\<close>

lemma free_api_ok:
  assumes inv: "api_inv s" and u: "all_used s" and fa: "free a s = Some (Inr s')"
  shows "(a = 0 \<and> s' = s) \<or>
         (\<exists>h. a \<noteq> 0 \<and> hdrs s (a - 32) = Some h \<and>
              s' = s\<lparr>first := (if a - 32 = first s then 0 else first s),
                     hdrs := (\<lambda>x. if unat (a - 32) < unat x + 32 then None else hdrs s x),
                     heap_brk := a - 32\<rparr>)"
proof (cases "a = 0")
  case True
  then show ?thesis using fa by (simp add: free_def)
next
  case False
  obtain h where hq: "hdrs s (a - 32) = Some h"
    using free_api_nohdr [OF False, of s] fa by (cases "hdrs s (a - 32)") auto
  have "a - 32 + HDR_SIZE = a" by simp
  then show ?thesis using free_api_release [OF inv u hq] fa hq False by auto
qed

lemma malloc_api_used:
  assumes inv: "api_inv s" and u: "all_used s" and m: "malloc n s = Some (Inr (p, s'))"
  shows "p = heap_brk s + 32 \<and> unat (heap_brk s') = unat (heap_brk s) + unat (max n 32) + 32 \<and>
         s' = s\<lparr>first := (if first s = 0 then heap_brk s else first s),
                hdrs := (hdrs s)(heap_brk s \<mapsto> \<lparr>hnext = 0, hprev = first s, hsize = max n 32, hfree = False\<rparr>),
                heap_brk := heap_brk s + (max n 32 + 32)\<rparr>"
  using malloc_api_run [OF inv m] u by (auto simp: all_used_def)

lemma api_step_all_used:
  assumes inv: "api_inv s" and u: "all_used s" and st: "api_step c s = Some (Inr s')"
  shows "all_used s'"
proof -
  have fr: "all_used s'" if fa: "free a s = Some (Inr s')" for a
    using free_api_ok [OF inv u fa] u by (auto simp: all_used_def split: if_splits)
  show ?thesis
  proof (cases c)
    case (Malloc n)
    then obtain p where "malloc n s = Some (Inr (p, s'))" using st by (auto simp: bindL_snd_Inr)
    then have "s' = s\<lparr>first := (if first s = 0 then heap_brk s else first s),
                hdrs := (hdrs s)(heap_brk s \<mapsto> \<lparr>hnext = 0, hprev = first s, hsize = max n 32, hfree = False\<rparr>),
                heap_brk := heap_brk s + (max n 32 + 32)\<rparr>"
      using malloc_api_used [OF inv u] by blast
    then have "hdrs s' = (hdrs s)(heap_brk s \<mapsto> \<lparr>hnext = 0, hprev = first s, hsize = max n 32, hfree = False\<rparr>)"
      by simp
    then show ?thesis using u by (simp add: all_used_def)
  next
    case (Free a)
    then show ?thesis using fr st by simp
  next
    case (Free_with_caution a)
    then show ?thesis using free_with_caution_api [OF inv, of a] fr st u by auto
  qed
qed

lemma reachable_all_used:
  assumes "reachable lo hi s" and "lo \<noteq> 0" and "lo \<le> hi"
  shows "all_used s"
  using assms
proof (induction rule: reachable.induct)
  case reach_init
  then show ?case by (simp add: all_used_def init_state_def)
next
  case (reach_step s c s')
  then show ?case using api_step_all_used reachable_inv by blast
qed

lemma free_api_returns:
  assumes inv: "api_inv s"
  shows "free a s \<noteq> None"
proof (cases "a = 0")
  case True
  then show ?thesis by (simp add: free_def)
next
  case False
  show ?thesis
  proof (cases "hdrs s (a - 32)")
    case None
    then show ?thesis using free_api_nohdr [OF False] by auto
  next
    case (Some h)
    have "a - 32 + HDR_SIZE = a" by simp
    then show ?thesis using free_api_step [OF inv Some] by (simp split del: if_split)
  qed
qed

lemma api_step_returns:
  assumes inv: "api_inv s"
  shows "api_step c s \<noteq> None"
proof (cases c)
  case (Malloc n)
  have "malloc n s \<noteq> None" using malloc_api_cases [OF inv, of n] by auto
  then obtain r where "malloc n s = Some r" by blast
  then show ?thesis using Malloc by (cases r) auto
next
  case (Free a)
  then show ?thesis using free_api_returns [OF inv] by simp
next
  case (Free_with_caution a)
  then show ?thesis using free_with_caution_api [OF inv, of a] free_api_returns [OF inv, of a] by auto
qed

text \<open>
  An \<^verbatim>\<open>sbrk\<close> whose increment is below \<open>2^63\<close> never lowers the break, so it keeps every
  header, whether it succeeds or not.
\<close>

lemma api_inv_sbrk_up:
  assumes inv: "api_inv s" and small: "unat d < 2 ^ 63" and sb: "sbrk d s = (r, s1)"
  shows "hdrs s1 = hdrs s \<and> unat (heap_brk s) \<le> unat (heap_brk s1) \<and> heap_start s1 = heap_start s"
proof (cases "uint (heap_start s) \<le> uint (heap_brk s) + sint d \<and> uint (heap_brk s) + sint d \<le> uint (heap_max s)")
  case True
  then have "sbrk d s = (heap_brk s, set_break (heap_brk s + d) s)" by (simp add: sbrk_def Let_def)
  then have s1: "s1 = set_break (heap_brk s + d) s" using sb by (metis prod.inject)
  have "sint d = int (unat d)" by (rule sint_small [OF small])
  then have "int (unat (heap_brk s) + unat d) \<le> int (unat (heap_max s))" using True by simp
  then have le: "unat (heap_brk s) + unat d \<le> unat (heap_max s)" by (simp only: of_nat_le_iff)
  then have "unat (heap_brk s + d) = unat (heap_brk s) + unat d"
    using unat_lt_2p64 [of "heap_max s"] by (simp add: unat_add_nowrap)
  then have "unat (heap_brk s) \<le> unat (heap_brk s + d)" by simp
  moreover note api_inv_keep_below [OF inv this]
  ultimately show ?thesis using s1 by (simp add: set_break_def)
next
  case False
  then have "s1 = s" using sb sbrk_fail [OF False] by (metis prod.inject)
  then show ?thesis by simp
qed

text \<open>Three allocations of 32 bytes from an empty heap at 4096.\<close>

lemma three_blocks_run:
  "\<exists>s. run_calls [Malloc 32, Malloc 32, Malloc 32] (init_state 4096 65536) = Some (Inr s) \<and>
       first s = 4096 \<and> heap_brk s = 4288 \<and>
       hdrs s 4096 = Some \<lparr>hnext = 0, hprev = 0, hsize = 32, hfree = False\<rparr> \<and>
       hdrs s 4160 = Some \<lparr>hnext = 0, hprev = 4096, hsize = 32, hfree = False\<rparr> \<and>
       hdrs s 4224 = Some \<lparr>hnext = 0, hprev = 4096, hsize = 32, hfree = False\<rparr>"
  by (simp add: malloc_def malloc_scan.simps [of 32 0 0] malloc_scan.simps [of 32 4096 0]
       malloc_scan.simps [of 32 0 4096] coalesce.simps [of 4096]
       malloc_extend_def sbrk_def init_state_def new_hdr_def in_heap_def set_break_def clobber_def
       overlaps_def load_def)

section \<open>Properties of runs of calls\<close>

text \<open>
  C28. From the initial state every sequence of calls returns: no call of
  \<^verbatim>\<open>malloc\<close>, \<^verbatim>\<open>free\<close> or \<^verbatim>\<open>free_with_caution\<close>, whatever its argument, loops
  forever; each either returns or faults.
\<close>

theorem run_calls_returns:
  assumes "lo \<noteq> 0" and "lo \<le> hi"
  shows "run_calls cs (init_state lo hi) \<noteq> None"
proof -
  have "run_calls cs s \<noteq> None" if "reachable lo hi s" for s
    using that
  proof (induction cs arbitrary: s)
    case Nil
    then show ?case by simp
  next
    case (Cons c cs)
    have "api_step c s \<noteq> None" by (rule api_step_returns [OF reachable_inv [OF Cons.prems assms]])
    then obtain r where st: "api_step c s = Some r" by blast
    show ?case
    proof (cases r)
      case (Inl e)
      then show ?thesis using st by simp
    next
      case (Inr s1)
      have "reachable lo hi s1" using reachable.reach_step [OF Cons.prems] st Inr by simp
      then show ?thesis using Cons.IH st Inr by simp
    qed
  qed
  then show ?thesis using reachable.reach_init by blast
qed

theorem run_calls_returns_witness:
  "(4096 :: addr) \<noteq> 0 \<and> (4096 :: addr) \<le> 65536 \<and>
   run_calls [Malloc 32, Malloc 32, Free 4192, Free_with_caution 4128, Free 4128] (init_state 4096 65536) \<noteq> None"
proof -
  have "(4096 :: addr) \<noteq> 0" and "(4096 :: addr) \<le> 65536" by simp_all
  then show ?thesis using run_calls_returns [of 4096 65536] by blast
qed

text \<open>
  C29. In every reachable state, \<^verbatim>\<open>free\<close> of the pointer \<^verbatim>\<open>malloc\<close> has just
  returned gives back exactly the state before the allocation: the break, the directory
  and every header are restored.
\<close>

text \<open>
  Releasing everything from the break of a state of the invariant on gives that state back,
  from any state that agrees with it below that break and differs only by headers
  allocated at or above it.
\<close>

lemma release_at_brk:
  assumes inv: "api_inv s"
    and f: "first t = (if first s = 0 then heap_brk s else first s)"
    and below: "\<And>x. unat x + 32 \<le> unat (heap_brk s) \<Longrightarrow> hdrs t x = hdrs s x"
    and fr: "dat t = dat s" "heap_start t = heap_start s" "heap_max t = heap_max s"
  shows "t\<lparr>first := (if heap_brk s = first t then 0 else first t),
           hdrs := (\<lambda>x. if unat (heap_brk s) < unat x + 32 then None else hdrs t x),
           heap_brk := heap_brk s\<rparr> = s" (is "?r = s")
proof (rule mstate.equality)
  show "hdrs ?r = hdrs s"
  proof
    fix x
    show "hdrs ?r x = hdrs s x"
      using fun_cong [OF api_inv_keep_below [OF inv order_refl], of x] below [of x]
      by (auto split: if_splits)
  qed
  have "heap_brk s \<noteq> first s" if "first s \<noteq> 0"
  proof -
    have "unat (first s) + 32 \<le> unat (heap_brk s)" using api_inv_first [OF inv that] by metis
    then show ?thesis by auto
  qed
  then show "first ?r = first s" using f by auto
qed (simp_all add: fr)

theorem malloc_free_roundtrip:
  assumes r: "reachable lo hi s" and lo: "lo \<noteq> 0" "lo \<le> hi"
    and m: "malloc n s = Some (Inr (p, s'))"
  shows "free p s' = Some (Inr s)"
proof -
  let ?B = "heap_brk s" and ?H = "\<lparr>hnext = 0, hprev = first s, hsize = max n 32, hfree = False\<rparr>"
  have inv: "api_inv s" by (rule reachable_inv [OF r lo])
  have u: "all_used s" by (rule reachable_all_used [OF r lo])
  have "api_step (Malloc n) s = Some (Inr s')" using m by simp
  then have r': "reachable lo hi s'" by (rule reachable.reach_step [OF r])
  have inv': "api_inv s'" and u': "all_used s'"
    using reachable_inv [OF r' lo] reachable_all_used [OF r' lo] by simp_all
  have p: "p = ?B + HDR_SIZE"
    and s': "s' = s\<lparr>first := (if first s = 0 then ?B else first s),
                 hdrs := (hdrs s)(?B \<mapsto> ?H), heap_brk := ?B + (max n 32 + 32)\<rparr>"
    using malloc_api_used [OF inv u m] by simp_all
  have hB: "hdrs s' ?B = Some ?H" using s' by simp
  have "free p s' = Some (Inr (s'\<lparr>first := (if ?B = first s' then 0 else first s'),
          hdrs := (\<lambda>x. if unat ?B < unat x + 32 then None else hdrs s' x), heap_brk := ?B\<rparr>))"
    using free_api_release [OF inv' u' hB] unfolding p .
  moreover have "s'\<lparr>first := (if ?B = first s' then 0 else first s'),
          hdrs := (\<lambda>x. if unat ?B < unat x + 32 then None else hdrs s' x), heap_brk := ?B\<rparr> = s"
    by (rule release_at_brk [OF inv]) (auto simp: s')
  ultimately show ?thesis by simp
qed

theorem malloc_free_roundtrip_witness:
  "\<exists>s'. malloc 40 (init_state 4096 65536) = Some (Inr (4128, s')) \<and>
        free 4128 s' = Some (Inr (init_state 4096 65536))"
proof -
  have "\<exists>s'. malloc 40 (init_state 4096 65536) = Some (Inr (4128, s'))"
    by (simp add: malloc_def malloc_scan.simps [of 40 0 0] malloc_extend_def sbrk_def init_state_def
                  new_hdr_def in_heap_def set_break_def)
  then obtain s' where m: "malloc 40 (init_state 4096 65536) = Some (Inr (4128, s'))" by blast
  have "free 4128 s' = Some (Inr (init_state 4096 65536))"
    using malloc_free_roundtrip [OF reachable.reach_init _ _ m] by simp
  with m show ?thesis by blast
qed

text \<open>
  C31. In every reachable state, a pointer returned by \<^verbatim>\<open>malloc\<close> is the data pointer
  of a header in use whose size is at least the requested size, and whose block lies
  inside the heap (the specification's invariant 5: no request is satisfied by a smaller
  block).
\<close>

theorem reachable_malloc_grants:
  assumes r: "reachable lo hi s" and lo: "lo \<noteq> 0" "lo \<le> hi"
    and m: "malloc n s = Some (Inr (p, s'))"
  shows "\<exists>h. hdrs s' (p - HDR_SIZE) = Some h \<and> n \<le> hsize h \<and> \<not> hfree h \<and>
             unat (heap_start s') \<le> unat (p - HDR_SIZE) \<and>
             unat (p - HDR_SIZE) + 32 + unat (hsize h) \<le> unat (heap_brk s')"
proof -
  have inv: "api_inv s" by (rule reachable_inv [OF r lo])
  have "api_step (Malloc n) s = Some (Inr s')" using m by simp
  then have r': "reachable lo hi s'" by (rule reachable.reach_step [OF r])
  have inv': "api_inv s'" by (rule reachable_inv [OF r' lo])
  have ok': "blocks_ok s'" by (rule reachable_blocks_ok [OF r' lo])
  have nle: "n \<le> max n 32" by simp
  have "\<exists>h. hdrs s' (p - 32) = Some h \<and> n \<le> hsize h \<and> \<not> hfree h"
    using malloc_api_run [OF inv m]
  proof
    assume "p = heap_brk s + 32 \<and> unat (heap_brk s') = unat (heap_brk s) + unat (max n 32) + 32 \<and>
          s' = s\<lparr>first := (if first s = 0 then heap_brk s else first s),
                 hdrs := (hdrs s)(heap_brk s \<mapsto> \<lparr>hnext = 0, hprev = first s, hsize = max n 32, hfree = False\<rparr>),
                 heap_brk := heap_brk s + (max n 32 + 32)\<rparr>"
    then show ?thesis using nle by auto
  next
    assume "\<exists>h. first s \<noteq> 0 \<and> hdrs s (first s) = Some h \<and> hfree h \<and> max n 32 \<le> hsize h \<and>
              p = first s + 32 \<and> s' = s\<lparr>hdrs := (hdrs s)(first s \<mapsto> h\<lparr>hfree := False\<rparr>)\<rparr>"
    then show ?thesis using nle order.trans by fastforce
  qed
  then obtain h where hq: "hdrs s' (p - 32) = Some h" and "n \<le> hsize h" "\<not> hfree h" by blast
  moreover have "unat (heap_start s') \<le> unat (p - 32)" using api_inv_hdr [OF inv' hq] by (simp add: hdr_ok_def)
  moreover have "unat (p - 32) + 32 + unat (hsize h) \<le> unat (heap_brk s')" using ok' hq by (simp add: blocks_ok_def)
  ultimately show ?thesis by auto
qed

theorem reachable_malloc_grants_witness:
  "\<exists>s'. malloc 40 (init_state 4096 65536) = Some (Inr (4128, s')) \<and>
        (\<exists>h. hdrs s' 4096 = Some h \<and> 40 \<le> hsize h \<and> \<not> hfree h)"
proof -
  have "\<exists>s'. malloc 40 (init_state 4096 65536) = Some (Inr (4128, s'))"
    by (simp add: malloc_def malloc_scan.simps [of 40 0 0] malloc_extend_def sbrk_def init_state_def
                  new_hdr_def in_heap_def set_break_def)
  then obtain s' where m: "malloc 40 (init_state 4096 65536) = Some (Inr (4128, s'))" by blast
  have "\<exists>h. hdrs s' (4128 - HDR_SIZE) = Some h \<and> 40 \<le> hsize h \<and> \<not> hfree h"
    using reachable_malloc_grants [OF reachable.reach_init _ _ m] by fastforce
  with m show ?thesis by auto
qed

text \<open>
  C32. In every reachable state no header is marked free: \<^verbatim>\<open>free\<close> always gives the
  freed block back to the system at once, so the directory never holds a free block
  for a later allocation to reuse.
\<close>

theorem reachable_headers_in_use:
  assumes "reachable lo hi s" and "lo \<noteq> 0" and "lo \<le> hi" and "hdrs s q = Some h"
  shows "\<not> hfree h"
  using reachable_all_used [OF assms(1-3)] assms(4) by (simp add: all_used_def)

theorem reachable_headers_in_use_witness:
  "\<exists>s. run_calls [Malloc 32, Malloc 32, Malloc 32] (init_state 4096 65536) = Some (Inr s) \<and>
       hdrs s 4224 = Some \<lparr>hnext = 0, hprev = 4096, hsize = 32, hfree = False\<rparr> \<and>
       \<not> hfree \<lparr>hnext = 0, hprev = 4096, hsize = 32, hfree = False\<rparr>"
proof -
  obtain s where run: "run_calls [Malloc 32, Malloc 32, Malloc 32] (init_state 4096 65536) = Some (Inr s)"
    and h: "hdrs s 4224 = Some \<lparr>hnext = 0, hprev = 4096, hsize = 32, hfree = False\<rparr>"
    using three_blocks_run by blast
  have r: "reachable 4096 65536 s" by (rule reachable_run [OF reachable.reach_init run])
  have "\<not> hfree \<lparr>hnext = 0, hprev = 4096, hsize = 32, hfree = False\<rparr>"
    by (rule reachable_headers_in_use [OF r _ _ h]) simp_all
  with run h show ?thesis by blast
qed

text \<open>
  C33. In every reachable state, \<^verbatim>\<open>free\<close> of the data pointer of any header moves the
  break down to that header: the block and every block above it are released, including
  blocks allocated later and still in use, whose headers are gone; freeing the first
  block also empties the directory.
\<close>

theorem reachable_free_releases_above:
  assumes "reachable lo hi s" and "lo \<noteq> 0" and "lo \<le> hi" and hq: "hdrs s q = Some h"
  shows "free (q + HDR_SIZE) s =
           Some (Inr (s\<lparr>first := (if q = first s then 0 else first s),
                        hdrs := (\<lambda>x. if unat q < unat x + 32 then None else hdrs s x),
                        heap_brk := q\<rparr>))"
  by (rule free_api_release [OF reachable_inv [OF assms(1-3)] reachable_all_used [OF assms(1-3)] hq])

theorem reachable_free_releases_above_witness:
  "\<exists>s s'. run_calls [Malloc 32, Malloc 32, Malloc 32] (init_state 4096 65536) = Some (Inr s) \<and>
          hdrs s 4224 = Some \<lparr>hnext = 0, hprev = 4096, hsize = 32, hfree = False\<rparr> \<and>
          free 4192 s = Some (Inr s') \<and> heap_brk s' = 4160 \<and> hdrs s' 4224 = None \<and> first s' = 4096"
proof -
  obtain s where run: "run_calls [Malloc 32, Malloc 32, Malloc 32] (init_state 4096 65536) = Some (Inr s)"
    and f: "first s = 4096"
    and h2: "hdrs s 4160 = Some \<lparr>hnext = 0, hprev = 4096, hsize = 32, hfree = False\<rparr>"
    and h3: "hdrs s 4224 = Some \<lparr>hnext = 0, hprev = 4096, hsize = 32, hfree = False\<rparr>"
    using three_blocks_run by blast
  have r: "reachable 4096 65536 s" by (rule reachable_run [OF reachable.reach_init run])
  have "free (4160 + HDR_SIZE) s =
           Some (Inr (s\<lparr>first := (if 4160 = first s then 0 else first s),
                        hdrs := (\<lambda>x. if unat (4160 :: addr) < unat x + 32 then None else hdrs s x),
                        heap_brk := 4160\<rparr>))"
    by (rule reachable_free_releases_above [OF r _ _ h2]) simp_all
  then have "free 4192 s = Some (Inr (s\<lparr>first := 4096,
                        hdrs := (\<lambda>x. if unat (4160 :: addr) < unat x + 32 then None else hdrs s x),
                        heap_brk := 4160\<rparr>))" using f by simp
  with run h3 f show ?thesis by fastforce
qed

text \<open>
  C34. In every reachable state \<^verbatim>\<open>malloc\<close> never reuses memory through its first-fit
  walk: whenever it returns, the new block is at the old break, and the break moved up by
  exactly the clamped request and a header.
\<close>

theorem reachable_malloc_always_grows:
  assumes "reachable lo hi s" and "lo \<noteq> 0" and "lo \<le> hi" and m: "malloc n s = Some (Inr (p, s'))"
  shows "p = heap_brk s + HDR_SIZE \<and>
         unat (heap_brk s') = unat (heap_brk s) + unat (max n MIN_BLOCK_SIZE) + 32"
  unfolding HDR_SIZE_def MIN_BLOCK_SIZE_def
  using malloc_api_used [OF reachable_inv [OF assms(1-3)] reachable_all_used [OF assms(1-3)] m] by blast

theorem reachable_malloc_always_grows_witness:
  "\<exists>s'. malloc 8 (init_state 4096 65536) = Some (Inr (4128, s')) \<and> unat (heap_brk s') = 4160"
proof -
  have "\<exists>s'. malloc 8 (init_state 4096 65536) = Some (Inr (4128, s'))"
    by (simp add: malloc_def malloc_scan.simps [of 32 0 0] malloc_extend_def sbrk_def init_state_def
                  new_hdr_def in_heap_def set_break_def)
  then obtain s' where m: "malloc 8 (init_state 4096 65536) = Some (Inr (4128, s'))" by blast
  have "unat (heap_brk s') = unat (heap_brk (init_state 4096 65536)) + unat (max 8 MIN_BLOCK_SIZE) + 32"
    using reachable_malloc_always_grows [OF reachable.reach_init _ _ m] by simp
  then have "unat (heap_brk s') = 4160" by (simp add: init_state_def)
  with m show ?thesis by blast
qed

text \<open>
  C35. The well-formedness of the allocator's state, the invariants \<open>api_inv\<close>,
  \<open>blocks_ok\<close> and \<open>all_used\<close> together, is kept by every run of calls from any state
  that has it, not only from the initial one.
\<close>

theorem run_calls_wf:
  assumes "api_inv s \<and> blocks_ok s \<and> all_used s" and "run_calls cs s = Some (Inr s')"
  shows "api_inv s' \<and> blocks_ok s' \<and> all_used s'"
  using assms
proof (induction cs arbitrary: s)
  case Nil
  then show ?case by simp
next
  case (Cons c cs)
  from Cons.prems(2) obtain s1 where st: "api_step c s = Some (Inr s1)" and rest: "run_calls cs s1 = Some (Inr s')"
    by (cases "api_step c s") (auto simp: bindO_def split: sum.splits)
  have "api_inv s1 \<and> blocks_ok s1 \<and> all_used s1"
    using api_step_inv [OF _ st] api_step_blocks_ok [OF _ _ st] api_step_all_used [OF _ _ st] Cons.prems(1)
    by blast
  then show ?case by (rule Cons.IH [OF _ rest])
qed

theorem run_calls_wf_witness:
  "api_inv (init_state 4096 65536) \<and> blocks_ok (init_state 4096 65536) \<and> all_used (init_state 4096 65536) \<and>
   (\<exists>s. run_calls [Malloc 32, Malloc 32] (init_state 4096 65536) = Some (Inr s) \<and>
        api_inv s \<and> blocks_ok s \<and> all_used s)"
proof -
  have w: "api_inv (init_state 4096 65536) \<and> blocks_ok (init_state 4096 65536) \<and> all_used (init_state 4096 65536)"
    by (simp add: api_inv_def blocks_ok_def all_used_def init_state_def)
  obtain s where run: "run_calls [Malloc 32, Malloc 32] (init_state 4096 65536) = Some (Inr s)"
    using two_blocks_run by blast
  from run_calls_wf [OF w run] w run show ?thesis by blast
qed

end
