(* ===== verification/Api_Layout.thy ===== *)
theory Api_Layout
  imports Api_Runs
begin

text \<open>
  The layout of the heap in the states reachable through the public calls. The headers'
  blocks, in address order, tile \<open>[heap_start, break)\<close> without a gap, as the list of
  blocks of \<open>Block_Directory\<close> does (\<open>tiled\<close>): this is the specification's invariant 4.
  It holds although the directory chain links none of these blocks (C19). The sizes the
  headers record are the sizes of the tiling's blocks (\<open>blk_sizes\<close>).
\<close>

section \<open>The layout invariant\<close>

definition blk_sizes :: "blk list \<Rightarrow> addr \<rightharpoonup> size_t" where
  "blk_sizes bs = map_of (map (\<lambda>b. (b_addr b, b_size b)) bs)"

definition layout_ok :: "mstate \<Rightarrow> blk list \<Rightarrow> bool" where
  "layout_ok s bs \<longleftrightarrow>
     tiled (unat (heap_start s)) bs (unat (heap_brk s)) \<and> (\<lambda>q. map_option hsize (hdrs s q)) = blk_sizes bs"

section \<open>Lemmas on the tiling's sizes\<close>

lemma blk_sizes_None: "blk_sizes bs x = None \<longleftrightarrow> x \<notin> b_addr ` set bs"
  by (force simp: blk_sizes_def map_of_eq_None_iff)

lemma blk_sizes_snoc:
  assumes "tiled lo bs (unat a)"
  shows "blk_sizes (bs @ [Blk a n f]) = (blk_sizes bs)(a \<mapsto> n)"
proof
  fix x
  have "a \<notin> b_addr ` set bs" using tiled_addr_notin_before [OF assms] by simp
  then show "blk_sizes (bs @ [Blk a n f]) x = ((blk_sizes bs)(a \<mapsto> n)) x"
    using blk_sizes_None [of bs a] by (auto simp: blk_sizes_def map_add_def split: option.splits)
qed

lemma blk_sizes_split:
  assumes "blk_sizes bs q = Some n"
  obtains pre b post where "bs = pre @ b # post" and "b_addr b = q"
proof -
  have "q \<in> b_addr ` set bs" using assms blk_sizes_None [of bs q] by auto
  then obtain b where "b \<in> set bs" "b_addr b = q" by blast
  with split_list [OF this(1)] that show ?thesis by blast
qed

lemma blk_sizes_release:
  assumes t: "tiled lo (pre @ b # post) hi"
  shows "blk_sizes pre = (\<lambda>x. if unat (b_addr b) < unat x + 32 then None else blk_sizes (pre @ b # post) x)"
proof
  fix x
  obtain mid where tp: "tiled lo pre mid" and tq: "tiled mid (b # post) hi"
    using t by (auto simp: tiled_append)
  then have ub: "unat (b_addr b) = mid" by simp
  show "blk_sizes pre x = (if unat (b_addr b) < unat x + 32 then None else blk_sizes (pre @ b # post) x)"
  proof (cases "x \<in> b_addr ` set pre")
    case True
    then obtain c where c: "c \<in> set pre" "b_addr c = x" by blast
    have "unat x + 32 \<le> unat (b_addr b)" using tiled_mem [OF tp c(1)] c(2) ub by simp
    moreover have "blk_sizes pre x \<noteq> None" using True blk_sizes_None [of pre x] by blast
    ultimately show ?thesis by (auto simp: blk_sizes_def map_add_def split: option.splits)
  next
    case False
    have "unat (b_addr b) < unat x + 32" if "x \<in> b_addr ` set (b # post)"
      using that tiled_mem [OF tq] ub by fastforce
    then show ?thesis using False blk_sizes_None [of pre x] blk_sizes_None [of "b # post" x]
      by (auto simp: blk_sizes_def map_add_def split: option.splits)
  qed
qed

section \<open>Each call keeps the layout\<close>

lemma layout_malloc:
  assumes inv: "api_inv s" and u: "all_used s" and l: "layout_ok s bs"
    and m: "malloc n s = Some (Inr (p, s'))"
  shows "layout_ok s' (bs @ [Blk (heap_brk s) (max n 32) False])"
proof -
  note e = malloc_api_used [OF inv u m]
  have ub: "unat (heap_brk s') = unat (heap_brk s) + unat (max n 32) + 32" using e by blast
  have s': "s' = s\<lparr>first := (if first s = 0 then heap_brk s else first s),
                hdrs := (hdrs s)(heap_brk s \<mapsto> \<lparr>hnext = 0, hprev = first s, hsize = max n 32, hfree = False\<rparr>),
                heap_brk := heap_brk s + (max n 32 + 32)\<rparr>" using e by blast
  have t: "tiled (unat (heap_start s)) bs (unat (heap_brk s))" using l by (simp add: layout_ok_def)
  have "tiled (unat (heap_start s')) (bs @ [Blk (heap_brk s) (max n 32) False]) (unat (heap_brk s'))"
    using t ub s' by (auto simp: tiled_append)
  moreover have "(\<lambda>q. map_option hsize (hdrs s' q)) = blk_sizes (bs @ [Blk (heap_brk s) (max n 32) False])"
    using l s' by (auto simp: layout_ok_def blk_sizes_snoc [OF t] fun_eq_iff)
  ultimately show ?thesis by (simp add: layout_ok_def)
qed

lemma layout_release:
  assumes l: "layout_ok s bs" and hq: "hdrs s q = Some h"
  shows "\<exists>bs'. layout_ok (s\<lparr>first := f, hdrs := (\<lambda>x. if unat q < unat x + 32 then None else hdrs s x),
                             heap_brk := q\<rparr>) bs'"
proof -
  have t: "tiled (unat (heap_start s)) bs (unat (heap_brk s))"
    and sz: "(\<lambda>q. map_option hsize (hdrs s q)) = blk_sizes bs" using l by (simp_all add: layout_ok_def)
  have "blk_sizes bs q = Some (hsize h)" using sz hq by (metis option.simps(9))
  then obtain pre b post where bs: "bs = pre @ b # post" and bq: "b_addr b = q" by (rule blk_sizes_split)
  obtain mid where tp: "tiled (unat (heap_start s)) pre mid" and tq: "tiled mid (b # post) (unat (heap_brk s))"
    using t bs by (auto simp: tiled_append)
  have "mid = unat q" using tq bq by simp
  moreover note rel = blk_sizes_release [OF t [unfolded bs]]
  have "(\<lambda>x. map_option hsize (if unat q < unat x + 32 then None else hdrs s x)) = blk_sizes pre"
    using sz bs bq rel by (auto simp: fun_eq_iff)
  ultimately show ?thesis using tp by (auto simp: layout_ok_def)
qed

lemma api_step_layout:
  assumes inv: "api_inv s" and u: "all_used s" and l: "layout_ok s bs"
    and st: "api_step c s = Some (Inr s')"
  shows "\<exists>bs'. layout_ok s' bs'"
proof -
  have fr: "\<exists>bs'. layout_ok s' bs'" if fa: "free a s = Some (Inr s')" for a
    using free_api_ok [OF inv u fa] l layout_release by blast
  show ?thesis
  proof (cases c)
    case (Malloc n)
    then obtain p where "malloc n s = Some (Inr (p, s'))" using st by (auto simp: bindL_snd_Inr)
    then show ?thesis using layout_malloc [OF inv u l] by blast
  next
    case (Free a)
    then show ?thesis using fr st by simp
  next
    case (Free_with_caution a)
    then show ?thesis using free_with_caution_api [OF inv, of a] fr st l by auto
  qed
qed

lemma reachable_layout:
  assumes "reachable lo hi s" and "lo \<noteq> 0" and "lo \<le> hi"
  shows "\<exists>bs. layout_ok s bs"
  using assms
proof (induction rule: reachable.induct)
  case reach_init
  have "layout_ok (init_state lo hi) []" by (simp add: layout_ok_def init_state_def blk_sizes_def fun_eq_iff)
  then show ?case by blast
next
  case (reach_step s c s')
  then show ?case using api_step_layout reachable_inv reachable_all_used by metis
qed

section \<open>The layout of reachable states\<close>

text \<open>
  C30. In every reachable state each header's block, header and data, lies inside the
  mapped heap \<open>[heap_start, break)\<close>, the break lies below the heap's limit, and the blocks
  of two different headers do not overlap (the specification's first testable property:
  live data regions are disjoint). Moreover the blocks tile the heap: listed in address
  order they cover \<open>[heap_start, break)\<close> without a gap, and the header at \<open>q\<close> is one of
  them, with the size the header records (the specification's invariant 4).
\<close>

theorem reachable_blocks_disjoint:
  assumes r: "reachable lo hi s" and lo: "lo \<noteq> 0" "lo \<le> hi" and hq: "hdrs s q = Some h"
  shows "unat (heap_start s) \<le> unat q \<and> unat q + 32 + unat (hsize h) \<le> unat (heap_brk s) \<and>
         heap_brk s \<le> heap_max s \<and>
         (\<forall>q' h'. hdrs s q' = Some h' \<longrightarrow> q' \<noteq> q \<longrightarrow>
            unat q + 32 + unat (hsize h) \<le> unat q' \<or> unat q' + 32 + unat (hsize h') \<le> unat q) \<and>
         (\<exists>bs. layout_ok s bs \<and> q \<in> b_addr ` set bs)"
proof -
  have inv: "api_inv s" by (rule reachable_inv [OF r lo])
  have ok: "blocks_ok s" by (rule reachable_blocks_ok [OF r lo])
  have "unat (heap_start s) \<le> unat q" using api_inv_hdr [OF inv hq] by (simp add: hdr_ok_def)
  moreover have "unat q + 32 + unat (hsize h) \<le> unat (heap_brk s)" using ok hq by (simp add: blocks_ok_def)
  moreover have "heap_brk s \<le> heap_max s" using inv by (simp add: api_inv_def)
  moreover have "unat q + 32 + unat (hsize h) \<le> unat q' \<or> unat q' + 32 + unat (hsize h') \<le> unat q"
    if hq': "hdrs s q' = Some h'" and ne: "q' \<noteq> q" for q' h'
  proof (cases "unat q < unat q'")
    case True
    then show ?thesis using ok hq hq' unfolding blocks_ok_def by blast
  next
    case False
    then have "unat q' < unat q" using ne by (simp add: word_unat_eq_iff)
    then show ?thesis using ok hq hq' unfolding blocks_ok_def by blast
  qed
  moreover have "\<exists>bs. layout_ok s bs \<and> q \<in> b_addr ` set bs"
  proof -
    obtain bs where l: "layout_ok s bs" using reachable_layout [OF r lo] by blast
    then have "blk_sizes bs q \<noteq> None" using hq by (simp add: layout_ok_def fun_eq_iff) (metis option.simps(9))
    then show ?thesis using l blk_sizes_None [of bs q] by auto
  qed
  ultimately show ?thesis by blast
qed

theorem reachable_blocks_disjoint_witness:
  "\<exists>s. run_calls [Malloc 32, Malloc 32] (init_state 4096 65536) = Some (Inr s) \<and>
       hdrs s 4160 = Some \<lparr>hnext = 0, hprev = 4096, hsize = 32, hfree = False\<rparr> \<and>
       unat (4096 :: addr) + 32 + 32 \<le> unat (heap_brk s) \<and>
       unat (4096 :: addr) + 32 + 32 \<le> unat (4160 :: addr) \<and>
       (\<exists>bs. layout_ok s bs \<and> (4160 :: addr) \<in> b_addr ` set bs)"
proof -
  obtain s where run: "run_calls [Malloc 32, Malloc 32] (init_state 4096 65536) = Some (Inr s)"
    and h1: "hdrs s 4096 = Some \<lparr>hnext = 0, hprev = 0, hsize = 32, hfree = False\<rparr>"
    and h2: "hdrs s 4160 = Some \<lparr>hnext = 0, hprev = 4096, hsize = 32, hfree = False\<rparr>"
    using two_blocks_run by blast
  have r: "reachable 4096 65536 s" by (rule reachable_run [OF reachable.reach_init run])
  note d = reachable_blocks_disjoint [OF r _ _ h1]
  have "unat (4096 :: addr) + 32 + 32 \<le> unat (heap_brk s)" using d by simp
  moreover have "unat (4096 :: addr) + 32 + 32 \<le> unat (4160 :: addr) \<or>
                 unat (4160 :: addr) + 32 + 32 \<le> unat (4096 :: addr)"
    using d h2 by simp
  moreover have "\<exists>bs. layout_ok s bs \<and> (4160 :: addr) \<in> b_addr ` set bs"
    using reachable_blocks_disjoint [OF r _ _ h2] by simp
  ultimately show ?thesis using run h2 by auto
qed

end
