(* ===== verification/Api_Refinement.thy ===== *)
theory Api_Refinement
  imports Api_Runs
begin

text \<open>
  An abstract specification of what the public calls do from the initial state, and the
  refinement lemma that the model of the code implements it. The abstract allocator is a
  stack: it keeps the sizes of the live blocks by header address and the break; an
  allocation pushes a block at the break, and a release of any live block pops it and
  every block above it. \<^verbatim>\<open>free_with_caution\<close> releases only the block at the start of
  the heap. A call faults exactly when the abstract call does. This is what
  \<^verbatim>\<open>dynalloc.c\<close> implements, and not the first-fit free-list allocator of its
  specification (C32--C34).
\<close>

section \<open>The abstract stack allocator\<close>

record astate =
  ablocks :: "addr \<rightharpoonup> size_t"
  abrk :: addr
  astart :: addr
  amax :: addr

text \<open>Release the live block at \<open>q\<close> and every block above it.\<close>

definition arelease :: "addr \<Rightarrow> astate \<Rightarrow> astate" where
  "arelease q t = t\<lparr>ablocks := (\<lambda>x. if unat q < unat x + 32 then None else ablocks t x), abrk := q\<rparr>"

fun astep :: "api_call \<Rightarrow> astate \<Rightarrow> unit + astate" where
  "astep (Malloc n) t =
     (let n' = max n MIN_BLOCK_SIZE in
      if unat (abrk t) + unat n' + 32 \<le> unat (amax t)
      then Inr (t\<lparr>ablocks := (ablocks t)(abrk t \<mapsto> n'), abrk := abrk t + (n' + 32)\<rparr>)
      else Inl ())"
| "astep (Free a) t =
     (if a = 0 then Inr t
      else if ablocks t (a - 32) = None then Inl ()
      else Inr (arelease (a - 32) t))"
| "astep (Free_with_caution a) t =
     (if a \<noteq> 0 \<and> a - 32 = astart t \<and> ablocks t (a - 32) \<noteq> None
      then Inr (arelease (a - 32) t) else Inr t)"

fun arun :: "api_call list \<Rightarrow> astate \<Rightarrow> unit + astate" where
  "arun [] t = Inr t"
| "arun (c # cs) t = (case astep c t of Inl u \<Rightarrow> Inl u | Inr t' \<Rightarrow> arun cs t')"

section \<open>The abstraction of the state\<close>

definition abs_state :: "mstate \<Rightarrow> astate" where
  "abs_state s =
     \<lparr>ablocks = (\<lambda>q. map_option hsize (hdrs s q)), abrk = heap_brk s,
      astart = heap_start s, amax = heap_max s\<rparr>"

definition lift_res :: "mstate res option \<Rightarrow> (unit + astate) option" where
  "lift_res r = map_option (map_sum (\<lambda>_. ()) abs_state) r"

section \<open>Lemmas\<close>

text \<open>
  From a state of the invariants, \<^verbatim>\<open>malloc\<close> goes straight to the heap extension, and
  the extension succeeds exactly when the block fits below the limit.
\<close>

lemma malloc_api_room:
  assumes inv: "api_inv s" and u: "all_used s" and hi: "unat (heap_max s) < 2 ^ 63"
  shows "malloc n s = Some (malloc_extend (max n 32) (first s) s)"
    and "(\<exists>p s'. malloc_extend (max n 32) (first s) s = Inr (p, s')) \<longleftrightarrow>
         unat (heap_brk s) + unat (max n 32) + 32 \<le> unat (heap_max s)"
proof -
  let ?sz = "max n 32"
  show "malloc n s = Some (malloc_extend ?sz (first s) s)"
    using malloc_api_cases [OF inv, of n] u by (auto simp: all_used_def)
  show "(\<exists>p s'. malloc_extend ?sz (first s) s = Inr (p, s')) \<longleftrightarrow>
        unat (heap_brk s) + unat ?sz + 32 \<le> unat (heap_max s)"
  proof
    assume "\<exists>p s'. malloc_extend ?sz (first s) s = Inr (p, s')"
    then obtain p s' where "malloc_extend ?sz (first s) s = Inr (p, s')" by blast
    from malloc_extend_api [OF inv this]
    have "heap_brk s + (?sz + 32) \<le> heap_max s"
      and "unat (heap_brk s + (?sz + 32)) = unat (heap_brk s) + unat ?sz + 32" by blast+
    then show "unat (heap_brk s) + unat ?sz + 32 \<le> unat (heap_max s)" by (simp add: word_le_nat_alt)
  next
    assume room: "unat (heap_brk s) + unat ?sz + 32 \<le> unat (heap_max s)"
    have "heap_start s \<le> heap_brk s" "heap_start s \<noteq> 0" using inv by (simp_all add: api_inv_def)
    then have lo: "unat (heap_start s) \<le> unat (heap_brk s)" and pos: "0 < unat (heap_start s)"
      by (simp_all add: word_le_nat_alt unat_gt_0)
    have "unat ?sz + 32 < 2 ^ 63" using room hi by linarith
    from malloc_extend_ok [OF lo pos room this] show "\<exists>p s'. malloc_extend ?sz (first s) s = Inr (p, s')"
      by blast
  qed
qed

lemma abs_release:
  "abs_state (s\<lparr>first := f, hdrs := (\<lambda>x. if unat q < unat x + 32 then None else hdrs s x), heap_brk := q\<rparr>) =
   arelease q (abs_state s)"
  by (simp add: abs_state_def arelease_def fun_eq_iff)

lemma api_step_refines:
  assumes inv: "api_inv s" and u: "all_used s" and hi: "unat (heap_max s) < 2 ^ 63"
  shows "lift_res (api_step c s) = Some (astep c (abs_state s))"
proof -
  have fr: "lift_res (free a s) = Some (if a = 0 then Inr (abs_state s)
              else if hdrs s (a - 32) = None then Inl () else Inr (arelease (a - 32) (abs_state s)))" for a
  proof (cases "a = 0")
    case True
    then show ?thesis by (simp add: free_def lift_res_def)
  next
    case False
    show ?thesis
    proof (cases "hdrs s (a - 32)")
      case None
      then show ?thesis using free_api_nohdr [OF False, of s] False by (auto simp: lift_res_def)
    next
      case (Some h)
      have "a - 32 + HDR_SIZE = a" by simp
      then show ?thesis using free_api_release [OF inv u Some] False Some
        by (simp add: lift_res_def abs_release)
    qed
  qed
  show ?thesis
  proof (cases c)
    case (Malloc n)
    let ?sz = "max n 32"
    note m = malloc_api_room(1) [OF inv u hi, of n]
    show ?thesis
    proof (cases "malloc_extend ?sz (first s) s")
      case (Inl e)
      have "\<not> unat (heap_brk s) + unat ?sz + 32 \<le> unat (heap_max s)"
        using malloc_api_room(2) [OF inv u hi, of n] Inl by auto
      then show ?thesis using Malloc m Inl by (simp add: lift_res_def Let_def abs_state_def)
    next
      case (Inr r)
      obtain p s' where r: "r = (p, s')" by (cases r)
      note e = malloc_extend_api [OF inv Inr [unfolded r]]
      have le: "heap_brk s + (?sz + 32) \<le> heap_max s"
        and ub: "unat (heap_brk s + (?sz + 32)) = unat (heap_brk s) + unat ?sz + 32"
        and s': "s' = s\<lparr>first := (if first s = 0 then heap_brk s else first s),
                hdrs := (hdrs s)(heap_brk s \<mapsto> \<lparr>hnext = 0, hprev = first s, hsize = ?sz, hfree = False\<rparr>),
                heap_brk := heap_brk s + (?sz + 32)\<rparr>" using e by blast+
      have room: "unat (heap_brk s) + unat ?sz + 32 \<le> unat (heap_max s)"
        using le ub by (simp add: word_le_nat_alt)
      have "abs_state s' = (abs_state s)\<lparr>ablocks := (ablocks (abs_state s))(heap_brk s \<mapsto> ?sz),
                                            abrk := heap_brk s + (?sz + 32)\<rparr>"
        using s' by (simp add: abs_state_def fun_eq_iff)
      then show ?thesis using Malloc m Inr r room by (simp add: lift_res_def Let_def abs_state_def)
    qed
  next
    case (Free a)
    then show ?thesis using fr [of a] by (simp add: abs_state_def)
  next
    case (Free_with_caution a)
    have iff: "(a \<noteq> 0 \<and> first s \<noteq> 0 \<and> a - 32 = first s) =
               (a \<noteq> 0 \<and> a - 32 = heap_start s \<and> hdrs s (a - 32) \<noteq> None)"
    proof (cases "first s = 0")
      case True
      then show ?thesis using api_inv_empty_hdrs [OF inv] by simp
    next
      case False
      then obtain h where "hdrs s (first s) = Some h" "first s = heap_start s"
        using api_inv_first [OF inv False] by blast
      then show ?thesis using False by auto
    qed
    show ?thesis
      using Free_with_caution free_with_caution_exact [OF inv, of a] fr [of a] iff
      by (auto simp: lift_res_def abs_state_def)
  qed
qed

lemma astep_amax: "astep c t = Inr t' \<Longrightarrow> amax t' = amax t"
  by (cases c) (auto simp: Let_def arelease_def split: if_splits)

lemma api_step_max:
  assumes inv: "api_inv s" and u: "all_used s" and hi: "unat (heap_max s) < 2 ^ 63"
    and st: "api_step c s = Some (Inr s')"
  shows "heap_max s' = heap_max s"
proof -
  have "astep c (abs_state s) = Inr (abs_state s')"
    using api_step_refines [OF inv u hi, of c] st by (simp add: lift_res_def)
  from astep_amax [OF this] show ?thesis by (simp add: abs_state_def)
qed

lemma reachable_max:
  assumes "reachable lo hi s" and "lo \<noteq> 0" and "lo \<le> hi" and "unat hi < 2 ^ 63"
  shows "heap_max s = hi"
  using assms
proof (induction rule: reachable.induct)
  case reach_init
  then show ?case by (simp add: init_state_def)
next
  case (reach_step s c s')
  then show ?case using api_step_max reachable_inv reachable_all_used by metis
qed

lemma reachable_run_refines:
  assumes "reachable lo hi s" and lo: "lo \<noteq> 0" "lo \<le> hi" and hi: "unat hi < 2 ^ 63"
  shows "lift_res (run_calls cs s) = Some (arun cs (abs_state s))"
  using assms(1)
proof (induction cs arbitrary: s)
  case Nil
  then show ?case by (simp add: lift_res_def)
next
  case (Cons c cs)
  have "lift_res (api_step c s) = Some (astep c (abs_state s))"
    using api_step_refines reachable_inv [OF Cons.prems lo] reachable_all_used [OF Cons.prems lo]
      reachable_max [OF Cons.prems lo hi] hi by metis
  then obtain r where st: "api_step c s = Some r" and ab: "astep c (abs_state s) = map_sum (\<lambda>_. ()) abs_state r"
    by (auto simp: lift_res_def)
  show ?case
  proof (cases r)
    case (Inl e)
    then show ?thesis using st ab by (simp add: lift_res_def)
  next
    case (Inr s1)
    have "reachable lo hi s1" using reachable.reach_step [OF Cons.prems] st Inr by simp
    then show ?thesis using Cons.IH st ab Inr by simp
  qed
qed

section \<open>Refinement\<close>

text \<open>
  C37. Every sequence of public calls from the initial state refines the abstract stack
  allocator: the model of the code faults exactly when the abstract run faults, and
  otherwise ends in a state whose live blocks, sizes, break and limits are those of the
  abstract run. The limit is below \<open>2\<^sup>6\<^sup>3\<close>, so that \<^verbatim>\<open>sbrk\<close> reads every request that fits
  as a positive increment.
\<close>

theorem run_calls_refines_stack:
  assumes "lo \<noteq> 0" and "lo \<le> hi" and "unat hi < 2 ^ 63"
  shows "lift_res (run_calls cs (init_state lo hi)) = Some (arun cs (abs_state (init_state lo hi)))"
  using reachable_run_refines [OF reachable.reach_init assms] .

theorem run_calls_refines_stack_witness:
  "lift_res (run_calls [Malloc 32, Malloc 32, Free 4192, Malloc 100] (init_state 4096 65536)) =
   Some (Inr \<lparr>ablocks = [4096 \<mapsto> 32, 4160 \<mapsto> 100], abrk = 4292, astart = 4096, amax = 65536\<rparr>)"
proof -
  have "(4096 :: addr) \<noteq> 0" and "(4096 :: addr) \<le> 65536" and "unat (65536 :: addr) < 2 ^ 63" by simp_all
  from run_calls_refines_stack [OF this, of "[Malloc 32, Malloc 32, Free 4192, Malloc 100]"]
  show ?thesis
    by (simp add: init_state_def abs_state_def arelease_def Let_def fun_eq_iff)
qed

section \<open>Faults of the public calls\<close>

text \<open>
  C38. In every reachable state \<^verbatim>\<open>free\<close> faults exactly on the non-null pointers that
  are not the data pointer of a block in use; on every block it returns.
\<close>

theorem reachable_free_faults_iff:
  assumes "reachable lo hi s" and "lo \<noteq> 0" and "lo \<le> hi"
  shows "(\<exists>e. free a s = Some (Inl e)) \<longleftrightarrow> a \<noteq> 0 \<and> hdrs s (a - HDR_SIZE) = None"
proof (cases "a \<noteq> 0 \<and> hdrs s (a - HDR_SIZE) = None")
  case True
  then show ?thesis using free_api_nohdr by blast
next
  case False
  show ?thesis
  proof (cases "a = 0")
    case True
    then show ?thesis by (simp add: free_def)
  next
    case nz: False
    then obtain h where h: "hdrs s (a - 32) = Some h" using False by auto
    have "a - 32 + HDR_SIZE = a" by simp
    then show ?thesis
      using free_api_release [OF reachable_inv [OF assms] reachable_all_used [OF assms] h] nz h by auto
  qed
qed

theorem reachable_free_faults_iff_witness:
  "\<exists>s. run_calls [Malloc 32, Malloc 32] (init_state 4096 65536) = Some (Inr s) \<and>
       \<not> (\<exists>e. free 4192 s = Some (Inl e))"
proof -
  obtain s where r: "run_calls [Malloc 32, Malloc 32] (init_state 4096 65536) = Some (Inr s)"
    and h: "hdrs s 4160 = Some \<lparr>hnext = 0, hprev = 4096, hsize = 32, hfree = False\<rparr>"
    using two_blocks_run by blast
  have "reachable 4096 65536 s" by (rule reachable_run [OF reachable.reach_init r])
  then have "(\<exists>e. free 4192 s = Some (Inl e)) \<longleftrightarrow> (4192 :: addr) \<noteq> 0 \<and> hdrs s (4192 - HDR_SIZE) = None"
    by (rule reachable_free_faults_iff) simp_all
  with r h show ?thesis by simp
qed

text \<open>
  C39. In every reachable state \<^verbatim>\<open>free_with_caution\<close> never faults, whatever pointer it
  is given (the specification's validated deallocate): given the data pointer of the first
  block it gives the whole heap back, leaving no header, an empty directory and the break at
  the start of the heap; given any other pointer it leaves the state unchanged.
\<close>

theorem reachable_caution_never_faults:
  assumes "reachable lo hi s" and "lo \<noteq> 0" and "lo \<le> hi"
  shows "free_with_caution a s =
           Some (Inr (if a \<noteq> 0 \<and> first s \<noteq> 0 \<and> a - HDR_SIZE = first s
                      then s\<lparr>first := 0, hdrs := Map.empty, heap_brk := heap_start s\<rparr> else s))"
proof (cases "a \<noteq> 0 \<and> first s \<noteq> 0 \<and> a - 32 = first s")
  case True
  have inv: "api_inv s" by (rule reachable_inv [OF assms])
  obtain h where h: "hdrs s (first s) = Some h" and fs: "first s = heap_start s"
    using api_inv_first [OF inv] True by blast
  have e: "(\<lambda>x. if unat (first s) < unat x + 32 then None else hdrs s x) = Map.empty"
  proof
    fix x
    show "(if unat (first s) < unat x + 32 then None else hdrs s x) = None"
    proof (cases "hdrs s x")
      case (Some g)
      then have "unat (heap_start s) \<le> unat x" using api_inv_hdr [OF inv Some] by (simp add: hdr_ok_def)
      then show ?thesis using fs by simp
    qed simp
  qed
  have "a = first s + HDR_SIZE" using True by (simp add: diff_eq_eq)
  then have "free a s = Some (Inr (s\<lparr>first := 0, hdrs := Map.empty, heap_brk := heap_start s\<rparr>))"
    using free_api_release [OF inv reachable_all_used [OF assms] h] e fs by simp
  then show ?thesis using free_with_caution_exact [OF inv, of a] True by simp
next
  case False
  have "free_with_caution a s = Some (Inr s)"
    using free_with_caution_exact [OF reachable_inv [OF assms], of a] by (simp only: if_not_P [OF False])
  then show ?thesis using False by (simp only: HDR_SIZE_def if_not_P [OF False] if_False)
qed

theorem reachable_caution_never_faults_witness:
  "\<exists>s. run_calls [Malloc 32, Malloc 32] (init_state 4096 65536) = Some (Inr s) \<and>
       free_with_caution 4128 s = Some (Inr (s\<lparr>first := 0, hdrs := Map.empty, heap_brk := 4096\<rparr>))"
proof -
  obtain s where r: "run_calls [Malloc 32, Malloc 32] (init_state 4096 65536) = Some (Inr s)"
    and f: "first s = 4096" and st: "heap_start s = 4096" using two_blocks_run by blast
  have "reachable 4096 65536 s" by (rule reachable_run [OF reachable.reach_init r])
  then have "free_with_caution 4128 s =
           Some (Inr (if (4128 :: addr) \<noteq> 0 \<and> first s \<noteq> 0 \<and> 4128 - HDR_SIZE = first s
                      then s\<lparr>first := 0, hdrs := Map.empty, heap_brk := heap_start s\<rparr> else s))"
    by (rule reachable_caution_never_faults) simp_all
  with r f st show ?thesis by auto
qed

text \<open>
  C40. In every reachable state under a limit below \<open>2\<^sup>6\<^sup>3\<close>, \<^verbatim>\<open>malloc\<close> returns a block
  exactly when the clamped request and its header fit between the break and the limit:
  it never fails while there is room, and never succeeds beyond the limit.
\<close>

theorem reachable_malloc_succeeds_iff_room:
  assumes r: "reachable lo hi s" and lo: "lo \<noteq> 0" "lo \<le> hi" and hi: "unat hi < 2 ^ 63"
  shows "(\<exists>p s'. malloc n s = Some (Inr (p, s'))) \<longleftrightarrow>
         unat (heap_brk s) + unat (max n MIN_BLOCK_SIZE) + 32 \<le> unat hi"
proof -
  have inv: "api_inv s" and u: "all_used s" and mx: "heap_max s = hi"
    using reachable_inv [OF r lo] reachable_all_used [OF r lo] reachable_max [OF r lo hi] by simp_all
  then show ?thesis using malloc_api_room [OF inv u, of n] hi by simp
qed

theorem reachable_malloc_succeeds_iff_room_witness:
  "\<exists>s. run_calls [Malloc 32, Malloc 32] (init_state 4096 65536) = Some (Inr s) \<and>
       (\<exists>p s'. malloc 1000 s = Some (Inr (p, s'))) \<and> \<not> (\<exists>p s'. malloc 65536 s = Some (Inr (p, s')))"
proof -
  obtain s where r: "run_calls [Malloc 32, Malloc 32] (init_state 4096 65536) = Some (Inr s)"
    and b: "heap_brk s = 4224" using two_blocks_run by blast
  have rs: "reachable 4096 65536 s" by (rule reachable_run [OF reachable.reach_init r])
  have "(\<exists>p s'. malloc 1000 s = Some (Inr (p, s'))) \<longleftrightarrow>
        unat (heap_brk s) + unat (max 1000 MIN_BLOCK_SIZE) + 32 \<le> unat (65536 :: addr)"
    by (rule reachable_malloc_succeeds_iff_room [OF rs]) simp_all
  moreover have "(\<exists>p s'. malloc 65536 s = Some (Inr (p, s'))) \<longleftrightarrow>
        unat (heap_brk s) + unat (max 65536 MIN_BLOCK_SIZE) + 32 \<le> unat (65536 :: addr)"
    by (rule reachable_malloc_succeeds_iff_room [OF rs]) simp_all
  ultimately show ?thesis using r b by simp
qed

end
