(* ===== verification/Reallocator.thy ===== *)
theory Reallocator
  imports Deallocator
begin

text \<open>
  The Reallocator: \<^verbatim>\<open>copy_data\<close> and \<^verbatim>\<open>realloc\<close> of \<^verbatim>\<open>src/dynalloc.c\<close> (lines 173--220).
  \<^verbatim>\<open>realloc\<close> computes \<^verbatim>\<open>size_diff = size - header->size\<close> in \<^verbatim>\<open>size_t\<close>, so the
  test \<^verbatim>\<open>size_diff < 0\<close> is on an unsigned value; it is kept here as the word comparison
  the C compiler performs. Then it grows a tail block with \<^verbatim>\<open>sbrk\<close>, absorbs free
  successors of a mid-list block, or falls back to \<^verbatim>\<open>malloc\<close>, \<^verbatim>\<open>copy_data\<close> and
  \<^verbatim>\<open>free\<close>. The copy loop reads \<^verbatim>\<open>src->size\<close> again on every iteration and stops
  because the counter cannot pass that size: it is a \<open>function\<close> with a measure. The
  absorption loop follows pointers stored in the heap: it is a \<open>partial_function\<close>.
\<close>

section \<open>The operations\<close>

text \<open>
  Lines 177--178: \<^verbatim>\<open>for(i = 0; i < src->size; i++) *(dst_block + i) = *(src_block + i);\<close>
  with \<^verbatim>\<open>src_block = src + 1\<close> and \<^verbatim>\<open>dst_block = dst + 1\<close>.
\<close>

function copy_loop :: "addr \<Rightarrow> addr \<Rightarrow> size_t \<Rightarrow> mstate \<Rightarrow> mstate res" where
  "copy_loop src dst i s =
     bindE (load s src) (\<lambda>h.
     if i < hsize h then
       bindE (load_byte s (src + HDR_SIZE + i)) (\<lambda>v.
       bindE (store_byte (dst + HDR_SIZE + i) v s) (\<lambda>s.
       copy_loop src dst (i + 1) s))
     else Inr s)"
  by pat_completeness auto

termination copy_loop
  by (relation "measure (\<lambda>(_, _, i, _). 2 ^ 64 - unat i)")
     (auto intro: unat_suc_measure [simplified])

definition copy_data :: "addr \<Rightarrow> addr \<Rightarrow> mstate \<Rightarrow> mstate res" where
  "copy_data src dst s = copy_loop src dst 0 s"

text \<open>
  Lines 203--204: \<^verbatim>\<open>while(((header->next)->next)->free)
  merge_blocks(header->next, (header->next)->next);\<close>
\<close>

partial_function (option) absorb_loop :: "addr \<Rightarrow> mstate \<Rightarrow> mstate res option" where
  "absorb_loop header s =
     bindO (load s header) (\<lambda>h.
     bindO (load s (hnext h)) (\<lambda>hn.
     bindO (load s (hnext hn)) (\<lambda>hnn.
     if hfree hnn then bindO (merge_blocks (hnext h) (hnext hn) s) (\<lambda>(_, s). absorb_loop header s)
     else Some (Inr s))))"

text \<open>
  Lines 213--218: allocate, copy the old block's \<^verbatim>\<open>size\<close> bytes, free the old block.
\<close>

definition realloc_fallback :: "addr \<Rightarrow> size_t \<Rightarrow> mstate \<Rightarrow> (addr \<times> mstate) res option" where
  "realloc_fallback address sz s =
     (let header = address - HDR_SIZE in
      bindL (malloc sz s) (\<lambda>(new_address, s).
      if new_address = 0 then Some (Inr (0, s))
      else
        bindO (copy_data header (new_address - HDR_SIZE) s) (\<lambda>s.
        bindL (free address s) (\<lambda>s.
        Some (Inr (new_address, s))))))"

text \<open>Lines 184--220.\<close>

definition realloc :: "addr \<Rightarrow> size_t \<Rightarrow> mstate \<Rightarrow> (addr \<times> mstate) res option" where
  "realloc address sz s =
     (if address = 0 then Some (Inr (0, s))
      else
        let header = address - HDR_SIZE in
        bindO (load s header) (\<lambda>h.
        let size_diff = sz - hsize h in
        if size_diff < 0 then
          bindO (split_block header sz s) (\<lambda>(_, s). Some (Inr (address, s)))
        else if hnext h = 0 then
          (let (_, s) = sbrk size_diff s in
           bindO (upd_hdr header (\<lambda>h. h\<lparr>hsize := sz\<rparr>) s) (\<lambda>s. Some (Inr (address, s))))
        else
          bindO (load s (hnext h)) (\<lambda>hn.
          if hfree hn then
            bindL (absorb_loop header s) (\<lambda>s.
            bindO (load s header) (\<lambda>h.
            bindO (load s (hnext h)) (\<lambda>hn.
            if size_diff \<le> hsize hn then
              bindO (split_block (hnext h) size_diff s) (\<lambda>(_, s).
              bindO (load s header) (\<lambda>h.
              bindO (merge_blocks header (hnext h) s) (\<lambda>(_, s).
              Some (Inr (address, s)))))
            else realloc_fallback address sz s)))
          else realloc_fallback address sz s)))"


text \<open>
  A block in use, a free block of 100 data bytes and a block in use, each linked to the
  next; the break right after the third.
\<close>

definition demo_absorb :: mstate where
  "demo_absorb =
     \<lparr>first = 4096,
      hdrs = Map.empty(4096 \<mapsto> \<lparr>hnext = 4160, hprev = 0, hsize = 32, hfree = False\<rparr>,
                       4160 \<mapsto> \<lparr>hnext = 4292, hprev = 4096, hsize = 100, hfree = True\<rparr>,
                       4292 \<mapsto> \<lparr>hnext = 0, hprev = 4160, hsize = 32, hfree = False\<rparr>),
      dat = (\<lambda>_. 0), heap_start = 4096, heap_brk = 4356, heap_max = 65536\<rparr>"

text \<open>The two-block heap of \<open>demo_two\<close> whose every data byte holds the low byte of its address.\<close>

definition demo_bytes :: mstate where
  "demo_bytes = demo_two\<lparr>dat := (\<lambda>p. ucast p)\<rparr>"

text \<open>Two linked blocks in use whose data bytes hold the low byte of their address.\<close>

definition demo_used :: mstate where
  "demo_used =
     \<lparr>first = 4096,
      hdrs = Map.empty(4096 \<mapsto> \<lparr>hnext = 4160, hprev = 0, hsize = 32, hfree = False\<rparr>,
                       4160 \<mapsto> \<lparr>hnext = 0, hprev = 4096, hsize = 32, hfree = False\<rparr>),
      dat = (\<lambda>p. ucast p), heap_start = 4096, heap_brk = 4224, heap_max = 65536\<rparr>"

text \<open>A block of 64 data bytes in use, followed by one of 32 in use.\<close>

definition demo_wide :: mstate where
  "demo_wide =
     \<lparr>first = 4096,
      hdrs = Map.empty(4096 \<mapsto> \<lparr>hnext = 4192, hprev = 0, hsize = 64, hfree = False\<rparr>,
                       4192 \<mapsto> \<lparr>hnext = 0, hprev = 4096, hsize = 32, hfree = False\<rparr>),
      dat = (\<lambda>p. ucast p), heap_start = 4096, heap_brk = 4256, heap_max = 65536\<rparr>"

section \<open>Lemmas\<close>

lemma heap_ok_load_block:
  assumes "heap_ok s (pre @ b # post)"
  shows "load s (b_addr b) =
           Inr \<lparr>hnext = next_addr post, hprev = last_addr 0 pre, hsize = b_size b, hfree = b_free b\<rparr>"
  using heap_ok_block [OF assms] by (simp add: mem_simps)

lemma split_block_small:
  assumes "load s p = Inr h" and "unat d + 8 \<le> unat (hsize h)" and "unat (hsize h) < unat d + 40"
  shows "split_block p d s = Inr (0, s)"
proof -
  have "unat (hsize h - d - PTR_SIZE) = unat (hsize h) - unat d - 8"
    using assms(2) by (simp add: unat_sub word_le_nat_alt)
  then have "hsize h - d - PTR_SIZE < MIN_BLOCK_SIZE"
    using assms(3) by (simp add: word_less_nat_alt del: PTR_SIZE_def)
  then show ?thesis using assms(1) by (simp add: split_block_def Let_def del: PTR_SIZE_def MIN_BLOCK_SIZE_def)
qed

lemma absorb_loop_stop:
  assumes ok: "heap_ok s (pre @ A # B # C # post)" and uC: "\<not> b_free C"
  shows "absorb_loop (b_addr A) s = Some (Inr s)"
proof -
  have "load s (b_addr A) = Inr \<lparr>hnext = b_addr B, hprev = last_addr 0 pre, hsize = b_size A, hfree = b_free A\<rparr>"
    using heap_ok_load_block [of s pre A "B # C # post"] ok by simp
  moreover have "load s (b_addr B) = Inr \<lparr>hnext = b_addr C, hprev = b_addr A, hsize = b_size B, hfree = b_free B\<rparr>"
    using heap_ok_load_block [of s "pre @ [A]" B "C # post"] ok by simp
  moreover have "load s (b_addr C) = Inr \<lparr>hnext = next_addr post, hprev = b_addr B, hsize = b_size C, hfree = b_free C\<rparr>"
    using heap_ok_load_block [of s "pre @ [A, B]" C post] ok by simp
  ultimately show ?thesis using uC by (simp add: absorb_loop.simps)
qed

lemma heap_ok_three_addrs:
  assumes ok: "heap_ok s (pre @ A # B # C # post)"
  shows "unat (heap_start s) \<le> unat (b_addr A)"
    and "unat (b_addr B) = unat (b_addr A) + 32 + unat (b_size A)"
    and "unat (b_addr C) = unat (b_addr B) + 32 + unat (b_size B)"
    and "unat (b_addr C) + 32 + unat (b_size C) \<le> unat (heap_brk s)"
proof -
  from ok obtain mid where tp: "tiled (unat (heap_start s)) pre mid" and ua: "unat (b_addr A) = mid"
    and ta: "tiled (mid + 32 + unat (b_size A)) (B # C # post) (unat (heap_brk s))"
    by (rule heap_ok_tiled) simp
  show "unat (heap_start s) \<le> unat (b_addr A)" using tiled_le [OF tp] ua by simp
  show "unat (b_addr B) = unat (b_addr A) + 32 + unat (b_size A)" using ta ua by simp
  show "unat (b_addr C) = unat (b_addr B) + 32 + unat (b_size B)" using ta ua by simp
  show "unat (b_addr C) + 32 + unat (b_size C) \<le> unat (heap_brk s)"
    using heap_ok_extent [of s "pre @ [A, B]" C post] ok by simp
qed

lemma demo_absorb_ok: "heap_ok demo_absorb ([] @ Blk 4096 32 False # Blk 4160 100 True # Blk 4292 32 False # [])"
  by (simp add: demo_absorb_def heap_ok_def)

lemma set_break_keeps:
  "unat q + unat HDR_SIZE \<le> unat b \<Longrightarrow> hdrs (set_break b s) q = hdrs s q"
  by (simp add: set_break_def)

lemma heap_ok_resize_last:
  assumes ok: "heap_ok s (pre @ [A])" and mn: "MIN_BLOCK_SIZE \<le> n"
    and fit: "unat (b_addr A) + 32 + unat n \<le> unat (heap_max s)"
  defines "b \<equiv> b_addr A + HDR_SIZE + n"
  defines "s' \<equiv> (set_break b s)\<lparr>hdrs := (hdrs (set_break b s))(b_addr A \<mapsto>
              \<lparr>hnext = 0, hprev = last_addr 0 pre, hsize = n, hfree = b_free A\<rparr>)\<rparr>"
  shows "unat b = unat (b_addr A) + 32 + unat n"
    and "upd_hdr (b_addr A) (\<lambda>h. h\<lparr>hsize := n\<rparr>) (set_break b s) = Inr s'"
    and "heap_ok s' (pre @ [Blk (b_addr A) n (b_free A)])"
proof -
  have ub: "unat b = unat (b_addr A) + 32 + unat n"
    using fit unat_lt_2p64 [of "heap_max s"] by (simp add: b_def unat_add3_nowrap)
  then show "unat b = unat (b_addr A) + 32 + unat n" .
  from heap_ok_block [of s pre A "[]"] ok have
    hA: "hdrs s (b_addr A) = Some \<lparr>hnext = 0, hprev = last_addr 0 pre, hsize = b_size A, hfree = b_free A\<rparr>"
    and nz: "b_addr A \<noteq> 0" and inA: "in_heap s (b_addr A)" by simp_all
  from ok obtain mid where tp: "tiled (unat (heap_start s)) pre mid" and ua: "unat (b_addr A) = mid"
    by (rule heap_ok_tiled)
  have keep: "hdrs (set_break b s) (b_addr A) = hdrs s (b_addr A)"
    using ub by (intro set_break_keeps) simp
  have inA': "in_heap (set_break b s) (b_addr A)"
    using inA ub by (simp add: in_heap_def set_break_def)
  show "upd_hdr (b_addr A) (\<lambda>h. h\<lparr>hsize := n\<rparr>) (set_break b s) = Inr s'"
    using nz inA' keep hA by (simp add: mem_simps s'_def)
  have eqs: "\<forall>q \<in> b_addr ` set pre. hdrs s' q = hdrs s q"
  proof
    fix q assume "q \<in> b_addr ` set pre"
    then have "unat q + 32 \<le> unat (b_addr A)" using tp ua by (fastforce dest: tiled_mem)
    then show "hdrs s' q = hdrs s q" using ub by (auto simp: s'_def set_break_def)
  qed
  have "first s' = first s" by (simp add: s'_def set_break_def)
  then have sgpre: "seg (hdrs s') 0 (first s') pre (b_addr A)"
    using heap_ok_split(1) [of s pre A "[]"] ok by (subst seg_cong [OF eqs]) simp_all
  have sgA: "seg (hdrs s') (last_addr 0 pre) (b_addr A) [Blk (b_addr A) n (b_free A)] 0"
    using nz by (simp add: s'_def)
  have lst: "list_all (\<lambda>b. MIN_BLOCK_SIZE \<le> b_size b) pre" and st: "heap_start s \<noteq> 0"
    using ok by (simp_all add: heap_ok_def)
  have "b \<le> heap_max s" using ub fit by (simp add: word_le_nat_alt)
  then show "heap_ok s' (pre @ [Blk (b_addr A) n (b_free A)])"
    using sgpre sgA tp ua ub lst st mn
    by (auto simp: heap_ok_def seg_append tiled_append s'_def set_break_def)
qed

lemma size_diff_not_neg: "\<not> (x :: size_t) < 0"
  by (simp add: not_less)

lemma heap_ok_last_brk:
  assumes "heap_ok s (pre @ [A])"
  shows "unat (heap_brk s) = unat (b_addr A) + 32 + unat (b_size A)"
proof -
  from assms obtain mid where "unat (b_addr A) = mid"
    and "tiled (mid + unat HDR_SIZE + unat (b_size A)) [] (unat (heap_brk s))"
    by (rule heap_ok_tiled)
  then show ?thesis by simp
qed

lemma overlaps_step:
  assumes "unat p + 1 < 2 ^ 64" and "0 < n"
  shows "(overlaps p 1 q \<or> overlaps (p + 1) n q) \<longleftrightarrow> overlaps p (Suc n) q"
proof -
  have "unat (p + 1) = unat p + 1" using assms(1) by (simp add: unat_add_nowrap)
  then show ?thesis using assms(2) by (auto simp: overlaps_def)
qed

lemma copy_window_step:
  fixes i z a r :: addr
  assumes iz: "i < z" and sep: "\<And>j. i < j \<Longrightarrow> j < z \<Longrightarrow> r + j \<noteq> a + i"
  shows "(if i + 1 \<le> p - a \<and> p - a < z then (d(a + i := d (r + i))) (r + (p - a)) else (d(a + i := d (r + i))) p) =
         (if i \<le> p - a \<and> p - a < z then d (r + (p - a)) else d p)"
proof -
  have ui1: "unat (i + 1) = unat i + 1" using iz by (rule unat_suc_less)
  show ?thesis
  proof (cases "p = a + i")
    case True
    then show ?thesis using iz ui1 by (simp add: word_le_nat_alt)
  next
    case False
    then have "p - a \<noteq> i" by auto
    then have "unat (p - a) \<noteq> unat i" by (metis word_unat_eq_iff)
    then have iff: "(i + 1 \<le> p - a) = (i < p - a)" "(i \<le> p - a) = (i < p - a)"
      using ui1 by (auto simp: word_le_nat_alt word_less_nat_alt)
    show ?thesis using sep [of "p - a"] False by (auto simp: iff)
  qed
qed

lemma copy_loop_run:
  assumes "load s src = Inr h"
    and "unat src + 32 + unat (hsize h) \<le> unat (heap_brk s)"
    and "unat (heap_start s) \<le> unat dst + 32" and "unat dst + 32 + unat (hsize h) \<le> unat (heap_brk s)"
    and "unat src + 32 + unat (hsize h) \<le> unat dst + 32 \<or> unat dst + 32 + unat (hsize h) \<le> unat src"
    and "i \<le> hsize h"
  shows "\<exists>s'. copy_loop src dst i s = Inr s' \<and> s' = s\<lparr>dat := dat s', hdrs := hdrs s'\<rparr> \<and>
     (\<forall>p. dat s' p = (if i \<le> p - (dst + 32) \<and> p - (dst + 32) < hsize h
                      then dat s (src + 32 + (p - (dst + 32))) else dat s p)) \<and>
     (\<forall>q. hdrs s' q = (if i < hsize h \<and> overlaps (dst + 32 + i) (unat (hsize h) - unat i) q
                       then None else hdrs s q))"
  using assms
proof (induction src dst i s rule: copy_loop.induct)
  case (1 src dst i s)
  let ?z = "hsize h" and ?a = "dst + 32"
  have bnd: "unat dst + 32 + unat ?z < 2 ^ 64" using "1.prems"(4) unat_lt_2p64 [of "heap_brk s"] by linarith
  have bnds: "unat src + 32 + unat ?z < 2 ^ 64" using "1.prems"(2) unat_lt_2p64 [of "heap_brk s"] by linarith
  have ua: "unat ?a = unat dst + 32" using bnd by (simp add: unat_add_nowrap)
  show ?case
  proof (cases "i < ?z")
    case False
    then have iz: "i = ?z" using "1.prems"(6) by simp
    have nc: "\<forall>p. \<not> (i \<le> p - ?a \<and> p - ?a < ?z)" using iz by auto
    have "copy_loop src dst i s = Inr s"
      using False "1.prems"(1) by (simp add: copy_loop.simps [of src dst i s])
    moreover have "(if i \<le> p - ?a \<and> p - ?a < ?z then dat s (src + 32 + (p - ?a)) else dat s p) = dat s p" for p
      using nc by auto
    ultimately show ?thesis using False by simp
  next
    case True
    let ?p = "dst + 32 + i" and ?r = "src + 32 + i"
    have ui: "unat i < unat ?z" using True by (simp add: word_less_nat_alt)
    have up: "unat ?p = unat dst + 32 + unat i" using bnd ui by (simp add: unat_add3_nowrap)
    have ur: "unat ?r = unat src + 32 + unat i" using bnds ui by (simp add: unat_add3_nowrap)
    have pz: "?p \<noteq> 0" "?r \<noteq> 0" using up ur by (auto simp: unat_eq_zero [symmetric] simp del: unat_eq_zero)
    have src_in: "unat (heap_start s) \<le> unat src" using "1.prems"(1) by (simp add: load_Inr in_heap_def)
    have ind: "in_data s ?p" "in_data s ?r"
      using up ur ui src_in "1.prems"(2-4) by (simp_all add: in_data_def)
    define s1 where "s1 = s\<lparr>dat := (dat s)(?p := dat s ?r), hdrs := clobber ?p 1 (hdrs s)\<rparr>"
    have st: "store_byte ?p (dat s ?r) s = Inr s1" using pz ind by (simp add: store_byte_def s1_def)
    have lb: "load_byte s ?r = Inr (dat s ?r)" using pz ind by (simp add: load_byte_def)
    have novl: "\<not> overlaps ?p 1 src" using up ui "1.prems"(5) by (auto simp: overlaps_def)
    have l1: "load s1 src = Inr h" using "1.prems"(1) novl
      by (simp add: s1_def load_Inr in_heap_def clobber_def)
    have "i + 1 \<le> ?z" using True by (simp add: inc_le)
    then obtain s' where run: "copy_loop src dst (i + 1) s1 = Inr s'"
      and fr: "s' = s1\<lparr>dat := dat s', hdrs := hdrs s'\<rparr>"
      and dt: "\<forall>p. dat s' p = (if i + 1 \<le> p - ?a \<and> p - ?a < ?z then dat s1 (src + 32 + (p - ?a)) else dat s1 p)"
      and hd: "\<forall>q. hdrs s' q = (if i + 1 < ?z \<and> overlaps (?a + (i + 1)) (unat ?z - unat (i + 1)) q
                                then None else hdrs s1 q)"
      using "1.IH" [OF "1.prems"(1) True, unfolded HDR_SIZE_def, OF lb st] l1 "1.prems"(2-5) by (auto simp: s1_def)
    have ui1: "unat (i + 1) = unat i + 1" using True by (rule unat_suc_less)
    have eq: "copy_loop src dst i s = Inr s'"
      using "1.prems"(1) True lb st run by (simp add: copy_loop.simps [of src dst i s])
    have sep: "src + 32 + j \<noteq> ?a + i" if "i < j" "j < ?z" for j
    proof
      have uj: "unat j < unat ?z" using that(2) by (simp add: word_less_nat_alt)
      then have "unat src + unat (32 :: addr) + unat j < 2 ^ 64" using bnds by simp
      from unat_add3_nowrap [OF this]
      have us: "unat (src + 32 + j) = unat src + 32 + unat j" by simp
      assume "src + 32 + j = ?a + i"
      then have "unat (src + 32 + j) = unat ?p" by (rule arg_cong)
      then show False using us up uj ui "1.prems"(5) by linarith
    qed
    have d1: "dat s1 = (dat s)(?a + i := dat s (src + 32 + i))" by (simp add: s1_def)
    have "dat s' p = (if i \<le> p - ?a \<and> p - ?a < ?z then dat s (src + 32 + (p - ?a)) else dat s p)" for p
    proof -
      have "dat s' p = (if i + 1 \<le> p - ?a \<and> p - ?a < ?z then dat s1 (src + 32 + (p - ?a)) else dat s1 p)"
        using dt by blast
      also have "\<dots> = (if i \<le> p - ?a \<and> p - ?a < ?z then dat s (src + 32 + (p - ?a)) else dat s p)"
        unfolding d1 by (rule copy_window_step [OF True sep])
      finally show ?thesis .
    qed
    moreover have "hdrs s' q = (if i < ?z \<and> overlaps ?p (unat ?z - unat i) q then None else hdrs s q)" for q
    proof (cases "i + 1 < ?z")
      case True
      then have n0: "0 < unat ?z - unat (i + 1)" by (simp add: word_less_nat_alt)
      have "unat ?p + 1 < 2 ^ 64" using up ui bnd by linarith
      from overlaps_step [OF this n0, of q]
      have "(overlaps ?p 1 q \<or> overlaps (?p + 1) (unat ?z - unat (i + 1)) q) = overlaps ?p (unat ?z - unat i) q"
        using ui1 ui by (simp add: Suc_diff_Suc)
      moreover have "?a + (i + 1) = ?p + 1" by simp
      ultimately show ?thesis using hd True \<open>i < ?z\<close> by (auto simp: s1_def clobber_def)
    next
      case False
      then have "unat ?z - unat i = 1" using ui ui1 \<open>i < ?z\<close>
        by (simp add: word_less_nat_alt)
      then show ?thesis using hd False \<open>i < ?z\<close> by (simp add: s1_def clobber_def)
    qed
    moreover have "s' = s\<lparr>dat := dat s', hdrs := hdrs s'\<rparr>" using fr by (simp add: s1_def)
    ultimately show ?thesis using eq by auto
  qed
qed

lemma copy_loop_overflow:
  assumes "load s src = Inr h"
    and "unat src + 32 + unat (hsize h) \<le> unat dst + 32"
    and "unat (heap_start s) \<le> unat dst + 32"
    and "unat dst + 32 + unat k = unat (heap_brk s)" and "k < hsize h" and "i \<le> k"
  shows "copy_loop src dst i s = Inl (Unmapped (dst + 32 + k))"
  using assms
proof (induction src dst i s rule: copy_loop.induct)
  case (1 src dst i s)
  let ?z = "hsize h"
  have bnd: "unat dst + 32 + unat k < 2 ^ 64" using "1.prems"(4) unat_lt_2p64 [of "heap_brk s"] by linarith
  have ik: "unat i \<le> unat k" "unat k < unat ?z" using "1.prems"(5,6) by (simp_all add: word_le_nat_alt word_less_nat_alt)
  have iz: "i < ?z" using "1.prems"(5,6) by simp
  let ?p = "dst + 32 + i" and ?r = "src + 32 + i"
  have up: "unat ?p = unat dst + 32 + unat i" using bnd ik by (simp add: unat_add3_nowrap)
  have ur: "unat ?r = unat src + 32 + unat i" using "1.prems"(2) bnd ik by (simp add: unat_add3_nowrap)
  have pz: "?p \<noteq> 0" "?r \<noteq> 0" using up ur by (auto simp: unat_eq_zero [symmetric] simp del: unat_eq_zero)
  have src_in: "unat (heap_start s) \<le> unat src" using "1.prems"(1) by (simp add: load_Inr in_heap_def)
  have inr: "in_data s ?r" using ur ik src_in "1.prems"(2,4) by (simp add: in_data_def)
  have lb: "load_byte s ?r = Inr (dat s ?r)" using pz inr by (simp add: load_byte_def)
  show ?case
  proof (cases "i = k")
    case True
    have "\<not> in_data s ?p" using up True "1.prems"(4) by (simp add: in_data_def)
    then have "store_byte ?p (dat s ?r) s = Inl (Unmapped ?p)" using pz by (simp add: store_byte_def)
    then show ?thesis using "1.prems"(1) iz lb True by (simp add: copy_loop.simps [of src dst i s])
  next
    case False
    then have ik': "i < k" using "1.prems"(6) by simp
    then have "unat i < unat k" by (simp add: word_less_nat_alt)
    then have inp: "in_data s ?p" using up "1.prems"(3,4) by (simp add: in_data_def)
    define s1 where "s1 = s\<lparr>dat := (dat s)(?p := dat s ?r), hdrs := clobber ?p 1 (hdrs s)\<rparr>"
    have st: "store_byte ?p (dat s ?r) s = Inr s1" using pz inp by (simp add: store_byte_def s1_def)
    have novl: "\<not> overlaps ?p 1 src" using up "1.prems"(2) by (auto simp: overlaps_def)
    have l1: "load s1 src = Inr h" using "1.prems"(1) novl
      by (simp add: s1_def load_Inr in_heap_def clobber_def)
    have "i + 1 \<le> k" using ik' by (simp add: inc_le)
    then have "copy_loop src dst (i + 1) s1 = Inl (Unmapped (dst + 32 + k))"
      using "1.IH" [OF "1.prems"(1) iz, unfolded HDR_SIZE_def, OF lb st] l1 "1.prems"(2-5)
      by (simp add: s1_def)
    then show ?thesis using "1.prems"(1) iz lb st by (simp add: copy_loop.simps [of src dst i s])
  qed
qed

lemma heap_ok_succ_in:
  assumes ok1: "heap_ok s1 (P @ A # Q)" and cin: "C \<in> set (P @ A # Q)"
    and uc: "unat (b_addr C) = unat (b_addr A) + 32 + unat (b_size A)"
  shows "next_addr Q = b_addr C"
proof -
  from ok1 obtain mid where ua: "unat (b_addr A) = mid"
    and tq: "tiled (mid + unat HDR_SIZE + unat (b_size A)) Q (unat (heap_brk s1))"
    by (rule heap_ok_tiled)
  show ?thesis
  proof (cases Q)
    case Nil
    then have "unat (heap_brk s1) = unat (b_addr A) + 32 + unat (b_size A)" using tq ua by simp
    moreover have "unat (b_addr C) + 32 \<le> unat (heap_brk s1)" by (rule heap_ok_below_brk [OF ok1 cin])
    ultimately show ?thesis using uc by simp
  next
    case (Cons D Q')
    then have "unat (b_addr D) = unat (b_addr C)" using tq ua uc by simp
    then show ?thesis using Cons by (simp add: word_unat_eq_iff)
  qed
qed

section \<open>Properties of realloc\<close>

text \<open>
  C15. realloc of the tail block resizes it in place, growing or shrinking: the break
  moves to the end of the resized block. Shrinking works because \<open>size_diff\<close> wraps
  around and \<^verbatim>\<open>sbrk\<close> reads it as a negative increment.
\<close>

theorem realloc_tail_resize:
  assumes ok: "heap_ok s (pre @ [A])" and mn: "MIN_BLOCK_SIZE \<le> n"
    and fit: "unat (b_addr A) + 32 + unat n \<le> unat (heap_max s)"
    and small: "unat (heap_max s) < 2 ^ 63"
  shows "\<exists>s'. realloc (b_addr A + HDR_SIZE) n s = Some (Inr (b_addr A + HDR_SIZE, s')) \<and>
              heap_ok s' (pre @ [Blk (b_addr A) n (b_free A)]) \<and>
              heap_brk s' = b_addr A + HDR_SIZE + n"
proof -
  let ?a = "b_addr A" and ?z = "b_size A"
  define b where "b = ?a + HDR_SIZE + n"
  define s' where "s' = (set_break b s)\<lparr>hdrs := (hdrs (set_break b s))(?a \<mapsto>
              \<lparr>hnext = 0, hprev = last_addr 0 pre, hsize = n, hfree = b_free A\<rparr>)\<rparr>"
  note rs = heap_ok_resize_last [OF ok mn fit, folded b_def s'_def]
  have ok': "heap_ok s (pre @ A # [])" using ok by simp
  have nz: "?a + HDR_SIZE \<noteq> 0" by (rule heap_ok_data_addr [OF ok'])
  from heap_ok_block [OF ok'] have lA: "load s ?a =
      Inr \<lparr>hnext = 0, hprev = last_addr 0 pre, hsize = ?z, hfree = b_free A\<rparr>"
    by (simp add: mem_simps)
  have ubrk: "unat (heap_brk s) = unat ?a + 32 + unat ?z" by (rule heap_ok_last_brk [OF ok])
  have bm: "unat (heap_brk s) \<le> unat (heap_max s)" using ok by (simp add: heap_ok_def word_le_nat_alt)
  have sa: "unat (heap_start s) \<le> unat ?a" using heap_ok_extent [OF ok'] by simp
  have sd: "sint (n - ?z) = int (unat n) - int (unat ?z)"
    using fit small ubrk bm by (intro sint_diff_small) linarith+
  have "int (unat (heap_brk s)) = int (unat ?a + 32 + unat ?z)" using ubrk by (simp only:)
  then have i1: "uint (heap_brk s) = uint ?a + 32 + uint ?z" by simp
  have "int (unat (heap_start s)) \<le> int (unat ?a)" using sa by (simp only: of_nat_le_iff)
  then have i2: "uint (heap_start s) \<le> uint ?a" by simp
  have "int (unat ?a + 32 + unat n) \<le> int (unat (heap_max s))" using fit by (simp only: of_nat_le_iff)
  then have i3: "uint ?a + 32 + uint n \<le> uint (heap_max s)" by simp
  have sd': "sint (n - ?z) = uint n - uint ?z" using sd by simp
  have "uint (heap_start s) \<le> uint (heap_brk s) + sint (n - ?z)"
    unfolding sd' i1 using i2 uint_ge_0 [of n] by linarith
  moreover have "uint (heap_brk s) + sint (n - ?z) \<le> uint (heap_max s)"
    unfolding sd' i1 using i3 by linarith
  ultimately have sb: "sbrk (n - ?z) s = (heap_brk s, set_break (heap_brk s + (n - ?z)) s)"
    by (rule sbrk_ok)
  have "heap_brk s = ?a + 32 + ?z"
    using ubrk unat_lt_2p64 [of "heap_brk s"] by (simp add: word_unat_eq_iff unat_add3_nowrap)
  then have nb: "heap_brk s + (n - ?z) = b" by (simp add: b_def)
  have "realloc (?a + HDR_SIZE) n s = Some (Inr (?a + HDR_SIZE, s'))"
    using nz lA sb nb rs(2) by (simp add: realloc_def Let_def size_diff_not_neg s'_def)
  moreover have "heap_brk s' = ?a + HDR_SIZE + n" by (simp add: s'_def set_break_def b_def)
  moreover have "heap_ok s' (pre @ [Blk ?a n (b_free A)])" using rs(3) by (simp add: s'_def)
  ultimately show ?thesis by blast
qed

theorem realloc_tail_resize_witness:
  "heap_ok demo_one ([] @ [Blk 4096 100 True]) \<and>
   (\<exists>s'. realloc 4128 40 demo_one = Some (Inr (4128, s')) \<and>
         heap_ok s' [Blk 4096 40 True] \<and> heap_brk s' = 4168)"
proof -
  have ok: "heap_ok demo_one ([] @ [Blk 4096 100 True])" by (simp add: demo_one_def heap_ok_def)
  have "unat (4096 :: addr) + 32 + unat (40 :: size_t) \<le> unat (heap_max demo_one)"
    "unat (heap_max demo_one) < 2 ^ 63"
    by (simp_all add: demo_one_def)
  with realloc_tail_resize [OF ok, of 40] ok show ?thesis by simp
qed

text \<open>
  C16. realloc of a block whose successor is the free tail block dereferences NULL,
  whatever the requested size: the absorption loop reads \<^verbatim>\<open>((header->next)->next)->free\<close>.
\<close>

theorem realloc_absorb_tail_null:
  assumes ok: "heap_ok s (pre @ [A, B])" and fB: "b_free B"
  shows "realloc (b_addr A + HDR_SIZE) n s = Some (Inl Null_deref)"
proof -
  have ok': "heap_ok s (pre @ A # [B])" using ok by simp
  have nz: "b_addr A + HDR_SIZE \<noteq> 0" by (rule heap_ok_data_addr [OF ok'])
  have lA: "load s (b_addr A) = Inr \<lparr>hnext = b_addr B, hprev = last_addr 0 pre, hsize = b_size A, hfree = b_free A\<rparr>"
    using heap_ok_load_block [of s pre A "[B]"] ok by simp
  have lB: "load s (b_addr B) = Inr \<lparr>hnext = 0, hprev = b_addr A, hsize = b_size B, hfree = b_free B\<rparr>"
    using heap_ok_load_block [of s "pre @ [A]" B "[]"] ok by simp
  have nB: "b_addr B \<noteq> 0" using heap_ok_block [of s "pre @ [A]" B "[]"] ok by simp
  have "absorb_loop (b_addr A) s = Some (Inl Null_deref)"
    using lA lB by (simp add: absorb_loop.simps load_null)
  then show ?thesis using nz lA lB nB fB by (simp add: realloc_def Let_def size_diff_not_neg)
qed

theorem realloc_absorb_tail_null_witness:
  "heap_ok demo_two ([] @ [Blk 4096 40 True, Blk 4168 32 True]) \<and>
   realloc 4128 48 demo_two = Some (Inl Null_deref)"
proof -
  have ok: "heap_ok demo_two ([] @ [Blk 4096 40 True, Blk 4168 32 True])"
    by (simp add: demo_two_def heap_ok_def)
  show ?thesis using realloc_absorb_tail_null [OF ok, of 48] ok by simp
qed

text \<open>
  C17. realloc growing a block by \<open>delta\<close> whose successor is free and followed by a
  block in use, when the successor's size lies in \<open>[delta + 8, delta + 40)\<close>, absorbs
  the whole successor: \<^verbatim>\<open>split_block\<close> is a no-op and \<^verbatim>\<open>merge_blocks\<close> joins the two
  blocks. The directory stays well formed and the same pointer is returned.
\<close>

theorem realloc_absorb_fits:
  assumes ok: "heap_ok s (pre @ A # B # C # post)" and fB: "b_free B" and uC: "\<not> b_free C"
    and lo: "unat (n - b_size A) + 8 \<le> unat (b_size B)"
    and hi: "unat (b_size B) < unat (n - b_size A) + 40"
  shows "\<exists>s'. realloc (b_addr A + HDR_SIZE) n s = Some (Inr (b_addr A + HDR_SIZE, s')) \<and>
              heap_ok s' (pre @ absorb A B # C # post)"
proof -
  have nz: "b_addr A + HDR_SIZE \<noteq> 0" by (rule heap_ok_data_addr [OF ok])
  have lA: "load s (b_addr A) = Inr \<lparr>hnext = b_addr B, hprev = last_addr 0 pre, hsize = b_size A, hfree = b_free A\<rparr>"
    using heap_ok_load_block [of s pre A "B # C # post"] ok by simp
  have lB: "load s (b_addr B) = Inr \<lparr>hnext = b_addr C, hprev = b_addr A, hsize = b_size B, hfree = b_free B\<rparr>"
    using heap_ok_load_block [of s "pre @ [A]" B "C # post"] ok by simp
  have nB: "b_addr B \<noteq> 0" using heap_ok_block [of s "pre @ [A]" B "C # post"] ok by simp
  have le: "n - b_size A \<le> b_size B" using lo by (simp add: word_le_nat_alt)
  have sp: "split_block (b_addr B) (n - b_size A) s = Inr (0, s)"
    using split_block_small [OF lB] lo hi by simp
  have ok': "heap_ok s (pre @ A # B # (C # post))" using ok by simp
  from merge_blocks_absorb [OF ok'] obtain s' where
    mg: "merge_blocks (b_addr A) (b_addr B) s = Inr (b_addr A, s')" and
    ok2: "heap_ok s' (pre @ absorb A B # C # post)" by blast
  have "realloc (b_addr A + HDR_SIZE) n s = Some (Inr (b_addr A + HDR_SIZE, s'))"
    using nz lA lB nB fB le sp mg absorb_loop_stop [OF ok uC]
    by (simp add: realloc_def Let_def size_diff_not_neg)
  with ok2 show ?thesis by blast
qed

theorem realloc_absorb_fits_witness:
  "heap_ok demo_absorb ([] @ Blk 4096 32 False # Blk 4160 100 True # Blk 4292 32 False # []) \<and>
   (\<exists>s'. realloc 4128 112 demo_absorb = Some (Inr (4128, s')) \<and>
         heap_ok s' [Blk 4096 164 False, Blk 4292 32 False])"
  using realloc_absorb_fits [OF demo_absorb_ok] demo_absorb_ok by (simp add: absorb_def)

text \<open>
  C18. realloc growing a block by \<open>delta\<close> into a free successor whose size is at least
  \<open>delta + 40\<close> splits the successor and merges the first part into the block; since
  \<^verbatim>\<open>split_block\<close> never truncates the successor, the grown block's recorded size runs
  over the whole successor, and the new free header it links to next lies inside the
  data region handed back to the caller.
\<close>

theorem realloc_absorb_overlaps:
  assumes ok: "heap_ok s (pre @ A # B # C # post)" and fB: "b_free B" and uC: "\<not> b_free C"
    and fits: "unat (n - b_size A) + 40 \<le> unat (b_size B)"
  defines "r \<equiv> b_addr B + HDR_SIZE + (n - b_size A)"
  shows "\<exists>s'. realloc (b_addr A + HDR_SIZE) n s = Some (Inr (b_addr A + HDR_SIZE, s')) \<and>
              hdrs s' (b_addr A) = Some \<lparr>hnext = r, hprev = last_addr 0 pre,
                hsize = HDR_SIZE + b_size A + b_size B, hfree = b_free A\<rparr> \<and>
              hdrs s' r = Some \<lparr>hnext = b_addr C, hprev = b_addr A,
                hsize = b_size B - (n - b_size A) - PTR_SIZE, hfree = True\<rparr> \<and>
              unat (b_addr A) + 32 < unat r \<and>
              unat r + 32 \<le> unat (b_addr A) + 32 + unat (HDR_SIZE + b_size A + b_size B)"
proof -
  let ?a = "b_addr A" and ?b = "b_addr B" and ?c = "b_addr C" and ?d = "n - b_size A"
  note ad = heap_ok_three_addrs [OF ok]
  have bnd: "unat ?c + 32 + unat (b_size C) < 2 ^ 64"
    using ad(4) unat_lt_2p64 [of "heap_brk s"] by linarith
  have ur: "unat r = unat ?b + 32 + unat ?d"
    unfolding r_def using ad bnd fits by (simp add: unat_add3_nowrap)
  have usz: "unat (HDR_SIZE + b_size A + b_size B) = 32 + unat (b_size A) + unat (b_size B)"
    using ad bnd by (simp add: unat_add3_nowrap)
  have neq: "?a \<noteq> r" "?b \<noteq> r" "?c \<noteq> r" "?a \<noteq> ?b" "?a \<noteq> ?c" "?b \<noteq> ?c" "r \<noteq> 0"
    using ur ad fits by (auto simp: unat_arith_simps)
  have ltAB: "?a < ?b" using ad by (simp add: word_less_nat_alt)
  have minmax: "min ?a ?b = ?a" "max ?a ?b = ?b" using ltAB by simp_all
  have novl: "\<not> overlaps r (unat HDR_SIZE) ?a" using ur ad by (simp add: overlaps_def)
  have inR: "in_heap s r" using ur ad fits by (simp add: in_heap_def)
  have ok': "heap_ok s ((pre @ [A]) @ B # C # post)" using ok by simp
  have fits': "unat ?d + 40 \<le> unat (b_size B)" by (rule fits)
  note sp = split_block_run(1) [OF ok' fits', folded r_def]
  have hA: "hdrs s ?a = Some \<lparr>hnext = ?b, hprev = last_addr 0 pre, hsize = b_size A, hfree = b_free A\<rparr>"
    and nzA: "?a \<noteq> 0" and inA: "in_heap s ?a"
    using heap_ok_block [of s pre A "B # C # post"] ok by simp_all
  have lB: "load s ?b = Inr \<lparr>hnext = ?c, hprev = ?a, hsize = b_size B, hfree = b_free B\<rparr>"
    and nzB: "?b \<noteq> 0" and inB: "in_heap s ?b"
    using heap_ok_block [of s "pre @ [A]" B "C # post"] ok by (simp_all add: mem_simps)
  have nz: "?a + HDR_SIZE \<noteq> 0" by (rule heap_ok_data_addr [OF ok])
  have le: "?d \<le> b_size B" using fits by (simp add: word_le_nat_alt)
  let ?s' = "s\<lparr>hdrs := (clobber r (unat HDR_SIZE) (hdrs s))
                   (r \<mapsto> \<lparr>hnext = ?c, hprev = ?a, hsize = b_size B - ?d - PTR_SIZE, hfree = True\<rparr>,
                    ?c \<mapsto> \<lparr>hnext = next_addr post, hprev = r, hsize = b_size C, hfree = b_free C\<rparr>,
                    ?b \<mapsto> \<lparr>hnext = r, hprev = ?a, hsize = b_size B, hfree = b_free B\<rparr>,
                    ?a \<mapsto> \<lparr>hnext = r, hprev = last_addr 0 pre, hsize = HDR_SIZE + b_size A + b_size B, hfree = b_free A\<rparr>)\<rparr>"
  have "realloc (?a + HDR_SIZE) n s = Some (Inr (?a + HDR_SIZE, ?s'))"
    using nz hA lB nzB fB le sp absorb_loop_stop [OF ok uC] neq minmax novl inA inB inR nzA
    by (simp add: realloc_def Let_def size_diff_not_neg merge_blocks_def mem_simps clobber_def
                  fun_upd_twist del: PTR_SIZE_def)
  moreover have "unat ?a + 32 < unat r" "unat r + 32 \<le> unat ?a + 32 + unat (HDR_SIZE + b_size A + b_size B)"
    using ur ad usz fits by simp_all
  ultimately show ?thesis using neq by (simp add: fun_upd_twist)
qed

theorem realloc_absorb_overlaps_witness:
  "heap_ok demo_absorb ([] @ Blk 4096 32 False # Blk 4160 100 True # Blk 4292 32 False # []) \<and>
   (\<exists>s'. realloc 4128 64 demo_absorb = Some (Inr (4128, s')) \<and>
         hdrs s' 4096 = Some \<lparr>hnext = 4224, hprev = 0, hsize = 164, hfree = False\<rparr> \<and>
         hdrs s' 4224 = Some \<lparr>hnext = 4292, hprev = 4096, hsize = 60, hfree = True\<rparr>)"
  using realloc_absorb_overlaps [OF demo_absorb_ok, of 64] demo_absorb_ok by simp

text \<open>
  C24. realloc growing a block whose successor is in use, when no free block fits,
  takes the fallback: it allocates a new block at the old break, copies the old block's
  data into it and frees the old block, which stays in the chain with its flag set.
\<close>

theorem realloc_fallback_grows:
  assumes ok: "heap_ok s (pre @ A # C # post)" and uA: "\<not> b_free A" and uC: "\<not> b_free C"
    and nf: "first_fit (max n MIN_BLOCK_SIZE) [] (pre @ A # C # post) = (bs', None)"
    and grow: "b_size A \<le> n"
    and room: "unat (heap_brk s) + unat (max n MIN_BLOCK_SIZE) + 32 \<le> unat (heap_max s)"
    and small: "unat (max n MIN_BLOCK_SIZE) + 32 < 2 ^ 63"
  shows "\<exists>s'. realloc (b_addr A + HDR_SIZE) n s = Some (Inr (heap_brk s + HDR_SIZE, s')) \<and>
              (\<forall>j. j < b_size A \<longrightarrow> dat s' (heap_brk s + HDR_SIZE + j) = dat s (b_addr A + HDR_SIZE + j)) \<and>
              hdrs s' (heap_brk s) = Some \<lparr>hnext = 0, hprev = last_addr 0 bs',
                                           hsize = max n MIN_BLOCK_SIZE, hfree = False\<rparr> \<and>
              (\<exists>h. hdrs s' (b_addr A) = Some h \<and> hfree h \<and> hsize h = b_size A \<and> hnext h = b_addr C) \<and>
              first s' = first s \<and> heap_brk s' = heap_brk s + (max n MIN_BLOCK_SIZE + 32)"
proof -
  let ?n = "max n MIN_BLOCK_SIZE" and ?B = "heap_brk s" and ?a = "b_addr A" and ?c = "b_addr C"
  let ?bs = "pre @ A # C # post"
  let ?NB = "\<lparr>hnext = 0, hprev = last_addr 0 bs', hsize = ?n, hfree = False\<rparr>"
  obtain s1 where ok1: "heap_ok s1 bs'" and fr: "s1 = s\<lparr>hdrs := hdrs s1\<rparr>"
    and m: "malloc n s = Some (Inr (?B + HDR_SIZE,
           s1\<lparr>first := (if first s1 = 0 then ?B else first s1),
              hdrs := (clobber ?B 32 (\<lambda>q. if unat (?B + (?n + 32)) < unat q + 32 then None else hdrs s1 q))
                  (?B \<mapsto> ?NB), heap_brk := ?B + (?n + 32)\<rparr>))"
    and frm: "\<forall>x \<in> b_addr ` set bs'. ((clobber ?B 32
                   (\<lambda>q. if unat (?B + (?n + 32)) < unat q + 32 then None else hdrs s1 q)) (?B \<mapsto> ?NB)) x
               = hdrs s1 x"
    by (rule malloc_grow_run [OF ok nf room small])
  define s2 where "s2 = s1\<lparr>first := (if first s1 = 0 then ?B else first s1),
              hdrs := (clobber ?B 32 (\<lambda>q. if unat (?B + (?n + 32)) < unat q + 32 then None else hdrs s1 q))
                  (?B \<mapsto> ?NB), heap_brk := ?B + (?n + 32)\<rparr>"
  note same = hdrs_frame [OF fr]
  from ok obtain mid where ua0: "unat ?a = mid"
    and tc: "tiled (mid + unat HDR_SIZE + unat (b_size A)) (C # post) (unat ?B)"
    by (rule heap_ok_tiled)
  have uc: "unat ?c = unat ?a + 32 + unat (b_size A)" using tc ua0 by simp
  have ab: "unat ?a + 32 + unat (b_size A) \<le> unat ?B" and sa: "unat (heap_start s) \<le> unat ?a"
    using heap_ok_extent [OF ok] by simp_all
  \<comment> \<open>the old block and its successor survive the scan, linked\<close>
  have Ain: "A \<in> set bs'" and Cin: "C \<in> set bs'"
    using first_fit_keeps_used [OF nf] uA uC by auto
  then obtain P Q where bsq: "bs' = P @ A # Q" by (meson split_list)
  have ok1': "heap_ok s1 (P @ A # Q)" using ok1 bsq by simp
  have nq: "next_addr Q = ?c" using heap_ok_succ_in [OF ok1'] Cin bsq uc by simp
  have hA1: "hdrs s1 ?a = Some \<lparr>hnext = ?c, hprev = last_addr 0 P, hsize = b_size A, hfree = False\<rparr>"
    using heap_ok_block [OF ok1'] nq uA by simp
  have nzc: "?c \<noteq> 0" using heap_ok_block [of s "pre @ [A]" C post] ok by simp
  \<comment> \<open>after malloc\<close>
  have f1: "first s1 \<noteq> 0" using heap_ok_nonempty_first [OF ok1] bsq by simp
  have bmax: "unat ?B + unat ?n + 32 < 2 ^ 64" using room unat_lt_2p64 [of "heap_max s"] by linarith
  have ub2: "unat (?B + (?n + 32)) = unat ?B + unat ?n + 32" using bmax by (rule unat_add_plus32_nowrap)
  have hA2: "hdrs s2 ?a = hdrs s1 ?a" using frm Ain by (simp add: s2_def)
  have st2: "heap_start s2 = heap_start s" "heap_brk s2 = ?B + (?n + 32)" "first s2 = first s"
    "dat s2 = dat s" using same f1 by (simp_all add: s2_def)
  have nA: "?a \<noteq> 0" using heap_ok_block [OF ok] by simp
  have l2: "load s2 ?a = Inr \<lparr>hnext = ?c, hprev = last_addr 0 P, hsize = b_size A, hfree = False\<rparr>"
    using hA2 hA1 nA sa ab ub2 st2 by (simp add: load_Inr in_heap_def)
  \<comment> \<open>the copy\<close>
  have "b_size A \<le> ?n" using grow by (simp add: le_max_iff_disj)
  then have gz: "unat (b_size A) \<le> unat ?n" by (simp add: word_le_nat_alt)
  obtain s3 where cp: "copy_loop ?a ?B 0 s2 = Inr s3" and fr3: "s3 = s2\<lparr>dat := dat s3, hdrs := hdrs s3\<rparr>"
    and dt3: "\<forall>p. dat s3 p = (if p - (?B + 32) < b_size A then dat s2 (?a + 32 + (p - (?B + 32))) else dat s2 p)"
    and hd3: "\<forall>q. hdrs s3 q = (if 0 < b_size A \<and> overlaps (?B + 32) (unat (b_size A)) q then None else hdrs s2 q)"
    using copy_loop_run [OF l2, of ?B 0] ab sa ub2 st2 gz by auto
  have ubb: "unat (?B + 32) = unat ?B + 32" using bmax by (simp add: unat_add_nowrap)
  have hA3: "hdrs s3 ?a = hdrs s2 ?a" using hd3 ubb ab by (auto simp: overlaps_def)
  have hB3: "hdrs s3 ?B = Some ?NB" using hd3 ubb by (auto simp: overlaps_def s2_def)
  have st3: "heap_start s3 = heap_start s" "heap_brk s3 = ?B + (?n + 32)" "first s3 = first s"
    using fr3 st2 by (metis mstate.select_convs mstate.surjective mstate.update_convs)+
  \<comment> \<open>freeing the old block\<close>
  define s4 where "s4 = s3\<lparr>hdrs := (hdrs s3)(?a \<mapsto> \<lparr>hnext = ?c, hprev = last_addr 0 P, hsize = b_size A, hfree = True\<rparr>)\<rparr>"
  have nz32: "?a + HDR_SIZE \<noteq> 0" by (rule heap_ok_data_addr [OF ok])
  have in3: "in_heap s3 ?a" using sa ab ub2 st3 by (simp add: in_heap_def)
  have fre: "free (?a + HDR_SIZE) s3 = Some (Inr s4)"
    using nz32 nA in3 hA3 hA2 hA1 nzc by (simp add: free_def Let_def mem_simps s4_def)
  \<comment> \<open>realloc takes the fallback\<close>
  have lA: "load s ?a = Inr \<lparr>hnext = ?c, hprev = last_addr 0 pre, hsize = b_size A, hfree = b_free A\<rparr>"
    using heap_ok_block [of s pre A "C # post"] ok by (simp add: mem_simps)
  have lC: "load s ?c = Inr \<lparr>hnext = next_addr post, hprev = ?a, hsize = b_size C, hfree = b_free C\<rparr>"
    using heap_ok_block [of s "pre @ [A]" C post] ok by (simp add: mem_simps)
  have nzB: "?B + HDR_SIZE \<noteq> 0" using ubb by (auto simp: unat_eq_zero [symmetric] simp del: unat_eq_zero)
  have m2: "malloc n s = Some (Inr (?B + HDR_SIZE, s2))" using m by (simp add: s2_def)
  have cd: "copy_data ?a (?B + HDR_SIZE - HDR_SIZE) s2 = Inr s3" using cp by (simp add: copy_data_def)
  have fb: "realloc_fallback (?a + HDR_SIZE) n s = Some (Inr (?B + HDR_SIZE, s4))"
    unfolding realloc_fallback_def Let_def using m2 nzB cd fre by (simp del: copy_loop.simps)
  have "realloc (?a + HDR_SIZE) n s = Some (Inr (?B + HDR_SIZE, s4))"
    using nz32 lA lC uC nzc fb by (simp add: realloc_def Let_def size_diff_not_neg del: copy_loop.simps)
  moreover have "\<forall>j. j < b_size A \<longrightarrow> dat s4 (?B + HDR_SIZE + j) = dat s (?a + HDR_SIZE + j)"
    using dt3 st2 by (simp add: s4_def)
  moreover have "hdrs s4 ?B = Some ?NB"
  proof -
    have "?a \<noteq> ?B" using ab by auto
    then show ?thesis using hB3 by (simp add: s4_def)
  qed
  moreover have "first s4 = first s" "heap_brk s4 = ?B + (?n + 32)" using st3 by (simp_all add: s4_def)
  ultimately show ?thesis by (auto simp: s4_def)
qed

theorem realloc_fallback_grows_witness:
  "heap_ok demo_used ([] @ Blk 4096 32 False # Blk 4160 32 False # []) \<and>
   (\<exists>s'. realloc 4128 64 demo_used = Some (Inr (4256, s')) \<and>
         dat s' 4256 = 32 \<and> dat s' 4287 = 63 \<and>
         hdrs s' 4224 = Some \<lparr>hnext = 0, hprev = 4160, hsize = 64, hfree = False\<rparr> \<and>
         heap_brk s' = 4320)"
proof -
  have ok: "heap_ok demo_used ([] @ Blk 4096 32 False # Blk 4160 32 False # [])"
    by (simp add: demo_used_def heap_ok_def)
  have hb: "heap_brk demo_used = 4224" "heap_max demo_used = 65536" by (simp_all add: demo_used_def)
  have "first_fit (max 64 MIN_BLOCK_SIZE) [] ([] @ Blk 4096 32 False # Blk 4160 32 False # []) =
          ([Blk 4096 32 False, Blk 4160 32 False], None)" by simp
  from realloc_fallback_grows [OF ok _ _ this] hb obtain s' where
    r: "realloc 4128 64 demo_used = Some (Inr (4256, s'))"
    and c: "\<forall>j. j < 32 \<longrightarrow> dat s' (4256 + j) = dat demo_used (4128 + j)"
    and h: "hdrs s' 4224 = Some \<lparr>hnext = 0, hprev = 4160, hsize = 64, hfree = False\<rparr>"
    and b: "heap_brk s' = 4320"
    by auto
  have "dat s' 4256 = 32" using c [rule_format, of 0] by (simp add: demo_used_def)
  moreover have "dat s' 4287 = 63" using c [rule_format, of 31] by (simp add: demo_used_def)
  ultimately show ?thesis using ok r h b by blast
qed

text \<open>
  C25. realloc shrinking a block whose successor is in use, when no free block fits the
  new size, also takes the fallback, since \<^verbatim>\<open>size_diff\<close> cannot be negative: the new
  block at the old break has the smaller size, and copying the old block's larger size
  into it runs past the new break and faults.
\<close>

theorem realloc_fallback_shrink_overflows:
  assumes ok: "heap_ok s (pre @ A # C # post)" and uA: "\<not> b_free A" and uC: "\<not> b_free C"
    and nf: "first_fit (max n MIN_BLOCK_SIZE) [] (pre @ A # C # post) = (bs', None)"
    and shrink: "max n MIN_BLOCK_SIZE < b_size A"
    and room: "unat (heap_brk s) + unat (max n MIN_BLOCK_SIZE) + 32 \<le> unat (heap_max s)"
    and small: "unat (max n MIN_BLOCK_SIZE) + 32 < 2 ^ 63"
  shows "realloc (b_addr A + HDR_SIZE) n s =
           Some (Inl (Unmapped (heap_brk s + HDR_SIZE + max n MIN_BLOCK_SIZE)))"
proof -
  let ?n = "max n MIN_BLOCK_SIZE" and ?B = "heap_brk s" and ?a = "b_addr A" and ?c = "b_addr C"
  let ?NB = "\<lparr>hnext = 0, hprev = last_addr 0 bs', hsize = ?n, hfree = False\<rparr>"
  obtain s1 where ok1: "heap_ok s1 bs'" and fr: "s1 = s\<lparr>hdrs := hdrs s1\<rparr>"
    and m: "malloc n s = Some (Inr (?B + HDR_SIZE,
           s1\<lparr>first := (if first s1 = 0 then ?B else first s1),
              hdrs := (clobber ?B 32 (\<lambda>q. if unat (?B + (?n + 32)) < unat q + 32 then None else hdrs s1 q))
                  (?B \<mapsto> ?NB), heap_brk := ?B + (?n + 32)\<rparr>))"
    and frm: "\<forall>x \<in> b_addr ` set bs'. ((clobber ?B 32
                   (\<lambda>q. if unat (?B + (?n + 32)) < unat q + 32 then None else hdrs s1 q)) (?B \<mapsto> ?NB)) x
               = hdrs s1 x"
    by (rule malloc_grow_run [OF ok nf room small])
  define s2 where "s2 = s1\<lparr>first := (if first s1 = 0 then ?B else first s1),
              hdrs := (clobber ?B 32 (\<lambda>q. if unat (?B + (?n + 32)) < unat q + 32 then None else hdrs s1 q))
                  (?B \<mapsto> ?NB), heap_brk := ?B + (?n + 32)\<rparr>"
  note same = hdrs_frame [OF fr]
  have ab: "unat ?a + 32 + unat (b_size A) \<le> unat ?B" and sa: "unat (heap_start s) \<le> unat ?a"
    using heap_ok_extent [OF ok] by simp_all
  have Ain: "A \<in> set bs'" using first_fit_keeps_used [OF nf] uA by auto
  then obtain P Q where bsq: "bs' = P @ A # Q" by (meson split_list)
  have hA1: "hdrs s1 ?a = Some \<lparr>hnext = next_addr Q, hprev = last_addr 0 P, hsize = b_size A, hfree = False\<rparr>"
    using heap_ok_block [of s1 P A Q] ok1 bsq uA by simp
  have bmax: "unat ?B + unat ?n + 32 < 2 ^ 64" using room unat_lt_2p64 [of "heap_max s"] by linarith
  have ub2: "unat (?B + (?n + 32)) = unat ?B + unat ?n + 32" using bmax by (rule unat_add_plus32_nowrap)
  have hA2: "hdrs s2 ?a = hdrs s1 ?a" using frm Ain by (simp add: s2_def)
  have st2: "heap_start s2 = heap_start s" "heap_brk s2 = ?B + (?n + 32)" using same by (simp_all add: s2_def)
  have nA: "?a \<noteq> 0" using heap_ok_block [OF ok] by simp
  have l2: "load s2 ?a = Inr \<lparr>hnext = next_addr Q, hprev = last_addr 0 P, hsize = b_size A, hfree = False\<rparr>"
    using hA2 hA1 nA sa ab ub2 st2 by (simp add: load_Inr in_heap_def)
  have cp: "copy_loop ?a ?B 0 s2 = Inl (Unmapped (?B + 32 + ?n))"
    using copy_loop_overflow [OF l2, of ?B ?n 0] ab sa ub2 st2 shrink by simp
  have m2: "malloc n s = Some (Inr (?B + HDR_SIZE, s2))" using m by (simp add: s2_def)
  have ubb: "unat (?B + 32) = unat ?B + 32" using bmax by (simp add: unat_add_nowrap)
  have nzB: "?B + HDR_SIZE \<noteq> 0" using ubb by (auto simp: unat_eq_zero [symmetric] simp del: unat_eq_zero)
  have cd: "copy_data ?a (?B + HDR_SIZE - HDR_SIZE) s2 = Inl (Unmapped (?B + HDR_SIZE + ?n))"
    using cp by (simp add: copy_data_def)
  have fb: "realloc_fallback (?a + HDR_SIZE) n s = Some (Inl (Unmapped (?B + HDR_SIZE + ?n)))"
    unfolding realloc_fallback_def Let_def using m2 nzB cd by (simp del: copy_loop.simps)
  have nz32: "?a + HDR_SIZE \<noteq> 0" by (rule heap_ok_data_addr [OF ok])
  have lA: "load s ?a = Inr \<lparr>hnext = ?c, hprev = last_addr 0 pre, hsize = b_size A, hfree = b_free A\<rparr>"
    using heap_ok_block [of s pre A "C # post"] ok by (simp add: mem_simps)
  have lC: "load s ?c = Inr \<lparr>hnext = next_addr post, hprev = ?a, hsize = b_size C, hfree = b_free C\<rparr>"
    using heap_ok_block [of s "pre @ [A]" C post] ok by (simp add: mem_simps)
  have nzc: "?c \<noteq> 0" using heap_ok_block [of s "pre @ [A]" C post] ok by simp
  show ?thesis
    using nz32 lA lC uC nzc fb by (simp add: realloc_def Let_def size_diff_not_neg del: copy_loop.simps)
qed

theorem realloc_fallback_shrink_overflows_witness:
  "heap_ok demo_wide ([] @ Blk 4096 64 False # Blk 4192 32 False # []) \<and>
   realloc 4128 32 demo_wide = Some (Inl (Unmapped 4320))"
proof -
  have ok: "heap_ok demo_wide ([] @ Blk 4096 64 False # Blk 4192 32 False # [])"
    by (simp add: demo_wide_def heap_ok_def)
  have hb: "heap_brk demo_wide = 4256" "heap_max demo_wide = 65536" by (simp_all add: demo_wide_def)
  have "first_fit (max 32 MIN_BLOCK_SIZE) [] ([] @ Blk 4096 64 False # Blk 4192 32 False # []) =
          ([Blk 4096 64 False, Blk 4192 32 False], None)" by simp
  from realloc_fallback_shrink_overflows [OF ok _ _ this] hb
  have "realloc 4128 32 demo_wide = Some (Inl (Unmapped 4320))" by simp
  with ok show ?thesis by blast
qed

section \<open>Properties of copy_data\<close>

text \<open>
  C23. copy_data copies the source block's data, \<^verbatim>\<open>src->size\<close> bytes, to the data
  region of the destination when both lie in the heap and the destination does not
  meet the source: every other byte and the source header are unchanged.
\<close>

theorem copy_data_copies:
  assumes ld: "load s src = Inr h"
    and sb: "unat src + 32 + unat (hsize h) \<le> unat (heap_brk s)"
    and dl: "unat (heap_start s) \<le> unat dst + 32" and dh: "unat dst + 32 + unat (hsize h) \<le> unat (heap_brk s)"
    and dj: "unat src + 32 + unat (hsize h) \<le> unat dst + 32 \<or> unat dst + 32 + unat (hsize h) \<le> unat src"
  shows "\<exists>s'. copy_data src dst s = Inr s' \<and>
              (\<forall>j. j < hsize h \<longrightarrow> dat s' (dst + HDR_SIZE + j) = dat s (src + HDR_SIZE + j)) \<and>
              (\<forall>p. hsize h \<le> p - (dst + HDR_SIZE) \<longrightarrow> dat s' p = dat s p) \<and>
              hdrs s' src = hdrs s src \<and> s' = s\<lparr>dat := dat s', hdrs := hdrs s'\<rparr>"
proof -
  from copy_loop_run [OF ld sb dl dh dj, of 0] obtain s' where
    run: "copy_loop src dst 0 s = Inr s'" and fr: "s' = s\<lparr>dat := dat s', hdrs := hdrs s'\<rparr>"
    and dt: "\<forall>p. dat s' p = (if p - (dst + 32) < hsize h then dat s (src + 32 + (p - (dst + 32))) else dat s p)"
    and hd: "\<forall>q. hdrs s' q = (if 0 < hsize h \<and> overlaps (dst + 32) (unat (hsize h)) q then None else hdrs s q)"
    by auto
  have "\<not> overlaps (dst + 32) (unat (hsize h)) src"
  proof -
    have "unat (dst + 32) = unat dst + 32"
      using dh unat_lt_2p64 [of "heap_brk s"] by (simp add: unat_add_nowrap)
    then show ?thesis using dj by (auto simp: overlaps_def)
  qed
  then have "hdrs s' src = hdrs s src" using hd by simp
  moreover have "\<forall>j. j < hsize h \<longrightarrow> dat s' (dst + HDR_SIZE + j) = dat s (src + HDR_SIZE + j)"
    using dt by simp
  moreover have "\<forall>p. hsize h \<le> p - (dst + HDR_SIZE) \<longrightarrow> dat s' p = dat s p"
    using dt by (auto simp: not_less [symmetric])
  ultimately show ?thesis using run fr by (simp add: copy_data_def)
qed

theorem copy_data_copies_witness:
  "\<exists>s'. copy_data 4168 4096 demo_bytes = Inr s' \<and>
        dat s' 4128 = 104 \<and> dat s' 4159 = 135 \<and> dat s' 4160 = 64 \<and>
        hdrs s' 4168 = hdrs demo_bytes 4168"
proof -
  have ld: "load demo_bytes 4168 = Inr \<lparr>hnext = 0, hprev = 4096, hsize = 32, hfree = True\<rparr>"
    by (simp add: demo_bytes_def demo_two_def load_def in_heap_def)
  have hb: "heap_brk demo_bytes = 4232" "heap_start demo_bytes = 4096"
    by (simp_all add: demo_bytes_def demo_two_def)
  have "\<exists>s'. copy_data 4168 4096 demo_bytes = Inr s' \<and>
          (\<forall>j. j < 32 \<longrightarrow> dat s' (4128 + j) = dat demo_bytes (4200 + j)) \<and>
          (\<forall>p. 32 \<le> p - 4128 \<longrightarrow> dat s' p = dat demo_bytes p) \<and>
          hdrs s' 4168 = hdrs demo_bytes 4168"
    using copy_data_copies [OF ld, of 4096] hb by auto
  then obtain s' where
    r: "copy_data 4168 4096 demo_bytes = Inr s'"
    and c: "\<forall>j. j < 32 \<longrightarrow> dat s' (4128 + j) = dat demo_bytes (4200 + j)"
    and o: "\<forall>p. 32 \<le> p - 4128 \<longrightarrow> dat s' p = dat demo_bytes p"
    and hh: "hdrs s' 4168 = hdrs demo_bytes 4168"
    by blast
  have "dat s' 4128 = 104" using c [rule_format, of 0] by (simp add: demo_bytes_def)
  moreover have "dat s' 4159 = 135" using c [rule_format, of 31] by (simp add: demo_bytes_def)
  moreover have "dat s' 4160 = 64" using o [rule_format, of 4160] by (simp add: demo_bytes_def)
  ultimately show ?thesis using r hh by blast
qed

end
