(* ===== verification/Api_Realloc.thy ===== *)
theory Api_Realloc
  imports Api_Layout Api_Refinement Reallocator
begin

text \<open>
  \<^verbatim>\<open>realloc\<close> on the states reachable through the public calls. Every header there has a
  \<open>NULL\<close> \<^verbatim>\<open>next\<close> (\<open>api_inv\<close>), so \<^verbatim>\<open>realloc\<close> of any block takes its tail path:
  \<^verbatim>\<open>sbrk(size_diff)\<close> moves the end of the heap by the size difference, read as a signed
  increment, and the new size is written into the header in place. This is right for the
  last block of the heap, and wrong for every other block.
\<close>

section \<open>The tail path from a state of the invariant\<close>

lemma realloc_tail_api:
  assumes inv: "api_inv s" and hq: "hdrs s q = Some h"
    and ext: "unat q + 32 + unat (hsize h) \<le> unat (heap_brk s)"
    and small: "unat (heap_max s) < 2 ^ 63"
    and room: "unat (heap_brk s) + unat n \<le> unat (heap_max s) + unat (hsize h)"
  defines "b \<equiv> heap_brk s + (n - hsize h)"
  shows "int (unat b) = int (unat (heap_brk s)) + int (unat n) - int (unat (hsize h))"
    and "realloc (q + HDR_SIZE) n s =
           Some (Inr (q + HDR_SIZE, (set_break b s)\<lparr>hdrs := (hdrs (set_break b s))(q \<mapsto> h\<lparr>hsize := n\<rparr>)\<rparr>))"
proof -
  let ?z = "hsize h"
  have hk: "hdr_ok s q h" by (rule api_inv_hdr [OF inv hq])
  have q0: "q \<noteq> 0" and nz: "q + 32 \<noteq> 0" and lq: "load s q = Inr h"
    using api_inv_hdr_ptr [OF inv hq] by simp_all
  have n0: "hnext h = 0" and sq: "unat (heap_start s) \<le> unat q" using hk by (simp_all add: hdr_ok_def)
  have bm: "unat (heap_brk s) \<le> unat (heap_max s)" using inv by (simp add: api_inv_def word_le_nat_alt)
  have zs: "unat ?z < 2 ^ 63" and ns: "unat n < 2 ^ 63" using ext bm small room by linarith+
  have sd: "sint (n - ?z) = int (unat n) - int (unat ?z)" by (rule sint_diff_small [OF ns zs])
  have sd': "sint (n - ?z) = uint n - uint ?z" using sd by simp
  have i1: "int (unat (heap_start s)) + int (unat n) + 32 \<le> int (unat (heap_brk s)) + int (unat n) - int (unat ?z)"
    using sq ext by linarith
  have i2: "int (unat (heap_brk s)) + int (unat n) - int (unat ?z) \<le> int (unat (heap_max s))"
    using room by linarith
  have u1: "uint (heap_start s) + uint n + 32 \<le> uint (heap_brk s) + uint n - uint ?z"
    using i1 by simp
  have lw: "uint (heap_start s) + 32 \<le> uint (heap_brk s) + sint (n - ?z)"
    unfolding sd' using u1 uint_ge_0 [of n] by linarith
  have up: "uint (heap_brk s) + sint (n - ?z) \<le> uint (heap_max s)"
    unfolding sd' using i2 by simp
  have sb: "sbrk (n - ?z) s = (heap_brk s, set_break b s)"
    unfolding b_def using lw up by (intro sbrk_ok) simp_all
  have p1: "0 \<le> uint (heap_brk s) + sint (n - ?z)" using lw uint_ge_0 [of "heap_start s"] by linarith
  have p2: "uint (heap_brk s) + sint (n - ?z) < 2 ^ 64" using up uint_lt2p [of "heap_max s"] by simp
  have "uint b = uint (heap_brk s) + sint (n - ?z)" unfolding b_def by (rule uint_add_sint [OF p1 p2])
  then show ub: "int (unat b) = int (unat (heap_brk s)) + int (unat n) - int (unat ?z)"
    using sd by simp
  then have qb: "unat q + 32 \<le> unat b" using ext by linarith
  have ih: "in_heap (set_break b s) q" using sq qb by (simp add: in_heap_def set_break_def)
  have hq': "hdrs (set_break b s) q = Some h" using qb hq by (simp add: set_break_def)
  have "upd_hdr q (\<lambda>h. h\<lparr>hsize := n\<rparr>) (set_break b s) =
          Inr ((set_break b s)\<lparr>hdrs := (hdrs (set_break b s))(q \<mapsto> h\<lparr>hsize := n\<rparr>)\<rparr>)"
    using q0 ih hq' by (simp add: upd_hdr_def load_def)
  then show "realloc (q + HDR_SIZE) n s =
           Some (Inr (q + HDR_SIZE, (set_break b s)\<lparr>hdrs := (hdrs (set_break b s))(q \<mapsto> h\<lparr>hsize := n\<rparr>)\<rparr>))"
    using nz lq n0 sb by (simp add: realloc_def Let_def size_diff_not_neg)
qed

text \<open>Resizing the block that ends at the break keeps the tiling.\<close>

lemma layout_resize_last:
  assumes l: "layout_ok s bs" and hq: "hdrs s q = Some h"
    and top: "unat q + 32 + unat (hsize h) = unat (heap_brk s)"
    and st: "heap_start s' = heap_start s" and hb: "unat (heap_brk s') = unat q + 32 + unat n"
    and hd: "hdrs s' = (hdrs s)(q \<mapsto> h\<lparr>hsize := n\<rparr>)"
  shows "\<exists>bs'. layout_ok s' bs'"
proof -
  have t: "tiled (unat (heap_start s)) bs (unat (heap_brk s))"
    and sz: "(\<lambda>q. map_option hsize (hdrs s q)) = blk_sizes bs" using l by (simp_all add: layout_ok_def)
  have bq: "blk_sizes bs q = Some (hsize h)" using sz hq by (metis option.simps(9))
  then obtain pre b post where bs: "bs = pre @ b # post" and ab: "b_addr b = q" by (rule blk_sizes_split)
  obtain mid where tp: "tiled (unat (heap_start s)) pre mid" and tq: "tiled mid (b # post) (unat (heap_brk s))"
    using t bs by (auto simp: tiled_append)
  have mq: "mid = unat q" using tq ab by simp
  have "q \<notin> b_addr ` set pre" using tiled_addr_notin_before [OF tp] mq by simp
  then have "blk_sizes bs q = Some (b_size b)"
    using bs ab blk_sizes_None [of pre q] by (auto simp: blk_sizes_def map_add_def split: option.splits)
  then have zb: "b_size b = hsize h" using bq by simp
  have tpost: "tiled (unat (heap_brk s)) post (unat (heap_brk s))" using tq ab zb top by simp
  have post: "post = []"
  proof (cases post)
    case (Cons c cs)
    then have "tiled (unat (heap_brk s) + 32 + unat (b_size c)) cs (unat (heap_brk s))" using tpost by simp
    then show ?thesis using tiled_le by fastforce
  qed
  have b: "b = Blk q (hsize h) (b_free b)" using ab zb by (cases b) simp
  let ?bs' = "pre @ [Blk q n (b_free b)]"
  have tp': "tiled (unat (heap_start s)) pre (unat q)" using tp mq by simp
  have "tiled (unat (heap_start s')) ?bs' (unat (heap_brk s'))" using tp' st hb by (simp add: tiled_append)
  moreover have "blk_sizes bs = (blk_sizes pre)(q \<mapsto> hsize h)"
    using bs post b blk_sizes_snoc [OF tp', of "hsize h" "b_free b"] by simp
  then have "(\<lambda>x. map_option hsize (hdrs s' x)) = blk_sizes ?bs'"
    using sz hd blk_sizes_snoc [OF tp', of n "b_free b"] by (auto simp: fun_eq_iff)
  ultimately show ?thesis unfolding layout_ok_def by blast
qed

text \<open>Two allocations from an empty heap at 4096: 100 bytes, then 32.\<close>

lemma big_small_run:
  "\<exists>s. run_calls [Malloc 100, Malloc 32] (init_state 4096 65536) = Some (Inr s) \<and>
       first s = 4096 \<and> heap_brk s = 4292 \<and>
       hdrs s 4096 = Some \<lparr>hnext = 0, hprev = 0, hsize = 100, hfree = False\<rparr> \<and>
       hdrs s 4228 = Some \<lparr>hnext = 0, hprev = 4096, hsize = 32, hfree = False\<rparr>"
  by (simp add: malloc_def malloc_scan.simps [of 100 0 0] malloc_scan.simps [of 32 4096 0]
       malloc_scan.simps [of 32 0 4096] coalesce.simps [of 4096]
       malloc_extend_def sbrk_def init_state_def new_hdr_def in_heap_def set_break_def clobber_def
       overlaps_def load_def)

section \<open>Properties\<close>

text \<open>
  C20. In every reachable state (under a limit below \<open>2\<^sup>6\<^sup>3\<close>), \<^verbatim>\<open>realloc\<close> shrinking any
  block takes the tail path: the wrapped \<^verbatim>\<open>size_diff\<close> is a negative \<^verbatim>\<open>sbrk\<close> increment,
  so the end of the heap moves down by the size difference while the block keeps its
  place and gets the new size. Every header the lower break no longer covers is gone. When
  the block is not the last one, the bytes given back belong to the last block, which is
  still in use: its header is lost or its data runs past the break (the specification
  asks that a heap shrink never invalidate a block in use).
\<close>

theorem reachable_realloc_shrink_cuts_last:
  assumes r: "reachable lo hi s" and lo: "lo \<noteq> 0" "lo \<le> hi" and hi: "unat hi < 2 ^ 63"
    and hq: "hdrs s q = Some h" and shrink: "n < hsize h"
  shows "\<exists>s'. realloc (q + HDR_SIZE) n s = Some (Inr (q + HDR_SIZE, s')) \<and>
              hdrs s' q = Some (h\<lparr>hsize := n\<rparr>) \<and>
              unat (heap_brk s') + (unat (hsize h) - unat n) = unat (heap_brk s) \<and>
              (\<forall>x. x \<noteq> q \<longrightarrow> hdrs s' x = (if unat (heap_brk s') < unat x + 32 then None else hdrs s x)) \<and>
              (\<forall>t ht. hdrs s t = Some ht \<longrightarrow> t \<noteq> q \<longrightarrow> unat t + 32 + unat (hsize ht) = unat (heap_brk s) \<longrightarrow>
                 hdrs s' t = None \<or> unat (heap_brk s') < unat t + 32 + unat (hsize ht))"
proof -
  have inv: "api_inv s" by (rule reachable_inv [OF r lo])
  have mx: "heap_max s = hi" by (rule reachable_max [OF r lo hi])
  have ext: "unat q + 32 + unat (hsize h) \<le> unat (heap_brk s)"
    using reachable_blocks_ok [OF r lo] hq by (simp add: blocks_ok_def)
  have lt: "unat n < unat (hsize h)" using shrink by (simp add: word_less_nat_alt)
  have bm: "unat (heap_brk s) \<le> unat (heap_max s)" using inv by (simp add: api_inv_def word_le_nat_alt)
  have room: "unat (heap_brk s) + unat n \<le> unat (heap_max s) + unat (hsize h)" using bm lt by linarith
  define b where "b = heap_brk s + (n - hsize h)"
  note rt = realloc_tail_api [OF inv hq ext _ room, folded b_def]
  have ub: "unat b + (unat (hsize h) - unat n) = unat (heap_brk s)" using rt(1) [OF hi [folded mx]] lt by linarith
  define s' where "s' = (set_break b s)\<lparr>hdrs := (hdrs (set_break b s))(q \<mapsto> h\<lparr>hsize := n\<rparr>)\<rparr>"
  have "realloc (q + HDR_SIZE) n s = Some (Inr (q + HDR_SIZE, s'))"
    using rt(2) [OF hi [folded mx]] by (simp add: s'_def)
  moreover have "hdrs s' q = Some (h\<lparr>hsize := n\<rparr>)" by (simp add: s'_def)
  moreover have "unat (heap_brk s') + (unat (hsize h) - unat n) = unat (heap_brk s)"
    using ub by (simp add: s'_def set_break_def)
  moreover have hx: "\<forall>x. x \<noteq> q \<longrightarrow> hdrs s' x = (if unat (heap_brk s') < unat x + 32 then None else hdrs s x)"
    by (simp add: s'_def set_break_def)
  moreover have "hdrs s' t = None \<or> unat (heap_brk s') < unat t + 32 + unat (hsize ht)"
    if "hdrs s t = Some ht" "t \<noteq> q" "unat t + 32 + unat (hsize ht) = unat (heap_brk s)" for t ht
  proof -
    have "unat (heap_brk s') < unat (heap_brk s)" using ub lt by (simp add: s'_def set_break_def)
    then show ?thesis using hx that by auto
  qed
  ultimately show ?thesis by blast
qed

theorem reachable_realloc_shrink_cuts_last_witness:
  "\<exists>s. run_calls [Malloc 100, Malloc 32] (init_state 4096 65536) = Some (Inr s) \<and>
       hdrs s 4228 = Some \<lparr>hnext = 0, hprev = 4096, hsize = 32, hfree = False\<rparr> \<and>
       (\<exists>s'. realloc 4128 40 s = Some (Inr (4128, s')) \<and> unat (heap_brk s') = 4232 \<and>
             hdrs s' 4096 = Some \<lparr>hnext = 0, hprev = 0, hsize = 40, hfree = False\<rparr> \<and> hdrs s' 4228 = None)"
proof -
  obtain s where run: "run_calls [Malloc 100, Malloc 32] (init_state 4096 65536) = Some (Inr s)"
    and b: "heap_brk s = 4292"
    and h1: "hdrs s 4096 = Some \<lparr>hnext = 0, hprev = 0, hsize = 100, hfree = False\<rparr>"
    and h2: "hdrs s 4228 = Some \<lparr>hnext = 0, hprev = 4096, hsize = 32, hfree = False\<rparr>"
    using big_small_run by blast
  have r: "reachable 4096 65536 s" by (rule reachable_run [OF reachable.reach_init run])
  have "\<exists>s'. realloc (4096 + HDR_SIZE) 40 s = Some (Inr (4096 + HDR_SIZE, s')) \<and>
              hdrs s' 4096 = Some (\<lparr>hnext = 0, hprev = 0, hsize = 100, hfree = False\<rparr>\<lparr>hsize := 40\<rparr>) \<and>
              unat (heap_brk s') + (unat (hsize \<lparr>hnext = 0, hprev = 0, hsize = 100 :: size_t, hfree = False\<rparr>) - unat (40 :: size_t)) = unat (heap_brk s) \<and>
              (\<forall>x. x \<noteq> 4096 \<longrightarrow> hdrs s' x = (if unat (heap_brk s') < unat x + 32 then None else hdrs s x)) \<and>
              (\<forall>t ht. hdrs s t = Some ht \<longrightarrow> t \<noteq> 4096 \<longrightarrow> unat t + 32 + unat (hsize ht) = unat (heap_brk s) \<longrightarrow>
                 hdrs s' t = None \<or> unat (heap_brk s') < unat t + 32 + unat (hsize ht))"
    by (rule reachable_realloc_shrink_cuts_last [OF r _ _ _ h1]) simp_all
  then obtain s' where re: "realloc 4128 40 s = Some (Inr (4128, s'))"
    and h1': "hdrs s' 4096 = Some \<lparr>hnext = 0, hprev = 0, hsize = 40, hfree = False\<rparr>"
    and ub: "unat (heap_brk s') + 60 = 4292"
    and hx: "\<forall>x. x \<noteq> 4096 \<longrightarrow> hdrs s' x = (if unat (heap_brk s') < unat x + 32 then None else hdrs s x)"
    using b by auto
  have "unat (heap_brk s') = 4232" using ub by simp
  moreover have "hdrs s' 4228 = None" using hx [rule_format, of 4228] \<open>unat (heap_brk s') = 4232\<close> by simp
  ultimately show ?thesis using run h2 re h1' by blast
qed

text \<open>
  C21. In every reachable state (under a limit below \<open>2\<^sup>6\<^sup>3\<close>), \<^verbatim>\<open>realloc\<close> of the last
  block of the heap, the one that ends at the break, to any size that fits below the
  limit, growing or shrinking, resizes it in place. Only its header changes, the break
  moves to the block's new end, and the blocks still tile the heap: for this block the
  tail path is what the specification's tail growth prescribes.
\<close>

theorem reachable_realloc_last_block:
  assumes r: "reachable lo hi s" and lo: "lo \<noteq> 0" "lo \<le> hi" and hi: "unat hi < 2 ^ 63"
    and hq: "hdrs s q = Some h" and top: "unat q + 32 + unat (hsize h) = unat (heap_brk s)"
    and fit: "unat q + 32 + unat n \<le> unat hi"
  shows "\<exists>s'. realloc (q + HDR_SIZE) n s = Some (Inr (q + HDR_SIZE, s')) \<and>
              hdrs s' = (hdrs s)(q \<mapsto> h\<lparr>hsize := n\<rparr>) \<and>
              unat (heap_brk s') = unat q + 32 + unat n \<and> (\<exists>bs. layout_ok s' bs)"
proof -
  have inv: "api_inv s" by (rule reachable_inv [OF r lo])
  have ok: "blocks_ok s" by (rule reachable_blocks_ok [OF r lo])
  have mx: "heap_max s = hi" by (rule reachable_max [OF r lo hi])
  have room: "unat (heap_brk s) + unat n \<le> unat (heap_max s) + unat (hsize h)" using top fit mx by simp
  define b where "b = heap_brk s + (n - hsize h)"
  note rt = realloc_tail_api [OF inv hq _ _ room, folded b_def]
  have ub: "unat b = unat q + 32 + unat n" using rt(1) [OF _ hi [folded mx]] top by linarith
  have keep: "hdrs (set_break b s) x = hdrs s x" if "x \<noteq> q" for x
  proof (cases "hdrs s x")
    case (Some hx)
    have "unat x + 32 \<le> unat b"
    proof (cases "unat x < unat q")
      case True
      then show ?thesis using ok Some hq ub unfolding blocks_ok_def by fastforce
    next
      case False
      then have "unat q < unat x" using that by (simp add: word_unat_eq_iff)
      then have "unat q + 32 + unat (hsize h) \<le> unat x" using ok Some hq unfolding blocks_ok_def by blast
      moreover have "unat x + 32 + unat (hsize hx) \<le> unat (heap_brk s)" using ok Some by (simp add: blocks_ok_def)
      ultimately show ?thesis using top by linarith
    qed
    then show ?thesis by (simp add: set_break_def)
  qed (simp add: set_break_def)
  define s' where "s' = (set_break b s)\<lparr>hdrs := (hdrs (set_break b s))(q \<mapsto> h\<lparr>hsize := n\<rparr>)\<rparr>"
  have "realloc (q + HDR_SIZE) n s = Some (Inr (q + HDR_SIZE, s'))"
    using rt(2) [OF _ hi [folded mx]] top by (simp add: s'_def)
  moreover have hd: "hdrs s' = (hdrs s)(q \<mapsto> h\<lparr>hsize := n\<rparr>)" using keep by (auto simp: s'_def fun_eq_iff)
  moreover have hb: "unat (heap_brk s') = unat q + 32 + unat n" using ub by (simp add: s'_def set_break_def)
  moreover have "\<exists>bs. layout_ok s' bs"
  proof -
    obtain bs where "layout_ok s bs" using reachable_layout [OF r lo] by blast
    moreover have "heap_start s' = heap_start s" by (simp add: s'_def set_break_def)
    ultimately show ?thesis using layout_resize_last [OF _ hq top _ hb hd] by blast
  qed
  ultimately show ?thesis by blast
qed

theorem reachable_realloc_last_block_witness:
  "\<exists>s. run_calls [Malloc 100, Malloc 32] (init_state 4096 65536) = Some (Inr s) \<and>
       (\<exists>s'. realloc 4260 500 s = Some (Inr (4260, s')) \<and>
             hdrs s' = (hdrs s)(4228 \<mapsto> \<lparr>hnext = 0, hprev = 4096, hsize = 500, hfree = False\<rparr>) \<and>
             unat (heap_brk s') = 4760 \<and> (\<exists>bs. layout_ok s' bs))"
proof -
  obtain s where run: "run_calls [Malloc 100, Malloc 32] (init_state 4096 65536) = Some (Inr s)"
    and b: "heap_brk s = 4292"
    and h2: "hdrs s 4228 = Some \<lparr>hnext = 0, hprev = 4096, hsize = 32, hfree = False\<rparr>"
    using big_small_run by blast
  have r: "reachable 4096 65536 s" by (rule reachable_run [OF reachable.reach_init run])
  have "\<exists>s'. realloc (4228 + HDR_SIZE) 500 s = Some (Inr (4228 + HDR_SIZE, s')) \<and>
              hdrs s' = (hdrs s)(4228 \<mapsto> \<lparr>hnext = 0, hprev = 4096, hsize = 32, hfree = False\<rparr>\<lparr>hsize := 500\<rparr>) \<and>
              unat (heap_brk s') = unat (4228 :: addr) + 32 + unat (500 :: size_t) \<and> (\<exists>bs. layout_ok s' bs)"
    by (rule reachable_realloc_last_block [OF r _ _ _ h2]) (simp_all add: b)
  with run show ?thesis by simp
qed

text \<open>
  C36. In every reachable state every block has a \<open>NULL\<close> \<^verbatim>\<open>next\<close>, so \<^verbatim>\<open>realloc\<close>
  growing a block always takes the tail path: it moves the break and writes the new size
  into the header in place, even when blocks allocated later lie right after it. The grown
  block then covers the next block's header, and the blocks no longer lie apart.
\<close>

theorem reachable_realloc_overruns:
  assumes r: "reachable lo hi s" and lo: "lo \<noteq> 0" "lo \<le> hi"
    and hq: "hdrs s q = Some h" and hq2: "hdrs s q2 = Some h2" and lt: "unat q < unat q2"
    and grow: "hsize h \<le> n" and small: "unat n < 2 ^ 63" and over: "unat q2 < unat q + 32 + unat n"
  shows "\<exists>s'. realloc (q + HDR_SIZE) n s = Some (Inr (q + HDR_SIZE, s')) \<and>
              hdrs s' q = Some (h\<lparr>hsize := n\<rparr>) \<and> hdrs s' q2 = Some h2 \<and> \<not> blocks_ok s'"
proof -
  have inv: "api_inv s" by (rule reachable_inv [OF r lo])
  have hk: "hdr_ok s q h" by (rule api_inv_hdr [OF inv hq])
  have q0: "q \<noteq> 0" and nz: "q + 32 \<noteq> 0" and lq: "load s q = Inr h"
    using api_inv_hdr_ptr [OF inv hq] by simp_all
  have n0: "hnext h = 0" using hk by (simp add: hdr_ok_def)
  have "unat (n - hsize h) \<le> unat n" using grow by (simp add: unat_sub word_le_nat_alt)
  then have sd: "unat (n - hsize h) < 2 ^ 63" using small by linarith
  obtain r1 s1 where sb: "sbrk (n - hsize h) s = (r1, s1)" by (cases "sbrk (n - hsize h) s")
  note up = api_inv_sbrk_up [OF inv sd sb]
  have ih: "in_heap s1 q" using up hk by (simp add: in_heap_def hdr_ok_def)
  define s' where "s' = s1\<lparr>hdrs := (hdrs s)(q \<mapsto> h\<lparr>hsize := n\<rparr>)\<rparr>"
  have "upd_hdr q (\<lambda>h. h\<lparr>hsize := n\<rparr>) s1 = Inr s'"
    using q0 ih hq up by (simp add: upd_hdr_def load_def s'_def)
  then have "realloc (q + HDR_SIZE) n s = Some (Inr (q + HDR_SIZE, s'))"
    using nz lq n0 sb by (simp add: realloc_def Let_def size_diff_not_neg)
  moreover have "hdrs s' q = Some (h\<lparr>hsize := n\<rparr>)" by (simp add: s'_def)
  moreover have "q2 \<noteq> q" using lt by auto
  then have "hdrs s' q2 = Some h2" using hq2 by (simp add: s'_def)
  moreover have "\<not> blocks_ok s'"
  proof
    assume "blocks_ok s'"
    then have "unat q + 32 + unat (hsize (h\<lparr>hsize := n\<rparr>)) \<le> unat q2"
      using \<open>hdrs s' q = Some (h\<lparr>hsize := n\<rparr>)\<close> \<open>hdrs s' q2 = Some h2\<close> lt unfolding blocks_ok_def by blast
    then show False using over by simp
  qed
  ultimately show ?thesis by blast
qed

theorem reachable_realloc_overruns_witness:
  "\<exists>s. run_calls [Malloc 32, Malloc 32] (init_state 4096 65536) = Some (Inr s) \<and>
       (\<exists>s'. realloc 4128 100 s = Some (Inr (4128, s')) \<and>
             hdrs s' 4096 = Some \<lparr>hnext = 0, hprev = 0, hsize = 100, hfree = False\<rparr> \<and>
             hdrs s' 4160 = Some \<lparr>hnext = 0, hprev = 4096, hsize = 32, hfree = False\<rparr> \<and> \<not> blocks_ok s')"
proof -
  obtain s where run: "run_calls [Malloc 32, Malloc 32] (init_state 4096 65536) = Some (Inr s)"
    and h1: "hdrs s 4096 = Some \<lparr>hnext = 0, hprev = 0, hsize = 32, hfree = False\<rparr>"
    and h2: "hdrs s 4160 = Some \<lparr>hnext = 0, hprev = 4096, hsize = 32, hfree = False\<rparr>"
    using two_blocks_run by blast
  have r: "reachable 4096 65536 s" by (rule reachable_run [OF reachable.reach_init run])
  have "\<exists>s'. realloc (4096 + HDR_SIZE) 100 s = Some (Inr (4096 + HDR_SIZE, s')) \<and>
              hdrs s' 4096 = Some (\<lparr>hnext = 0, hprev = 0, hsize = 32, hfree = False\<rparr>\<lparr>hsize := 100\<rparr>) \<and>
              hdrs s' 4160 = Some \<lparr>hnext = 0, hprev = 4096, hsize = 32, hfree = False\<rparr> \<and> \<not> blocks_ok s'"
    by (rule reachable_realloc_overruns [OF r _ _ h1 h2]) simp_all
  with run show ?thesis by auto
qed

end
