(* ===== verification/Spec2Isabelle.thy ===== *)
theory Spec2Isabelle
  imports Api_Realloc
begin

text \<open>
  \<^bold>\<open>A verification development of \<^verbatim>\<open>src/dynalloc.c\<close>\<close>, a first-fit allocator with
  lazy coalescing that replaces \<^verbatim>\<open>malloc\<close>, \<^verbatim>\<open>free\<close> and \<^verbatim>\<open>realloc\<close> on top of
  the program break.

  \<^emph>\<open>The program.\<close> Every block is a \<^verbatim>\<open>struct Header\<close> (links \<^verbatim>\<open>next\<close>/\<^verbatim>\<open>prev\<close>,
  the data size, a free flag) followed by its data. The global \<^verbatim>\<open>first\<close> heads a
  doubly linked chain of headers (the Block Directory). \<^verbatim>\<open>merge_blocks\<close> and
  \<^verbatim>\<open>split_block\<close> edit the chain. \<^verbatim>\<open>malloc\<close> walks the chain first-fit, coalescing free
  runs as it goes, and calls \<^verbatim>\<open>sbrk\<close> when nothing fits. \<^verbatim>\<open>free\<close> and
  \<^verbatim>\<open>free_with_caution\<close> set the flag and give a trailing free run back with
  \<^verbatim>\<open>brk\<close>. \<^verbatim>\<open>realloc\<close> resizes a tail block with \<^verbatim>\<open>sbrk\<close>, absorbs a free
  successor, or falls back to \<^verbatim>\<open>malloc\<close>, \<^verbatim>\<open>copy_data\<close> and \<^verbatim>\<open>free\<close>.

  \<^emph>\<open>The library\<close>, one theory per part, each importing the ones it calls.
  \<^item> \<open>Alloc_Prelude\<close>: addresses and sizes as \<^typ>\<open>64 word\<close> (LP64). The faults of an
    undefined access form a datatype. The error monad \<open>bindE\<close> threads straight-line
    code, and \<open>bindO\<close>/\<open>bindL\<close> thread the bodies of loops written as
    \<open>partial_function (option)\<close>, where \<open>None\<close> is a loop that never ends. Also here:
    lemmas on word sums without wrap-around and on signed increments.
  \<^item> \<open>Heap_Memory\<close>: \<^verbatim>\<open>struct Header\<close> as the record \<open>Header\<close>, and the process state
    \<open>mstate\<close>: the global \<^verbatim>\<open>first\<close>, a typed store of headers, the data bytes, and the
    break with its bounds. Loads and stores of headers and of data bytes fault on
    \<open>NULL\<close>, on memory outside \<open>[heap_start, break)\<close> and on memory holding no
    header. A new header or a byte store destroys the headers it overlaps. The Heap
    Region Manager \<open>sbrk\<close>/\<open>brk\<close> is not part of the repository and is modelled from
    the specification: the break moves within \<open>[heap_start, heap_max]\<close>.
    \<open>sbrk\<close> reads its increment as signed and returns \<^verbatim>\<open>(void * ) -1\<close> when it
    cannot move the break. Headers above a lowered break are gone.
  \<^item> \<open>Block_Directory\<close>: the macros \<^verbatim>\<open>min\<close>/\<^verbatim>\<open>max\<close> (lines 6--7) as \<open>min_macro\<close>
    and \<open>max_macro\<close>, and \<open>merge_blocks\<close> and \<open>split_block\<close> (lines 35--64), one load
    or store per field access of the source. The chain is abstracted to a list of
    blocks (\<open>seg\<close>), the blocks tile the heap (\<open>tiled\<close>), and \<open>heap_ok\<close> is
    their conjunction: the specification's invariants 1--4.
  \<^item> \<open>Allocator\<close>: \<^verbatim>\<open>malloc\<close> (lines 79--113) as the coalescing loop
    \<open>coalesce\<close>, the first-fit walk \<open>malloc_scan\<close>, \<open>fit_then_split\<close> and the
    growth \<open>malloc_extend\<close>. The specification's first fit is \<open>first_fit\<close> over
    \<open>merge_run\<close>.
  \<^item> \<open>Deallocator\<close>: \<^verbatim>\<open>free\<close> (lines 120--138) with its backward walk
    \<open>free_walk\<close> and trailing shrink \<open>free_tail\<close>, and \<^verbatim>\<open>free_with_caution\<close>
    (lines 145--168) with its chain scan \<open>caution_scan\<close>.
  \<^item> \<open>Reallocator\<close>: \<^verbatim>\<open>copy_data\<close> as \<open>copy_loop\<close>, a \<open>function\<close> whose termination
    is proved with the measure \<open>2^64 - i\<close>. \<^verbatim>\<open>realloc\<close> (lines 184--220) keeps the
    test \<^verbatim>\<open>size_diff < 0\<close> on the unsigned \<^verbatim>\<open>size_t\<close> as the compiler evaluates it.
    The absorption loop is \<open>absorb_loop\<close> and the fallback is \<open>realloc_fallback\<close>.
  \<^item> \<open>Api_Calls\<close>: the public calls as a datatype, one call as a step on the state, a run
    of calls, the reachable states as an inductive predicate, and their invariant
    \<open>api_inv\<close>, proved by rule induction. Exact run lemmas give the state after each call
    from a state of the invariant (\<open>malloc_api_cases\<close>, \<open>malloc_extend_api\<close>,
    \<open>free_api_step\<close>).
  \<^item> \<open>Api_Runs\<close>: two further invariants of reachable states. \<open>blocks_ok\<close> says every
    block lies below the break and no two blocks overlap. \<open>all_used\<close> says no header is
    free. It also holds the properties a client relies on across calls.
  \<^item> \<open>Api_Refinement\<close>: the abstract contract of the public calls, a stack allocator
    \<open>astep\<close>/\<open>arun\<close> over the map of live block sizes and the break, the abstraction
    \<open>abs_state\<close> of the model's state, and the refinement of one call
    (\<open>api_step_refines\<close>) and of every run. It also holds the exact conditions under
    which each call faults or succeeds.
  \<^item> \<open>Api_Layout\<close>: the layout of reachable states, \<open>layout_ok\<close>. The headers' blocks
    tile \<open>[heap_start, break)\<close> as a list of blocks (\<open>tiled\<close> of \<open>Block_Directory\<close>), and
    the headers record the sizes of the tiling (\<open>blk_sizes\<close>). Each call keeps the
    layout (\<open>layout_malloc\<close>, \<open>layout_release\<close>, \<open>api_step_layout\<close>).
  \<^item> \<open>Api_Realloc\<close>: \<^verbatim>\<open>realloc\<close> on reachable states. Every header there has a \<open>NULL\<close>
    \<^verbatim>\<open>next\<close>, so \<^verbatim>\<open>realloc\<close> of any block takes its tail path; \<open>realloc_tail_api\<close>
    gives its exact result, with \<^verbatim>\<open>sbrk\<close> reading the wrapped size difference as a
    signed increment.

  \<^emph>\<open>What is proved\<close> (claims C1--C40, each after a text naming it).
  \<^item> Block Directory. On a well-formed directory \<open>merge_blocks\<close> refines the specification's
    merge \<open>absorb\<close> in either argument order (C1). \<open>split_block\<close> subtracts
    \<^verbatim>\<open>sizeof(header)\<close>, the size of a pointer, and never truncates the split block, so
    the remainder overlaps the next header by 24 bytes (C2). Splitting the last block
    dereferences \<open>NULL\<close> (C3). An exact fit wraps the remainder size and writes a
    self-linked header over the successor (C4).
  \<^item> Allocator. The coalescing loop terminates and merges exactly the maximal free run
    (C5). \<^verbatim>\<open>malloc\<close> takes the specification's first fit (C6) and always terminates on a
    well-formed directory (C7). A block obtained from \<^verbatim>\<open>sbrk\<close> is never linked into the
    chain (C8). The first allocation creates the one-block directory (C9).
    When the break cannot move, \<^verbatim>\<open>malloc\<close> writes its header at \<^verbatim>\<open>(void * ) -1\<close>
    instead of returning \<open>NULL\<close> (C26). A request within 32 bytes of \<^verbatim>\<open>SIZE_MAX\<close>
    wraps the \<^verbatim>\<open>sbrk\<close> increment, and the header is written past the break (C27).
  \<^item> Deallocator. \<^verbatim>\<open>free_with_caution\<close> ignores headers outside the chain (C10) and agrees
    with \<^verbatim>\<open>free\<close> on blocks of the chain (C11). Freeing a block with a successor only
    sets its flag (C12). Freeing the tail behind free blocks empties the directory (C13).
    Behind a block in use, the tail run is released but that block keeps a dangling
    \<^verbatim>\<open>next\<close> (C14).
  \<^item> Reallocator. A tail block resizes in place, shrinking through the wrap-around of
    \<^verbatim>\<open>size_diff\<close> (C15). The absorption loop dereferences \<open>NULL\<close> before a free tail
    (C16). A successor with a remainder below the split floor is absorbed whole (C17).
    Otherwise the grown block overlaps the new free header it links to (C18).
    \<^verbatim>\<open>copy_data\<close> copies exactly the source's bytes and nothing else (C23). When no
    free block fits, growth through the fallback moves the data to a new block at the old
    break and frees the old one (C24). Since \<^verbatim>\<open>size_diff\<close> is unsigned, a shrink
    of such a block takes the same fallback, and copying the old, larger size into the
    smaller new block faults past the new break (C25).
  \<^item> Across the components, from the initial state. The directory never holds more than
    one block (C19). The specification's section-8 scenario fails from every reachable
    state and for all sizes: freeing A gives back exactly the state before A, so B is
    released with it, and freeing B then faults (C22). Every run of calls
    returns (C28). Freeing what \<^verbatim>\<open>malloc\<close> just returned restores the state exactly
    (C29). Every block lies inside the heap, no two blocks overlap, and the blocks tile the
    heap from its start to the break without a gap (C30).
    \<^verbatim>\<open>malloc\<close> grants at least the requested size (C31). No header is ever marked
    free (C32), because \<^verbatim>\<open>free\<close> of any block lowers the break to it: that releases
    every block allocated after it, including blocks still in use (C33). So the
    first-fit walk never reuses a block, and every allocation grows the heap (C34). The
    three invariants together are kept by every run of calls from any state that has
    them (C35).
  \<^item> \<^verbatim>\<open>realloc\<close> on reachable states. Shrinking any block moves the end of the heap down
    by the size difference, cutting the last block, still in use (C20). For the last
    block itself the tail path is right: it is resized in place to any size that fits and
    the blocks still tile the heap (C21). Growing any other block runs it over the blocks
    allocated after it (C36).
  \<^item> The contract. Every run of calls from the initial state refines the stack
    allocator: it faults exactly when the abstract run does, and otherwise ends with the
    abstract run's live blocks, sizes and break (C37). \<^verbatim>\<open>free\<close> faults exactly on
    non-null pointers that are not the data pointer of a live block (C38).
    \<^verbatim>\<open>free_with_caution\<close> never faults: it empties the heap when given the first block,
    and otherwise changes nothing (C39). \<^verbatim>\<open>malloc\<close> returns a block exactly
    when the request fits below the limit (C40).

  \<^emph>\<open>Bounds and termination.\<close> Loops that follow pointers stored in the heap
  (\<open>coalesce\<close>, \<open>malloc_scan\<close>, \<open>free_walk\<close>, \<open>caution_scan\<close>, \<open>absorb_loop\<close>)
  are \<open>partial_function (option)\<close>, with no fuel. Where they return, that is proved as an
  equation with \<open>Some\<close> on a well-formed directory (C5, C7 and the run lemmas).
  \<open>copy_loop\<close> is total by its measure. C15 assumes \<open>heap_max < 2^63\<close>, so that the size
  difference \<^verbatim>\<open>sbrk\<close> reads as a signed increment is the true difference. C37
  and C40 assume the same bound on the limit, so that every request that fits is a
  positive increment; the limit is an invariant of reachable states (\<open>reachable_max\<close>). The
  concrete heaps of the witnesses lie in \<open>[4096, 65536]\<close>. A new header is accessible
  only if the break moved up by at least its 32 bytes (\<open>sbrk_in_heap\<close>). So every
  successful growth moved the break by exactly the block, with no wrap-around, which is
  what makes C30 hold without a bound on the request.

  \<^emph>\<open>Not modelled.\<close> Every function, macro and global of \<^verbatim>\<open>src/dynalloc.c\<close> has its
  definition. The lines no definition translates are the three \<^verbatim>\<open>#include\<close>s
  (\<^verbatim>\<open>stdio.h\<close> is never used), blank lines and comments. The bytes of a header are
  not part of the data bytes: a header store leaves the data bytes unchanged, and a byte
  store only removes the headers it hits. The fallback of \<^verbatim>\<open>realloc\<close> is proved only with
  a block in use after the resized one, for growth (C24) and for a shrink (C25).
  \<^verbatim>\<open>realloc\<close> is also not among the calls of the reachable-state model: its tail path
  resizes blocks that are not at the end of the heap and breaks \<open>blocks_ok\<close> (C36).
  Thread safety and alignment are outside the specification's scope.
\<close>

section \<open>Properties across the components\<close>

text \<open>
  C19. In every state reachable from the initial one through malloc, free and
  free_with_caution, the directory reachable from \<^verbatim>\<open>first\<close> holds at most one block:
  blocks obtained from \<^verbatim>\<open>sbrk\<close> after the first are never linked.
\<close>

theorem reachable_directory_single:
  assumes "reachable lo hi s" and "lo \<noteq> 0" and "lo \<le> hi"
  shows "\<exists>bs. length bs \<le> 1 \<and> seg (hdrs s) 0 (first s) bs 0"
proof -
  have inv: "api_inv s" by (rule reachable_inv [OF assms])
  show ?thesis
  proof (cases "first s = 0")
    case True
    then show ?thesis by (intro exI [of _ "[]"]) simp
  next
    case False
    obtain h where "hdrs s (first s) = Some h" "hprev h = 0" "hnext h = 0"
      using api_inv_first [OF inv False] by metis
    then show ?thesis using False
      by (intro exI [of _ "[Blk (first s) (hsize h) (hfree h)]"]) simp
  qed
qed

theorem reachable_directory_single_witness:
  "\<exists>s. run_calls [Malloc 32, Malloc 32] (init_state 4096 65536) = Some (Inr s) \<and>
       hdrs s 4160 = Some \<lparr>hnext = 0, hprev = 4096, hsize = 32, hfree = False\<rparr> \<and>
       (\<exists>bs. length bs \<le> 1 \<and> seg (hdrs s) 0 (first s) bs 0)"
proof -
  obtain s where r: "run_calls [Malloc 32, Malloc 32] (init_state 4096 65536) = Some (Inr s)"
    and h: "hdrs s 4160 = Some \<lparr>hnext = 0, hprev = 4096, hsize = 32, hfree = False\<rparr>"
    using two_blocks_run by blast
  have "reachable 4096 65536 s" by (rule reachable_run [OF reachable.reach_init r])
  then have "\<exists>bs. length bs \<le> 1 \<and> seg (hdrs s) 0 (first s) bs 0"
    by (rule reachable_directory_single) simp_all
  with r h show ?thesis by blast
qed

text \<open>
  C22. The specification's section-8 scenario, from every reachable state and for every
  two sizes: allocate A, allocate B right after it, free A, free B. Freeing A gives back
  exactly the state before A was allocated, so B, still in use, is released with it; freeing
  B then touches released memory and faults. (The specification expects both frees to
  succeed and a later allocation of both sizes and a header to reuse the merged region.)
\<close>

theorem free_in_allocation_order_faults:
  assumes r: "reachable lo hi s" and lo: "lo \<noteq> 0" "lo \<le> hi"
    and ma: "malloc a s = Some (Inr (pA, s1))" and mb: "malloc b s1 = Some (Inr (pB, s2))"
  shows "free pA s2 = Some (Inr s) \<and> (\<exists>e. free pB s = Some (Inl e))"
proof -
  let ?B = "heap_brk s" and ?A = "\<lparr>hnext = 0, hprev = first s, hsize = max a 32, hfree = False\<rparr>"
  have inv: "api_inv s" and u: "all_used s" using reachable_inv [OF r lo] reachable_all_used [OF r lo] by simp_all
  have "api_step (Malloc a) s = Some (Inr s1)" using ma by simp
  then have r1: "reachable lo hi s1" by (rule reachable.reach_step [OF r])
  have inv1: "api_inv s1" and u1: "all_used s1" using reachable_inv [OF r1 lo] reachable_all_used [OF r1 lo] by simp_all
  have "api_step (Malloc b) s1 = Some (Inr s2)" using mb by simp
  then have r2: "reachable lo hi s2" by (rule reachable.reach_step [OF r1])
  have inv2: "api_inv s2" and u2: "all_used s2" using reachable_inv [OF r2 lo] reachable_all_used [OF r2 lo] by simp_all
  note e1 = malloc_api_used [OF inv u ma] and e2 = malloc_api_used [OF inv1 u1 mb]
  have pA0: "pA = ?B + 32" and b1: "unat (heap_brk s1) = unat ?B + unat (max a 32) + 32"
    and s1: "s1 = s\<lparr>first := (if first s = 0 then ?B else first s), hdrs := (hdrs s)(?B \<mapsto> ?A),
                     heap_brk := ?B + (max a 32 + 32)\<rparr>" using e1 by blast+
  have pA: "pA = ?B + HDR_SIZE" using pA0 by simp
  have pB0: "pB = heap_brk s1 + 32"
    and s2: "s2 = s1\<lparr>first := (if first s1 = 0 then heap_brk s1 else first s1),
                 hdrs := (hdrs s1)(heap_brk s1 \<mapsto> \<lparr>hnext = 0, hprev = first s1, hsize = max b 32, hfree = False\<rparr>),
                 heap_brk := heap_brk s1 + (max b 32 + 32)\<rparr>" using e2 by blast+
  have pB: "pB = heap_brk s1 + HDR_SIZE" using pB0 by simp
  have "heap_start s \<noteq> 0" "heap_start s \<le> ?B" using inv by (simp_all add: api_inv_def)
  then have B0: "?B \<noteq> 0" by auto
  have above: "unat ?B < unat (heap_brk s1)" using b1 by simp
  have f2: "first s2 = (if first s = 0 then ?B else first s)" using s1 s2 B0 by simp
  have hA: "hdrs s2 ?B = Some ?A" using s1 s2 above by auto
  have "free pA s2 = Some (Inr (s2\<lparr>first := (if ?B = first s2 then 0 else first s2),
          hdrs := (\<lambda>x. if unat ?B < unat x + 32 then None else hdrs s2 x), heap_brk := ?B\<rparr>))"
    using free_api_release [OF inv2 u2 hA] unfolding pA .
  moreover have "s2\<lparr>first := (if ?B = first s2 then 0 else first s2),
          hdrs := (\<lambda>x. if unat ?B < unat x + 32 then None else hdrs s2 x), heap_brk := ?B\<rparr> = s"
  proof (rule release_at_brk [OF inv f2])
    fix x :: addr
    assume "unat x + 32 \<le> unat ?B"
    then have "x \<noteq> ?B" "x \<noteq> heap_brk s1" using above by auto
    then show "hdrs s2 x = hdrs s x" using s1 s2 by simp
  qed (simp_all add: s1 s2)
  moreover have "\<exists>e. free pB s = Some (Inl e)"
  proof -
    have hB: "hdrs s2 (heap_brk s1) = Some \<lparr>hnext = 0, hprev = first s1, hsize = max b 32, hfree = False\<rparr>"
      using s2 by simp
    have "pB \<noteq> 0" using api_inv_hdr_ptr [OF inv2 hB] pB by simp
    moreover have "hdrs s (pB - HDR_SIZE) = None"
    proof (rule ccontr)
      assume "hdrs s (pB - HDR_SIZE) \<noteq> None"
      then obtain g where "hdrs s (heap_brk s1) = Some g" using pB by auto
      then have "unat (heap_brk s1) + 32 \<le> unat ?B" using api_inv_hdr [OF inv] by (simp add: hdr_ok_def)
      then show False using above by simp
    qed
    ultimately show ?thesis by (rule free_api_nohdr)
  qed
  ultimately show ?thesis by simp
qed

theorem free_in_allocation_order_faults_witness:
  "\<exists>s1 s2. malloc 40 (init_state 4096 65536) = Some (Inr (4128, s1)) \<and> malloc 10 s1 = Some (Inr (4200, s2)) \<and>
          free 4128 s2 = Some (Inr (init_state 4096 65536)) \<and> (\<exists>e. free 4200 (init_state 4096 65536) = Some (Inl e))"
proof -
  obtain s1 s2 where ma: "malloc 40 (init_state 4096 65536) = Some (Inr (4128, s1))"
    and mb: "malloc 10 s1 = Some (Inr (4200, s2))"
    by (simp add: malloc_def malloc_scan.simps [of 40 0 0] malloc_scan.simps [of 32 4096 0]
       malloc_scan.simps [of 32 0 4096] coalesce.simps [of 4096]
       malloc_extend_def sbrk_def init_state_def new_hdr_def in_heap_def set_break_def clobber_def
       overlaps_def load_def)
  have "free 4128 s2 = Some (Inr (init_state 4096 65536)) \<and> (\<exists>e. free 4200 (init_state 4096 65536) = Some (Inl e))"
    by (rule free_in_allocation_order_faults [OF reachable.reach_init _ _ ma mb]) simp_all
  with ma mb show ?thesis by blast
qed

end
